(* ===== verification/Wb_Prelude.thy ===== *)
theory Wb_Prelude
  imports "HOL-Library.Word" "HOL-Library.AList" "HOL-Library.Multiset"
begin

text \<open>
  Shared vocabulary of the development: the machine integers of the Rust sources, results of
  fallible code, saturating and checked arithmetic, little-endian byte strings, UTF-8 text,
  the string operations the sources use, and unstable sorting.
\<close>

unbundle bit_operations_syntax

named_theorems wb_arith \<open>facts on saturating and checked word arithmetic\<close>
named_theorems wb_codec \<open>decode-after-encode equations\<close>

section \<open>Machine integers\<close>

text \<open>
  \<open>i64\<close> values are kept as 64-bit words and read by \<open>sint\<close>; \<open>usize\<close> is 64 bits wide on the only
  supported target (x64) and is written as \<open>nat\<close> wherever it is an index or a length of something
  that exists in memory.
\<close>

type_synonym byte = "8 word"
type_synonym u16 = "16 word"
type_synonym u32 = "32 word"
type_synonym u64 = "64 word"
type_synonym i64 = "64 word"

definition sat_add :: "'a::len word \<Rightarrow> 'a word \<Rightarrow> 'a word" where
  "sat_add a b = (if unat a + unat b < 2 ^ LENGTH('a) then a + b else - 1)"

definition sat_sub :: "'a::len word \<Rightarrow> 'a word \<Rightarrow> 'a word" where
  "sat_sub a b = (if a < b then 0 else a - b)"

definition sat_mul :: "'a::len word \<Rightarrow> 'a word \<Rightarrow> 'a word" where
  "sat_mul a b = (if unat a * unat b < 2 ^ LENGTH('a) then a * b else - 1)"

definition checked_add :: "'a::len word \<Rightarrow> 'a word \<Rightarrow> 'a word option" where
  "checked_add a b = (if unat a + unat b < 2 ^ LENGTH('a) then Some (a + b) else None)"

definition checked_sub :: "'a::len word \<Rightarrow> 'a word \<Rightarrow> 'a word option" where
  "checked_sub a b = (if a < b then None else Some (a - b))"

definition checked_mul :: "'a::len word \<Rightarrow> 'a word \<Rightarrow> 'a word option" where
  "checked_mul a b = (if unat a * unat b < 2 ^ LENGTH('a) then Some (a * b) else None)"

text \<open>Signed \<open>checked_add\<close>: defined when the sum of the two's complement readings fits.\<close>

definition checked_sadd :: "'a::len word \<Rightarrow> 'a word \<Rightarrow> 'a word option" where
  "checked_sadd a b =
     (if - (2 ^ (LENGTH('a) - 1)) \<le> sint a + sint b \<and> sint a + sint b < 2 ^ (LENGTH('a) - 1)
      then Some (a + b) else None)"

lemma unat_less_power: "unat a < 2 ^ LENGTH('a)" for a :: "'a::len word"
  by (rule unsigned_less)

lemma unat_le_max: "unat a \<le> 2 ^ LENGTH('a) - 1" for a :: "'a::len word"
  using unat_less_power [of a] by linarith

lemma unat_max_word: "unat (- 1 :: 'a::len word) = 2 ^ LENGTH('a) - 1"
  by (simp add: unsigned_minus_1_eq_mask mask_eq_exp_minus_1)

lemma min_pred: "m < P \<Longrightarrow> min m (P - 1) = m" "\<not> m < P \<Longrightarrow> min m (P - 1) = P - 1" for m P :: nat
  by (auto simp: min_def)

lemma unat_sat_add [wb_arith]:
  "unat (sat_add a b) = min (unat a + unat b) (2 ^ LENGTH('a) - 1)" for a b :: "'a::len word"
  by (cases "unat a + unat b < 2 ^ LENGTH('a)")
    (simp_all only: sat_add_def unat_max_word unat_word_ariths min_pred mod_less if_True if_False)

lemma unat_sat_mul [wb_arith]:
  "unat (sat_mul a b) = min (unat a * unat b) (2 ^ LENGTH('a) - 1)" for a b :: "'a::len word"
  by (cases "unat a * unat b < 2 ^ LENGTH('a)")
    (simp_all only: sat_mul_def unat_max_word unat_word_ariths min_pred mod_less if_True if_False)

lemma unat_sat_sub [wb_arith]: "unat (sat_sub a b) = unat a - unat b" for a b :: "'a::len word"
  by (auto simp: sat_sub_def unat_sub word_less_nat_alt word_le_nat_alt not_less)

lemma sat_add_0 [simp]: "sat_add 0 a = a" "sat_add a 0 = a" for a :: "'a::len word"
  by (simp_all add: sat_add_def)

lemma sat_add_commute: "sat_add a b = sat_add b a" for a b :: "'a::len word"
  by (simp add: sat_add_def add.commute)

lemma sat_add_assoc: "sat_add (sat_add a b) c = sat_add a (sat_add b c)"
  for a b c :: "'a::len word"
proof -
  have "min (min (x + y) m + z) m = min (x + min (y + z) m) m" for x y z m :: nat
    by (simp add: min_def)
  then show ?thesis by (simp add: word_unat_eq_iff unat_sat_add)
qed

lemma unat_sat_sum:
  "unat (foldl sat_add a xs) = min (unat a + sum_list (map unat xs)) (2 ^ LENGTH('a) - 1)"
  for a :: "'a::len word"
proof (induction xs arbitrary: a)
  case Nil
  then show ?case using unat_le_max [of a] by simp
next
  case (Cons x xs)
  have "min (min (u + v) m + w) m = min (u + (v + w)) m" for u v w m :: nat
    by (simp add: min_def)
  with Cons show ?case by (simp add: unat_sat_add)
qed

text \<open>A fold of \<open>u64::saturating_add\<close> from zero.\<close>

definition sat_sum :: "'a::len word list \<Rightarrow> 'a word" where
  "sat_sum xs = foldl sat_add 0 xs"

lemma unat_sat_sum_min [wb_arith]:
  "unat (sat_sum xs) = min (sum_list (map unat xs)) (2 ^ LENGTH('a) - 1)" for xs :: "'a::len word list"
  by (simp add: sat_sum_def unat_sat_sum)

section \<open>Fallible code\<close>

text \<open>
  A Rust \<open>Result\<close> is a sum with the error on the left; \<open>rbind\<close> is the \<open>?\<close> operator.
\<close>

fun rbind :: "'e + 'a \<Rightarrow> ('a \<Rightarrow> 'e + 'b) \<Rightarrow> 'e + 'b" where
  "rbind (Inl e) f = Inl e"
| "rbind (Inr x) f = f x"

lemma rbind_eq_Inr: "rbind m f = Inr y \<longleftrightarrow> (\<exists>x. m = Inr x \<and> f x = Inr y)"
  by (cases m) auto

lemma rbind_eq_Inl: "rbind m f = Inl e \<longleftrightarrow> m = Inl e \<or> (\<exists>x. m = Inr x \<and> f x = Inl e)"
  by (cases m) auto

lemma rbind_cong [fundef_cong]:
  "m = m' \<Longrightarrow> (\<And>x. m' = Inr x \<Longrightarrow> f x = f' x) \<Longrightarrow> rbind m f = rbind m' f'"
  by (cases m') auto

lemma rbind_assoc: "rbind (rbind m f) g = rbind m (\<lambda>x. rbind (f x) g)"
  by (cases m) auto

section \<open>Little-endian bytes\<close>

fun le_nat :: "byte list \<Rightarrow> nat" where
  "le_nat [] = 0"
| "le_nat (b # bs) = unat b + 256 * le_nat bs"

fun nat_le :: "nat \<Rightarrow> nat \<Rightarrow> byte list" where
  "nat_le 0 v = []"
| "nat_le (Suc n) v = word_of_nat v # nat_le n (v div 256)"

definition to_le :: "nat \<Rightarrow> 'a::len word \<Rightarrow> byte list" where
  "to_le n w = nat_le n (unat w)"

definition from_le :: "byte list \<Rightarrow> 'a::len word" where
  "from_le bs = word_of_nat (le_nat bs)"

lemma length_nat_le [simp]: "length (nat_le n v) = n"
  by (induction n arbitrary: v) auto

lemma length_to_le [simp]: "length (to_le n w) = n"
  by (simp add: to_le_def)

lemma le_nat_nat_le: "le_nat (nat_le n v) = v mod 256 ^ n"
proof (induction n arbitrary: v)
  case (Suc n)
  have "v mod 256 + 256 * (v div 256 mod 256 ^ n) = v mod (256 * 256 ^ n)"
    by (simp add: mod_mult2_eq)
  with Suc show ?case by (simp add: unat_of_nat)
qed simp

lemma le_nat_less: "le_nat bs < 256 ^ length bs"
proof (induction bs)
  case (Cons b bs)
  have "unat b < 256" using unat_less_power [of b] by simp
  with Cons show ?case by simp
qed simp

lemma from_le_to_le: "LENGTH('a) = 8 * n \<Longrightarrow> from_le (to_le n w) = w" for w :: "'a::len word"
proof -
  assume n: "LENGTH('a) = 8 * n"
  have "256 ^ n = (2 :: nat) ^ LENGTH('a)"
    by (simp add: n power_mult)
  then show ?thesis
    using unat_less_power [of w] by (simp add: from_le_def to_le_def le_nat_nat_le)
qed

lemma from_le_to_le_64 [wb_codec]: "from_le (to_le 8 w) = w" for w :: u64
  by (rule from_le_to_le) simp

lemma from_le_to_le_32 [wb_codec]: "from_le (to_le 4 w) = w" for w :: u32
  by (rule from_le_to_le) simp

lemma from_le_to_le_16 [wb_codec]: "from_le (to_le 2 w) = w" for w :: u16
  by (rule from_le_to_le) simp

lemma unat_from_le_64: "length bs = 8 \<Longrightarrow> unat (from_le bs :: u64) = le_nat bs"
  using le_nat_less [of bs] by (simp add: from_le_def unat_of_nat)

end
