(* ===== verification/Wb_Text.thy ===== *)
theory Wb_Text
  imports Wb_Prelude "HOL-Library.Sublist" "HOL-Library.Char_ord"
begin

text \<open>
  Text: a Rust \<open>str\<close> is a \<open>string\<close> whose characters are its UTF-8 bytes, so \<open>length\<close> is
  \<open>str::len\<close> and comparisons are the byte comparisons of the standard library. The theory models
  the parts of \<open>std\<close> the sources call: \<open>from_utf8\<close>, \<open>trim\<close>, \<open>find\<close>, \<open>eq_ignore_ascii_case\<close>,
  \<open>to_ascii_lowercase\<close> and the byte iterators.
\<close>

definition char_byte :: "char \<Rightarrow> byte" where
  "char_byte c = word_of_nat (of_char c)"

definition byte_char :: "byte \<Rightarrow> char" where
  "byte_char b = char_of (unat b)"

definition as_bytes :: "string \<Rightarrow> byte list" where
  "as_bytes s = map char_byte s"

definition of_bytes :: "byte list \<Rightarrow> string" where
  "of_bytes bs = map byte_char bs"

lemma of_char_less: "(of_char c :: nat) < 256"
  by (rule nat_of_char_less_256)

lemma byte_char_inverse [simp]: "byte_char (char_byte c) = c"
  using of_char_less [of c] by (simp add: byte_char_def char_byte_def unat_of_nat)

lemma char_byte_inverse [simp]: "char_byte (byte_char b) = b"
  using unat_less_power [of b] by (simp add: byte_char_def char_byte_def)

lemma of_bytes_as_bytes [simp]: "of_bytes (as_bytes s) = s"
  by (simp add: of_bytes_def as_bytes_def comp_def)

lemma as_bytes_of_bytes [simp]: "as_bytes (of_bytes bs) = bs"
  by (simp add: of_bytes_def as_bytes_def comp_def)

lemma length_as_bytes [simp]: "length (as_bytes s) = length s"
  by (simp add: as_bytes_def)

lemma length_of_bytes [simp]: "length (of_bytes bs) = length bs"
  by (simp add: of_bytes_def)

lemma as_bytes_eq [simp]: "as_bytes s = as_bytes t \<longleftrightarrow> s = t"
  by (metis of_bytes_as_bytes)

section \<open>UTF-8\<close>

text \<open>Well-formed byte sequences as \<open>core::str::from_utf8\<close> accepts them (no overlong forms, no
  surrogates, nothing above U+10FFFF).\<close>

definition cont :: "byte \<Rightarrow> bool" where
  "cont b \<longleftrightarrow> 0x80 \<le> b \<and> b \<le> 0xBF"

fun utf8_valid :: "byte list \<Rightarrow> bool" where
  "utf8_valid [] = True"
| "utf8_valid (b # bs) =
    (if b < 0x80 then utf8_valid bs
     else if 0xC2 \<le> b \<and> b \<le> 0xDF then
       (case bs of b1 # r \<Rightarrow> cont b1 \<and> utf8_valid r | _ \<Rightarrow> False)
     else if 0xE0 \<le> b \<and> b \<le> 0xEF then
       (case bs of b1 # b2 # r \<Rightarrow>
          cont b1 \<and> cont b2 \<and> (b = 0xE0 \<longrightarrow> 0xA0 \<le> b1) \<and> (b = 0xED \<longrightarrow> b1 \<le> 0x9F) \<and> utf8_valid r
        | _ \<Rightarrow> False)
     else if 0xF0 \<le> b \<and> b \<le> 0xF4 then
       (case bs of b1 # b2 # b3 # r \<Rightarrow>
          cont b1 \<and> cont b2 \<and> cont b3 \<and> (b = 0xF0 \<longrightarrow> 0x90 \<le> b1) \<and> (b = 0xF4 \<longrightarrow> b1 \<le> 0x8F) \<and>
          utf8_valid r
        | _ \<Rightarrow> False)
     else False)"

text \<open>The invariant of every Rust \<open>str\<close>.\<close>

definition is_str :: "string \<Rightarrow> bool" where
  "is_str s \<longleftrightarrow> utf8_valid (as_bytes s)"

definition from_utf8 :: "byte list \<Rightarrow> string option" where
  "from_utf8 bs = (if utf8_valid bs then Some (of_bytes bs) else None)"

lemma from_utf8_as_bytes [wb_codec]: "is_str s \<Longrightarrow> from_utf8 (as_bytes s) = Some s"
  by (simp add: from_utf8_def is_str_def)

lemma from_utf8_Some: "from_utf8 bs = Some s \<Longrightarrow> bs = as_bytes s \<and> is_str s"
  by (auto simp: from_utf8_def is_str_def split: if_splits)

lemma utf8_valid_ascii: "\<forall>b\<in>set bs. b < 0x80 \<Longrightarrow> utf8_valid bs"
  by (induction bs) auto

section \<open>ASCII case\<close>

definition ascii_lower :: "char \<Rightarrow> char" where
  "ascii_lower c = (let n = of_char c :: nat in if 65 \<le> n \<and> n \<le> 90 then char_of (n + 32) else c)"

definition to_ascii_lowercase :: "string \<Rightarrow> string" where
  "to_ascii_lowercase s = map ascii_lower s"

definition eq_ignore_ascii_case :: "string \<Rightarrow> string \<Rightarrow> bool" where
  "eq_ignore_ascii_case s t \<longleftrightarrow> length s = length t \<and> list_all2 (\<lambda>a b. ascii_lower a = ascii_lower b) s t"

lemma eq_ignore_ascii_case_iff: "eq_ignore_ascii_case s t \<longleftrightarrow> to_ascii_lowercase s = to_ascii_lowercase t"
  by (auto simp: eq_ignore_ascii_case_def to_ascii_lowercase_def list_all2_conv_all_nth
      list_eq_iff_nth_eq)

lemma ascii_lower_idem [simp]: "ascii_lower (ascii_lower c) = ascii_lower c"
  using of_char_less [of c] by (auto simp: ascii_lower_def Let_def)

section \<open>Searching and trimming\<close>

text \<open>\<open>str::find\<close> of a substring: the byte offset of its first occurrence.\<close>

fun find_sub :: "string \<Rightarrow> string \<Rightarrow> nat option" where
  "find_sub needle [] = (if needle = [] then Some 0 else None)"
| "find_sub needle (c # s) =
    (if prefix needle (c # s) then Some 0 else map_option Suc (find_sub needle s))"

text \<open>
  Length in bytes of a leading character with the Unicode \<open>White_Space\<close> property, 0 if there is
  none; the same for a trailing one on the reversed text.
\<close>

definition ws_ascii :: "nat \<Rightarrow> bool" where
  "ws_ascii n \<longleftrightarrow> (9 \<le> n \<and> n \<le> 13) \<or> n = 32"

definition ws_two :: "nat \<Rightarrow> nat \<Rightarrow> bool" where
  "ws_two a b \<longleftrightarrow> a = 0xC2 \<and> (b = 0x85 \<or> b = 0xA0)"

definition ws_three :: "nat \<Rightarrow> nat \<Rightarrow> nat \<Rightarrow> bool" where
  "ws_three a b c \<longleftrightarrow> (a = 0xE1 \<and> b = 0x9A \<and> c = 0x80)
     \<or> (a = 0xE2 \<and> b = 0x80 \<and> (0x80 \<le> c \<and> c \<le> 0x8A \<or> c = 0xA8 \<or> c = 0xA9 \<or> c = 0xAF))
     \<or> (a = 0xE2 \<and> b = 0x81 \<and> c = 0x9F) \<or> (a = 0xE3 \<and> b = 0x80 \<and> c = 0x80)"

fun ws_lead :: "string \<Rightarrow> nat" where
  "ws_lead [] = 0"
| "ws_lead (a # s) =
    (if ws_ascii (of_char a) then 1
     else case s of [] \<Rightarrow> 0
       | b # s' \<Rightarrow> if ws_two (of_char a) (of_char b) then 2
           else case s' of [] \<Rightarrow> 0
             | c # _ \<Rightarrow> if ws_three (of_char a) (of_char b) (of_char c) then 3 else 0)"

fun ws_trail :: "string \<Rightarrow> nat" where
  "ws_trail [] = 0"
| "ws_trail (a # s) =
    (if ws_ascii (of_char a) then 1
     else case s of [] \<Rightarrow> 0
       | b # s' \<Rightarrow> if ws_two (of_char b) (of_char a) then 2
           else case s' of [] \<Rightarrow> 0
             | c # _ \<Rightarrow> if ws_three (of_char c) (of_char b) (of_char a) then 3 else 0)"

lemma ws_lead_le: "ws_lead s \<le> length s"
  by (cases s rule: ws_lead.cases) (auto split: list.splits)

function trim_start :: "string \<Rightarrow> string" where
  "trim_start s = (if ws_lead s = 0 then s else trim_start (drop (ws_lead s) s))"
  by pat_completeness auto
termination
proof (relation "measure length")
  fix s assume "ws_lead s \<noteq> 0"
  then show "(drop (ws_lead s) s, s) \<in> measure length"
    using ws_lead_le [of s] by (cases s) auto
qed simp

lemma ws_trail_le: "ws_trail s \<le> length s"
  by (cases s rule: ws_trail.cases) (auto split: list.splits)

function trim_rev :: "string \<Rightarrow> string" where
  "trim_rev s = (if ws_trail s = 0 then s else trim_rev (drop (ws_trail s) s))"
  by pat_completeness auto
termination
proof (relation "measure length")
  fix s assume "ws_trail s \<noteq> 0"
  then show "(drop (ws_trail s) s, s) \<in> measure length"
    using ws_trail_le [of s] by (cases s) auto
qed simp

declare trim_start.simps [simp del] trim_rev.simps [simp del]

definition trim_end :: "string \<Rightarrow> string" where
  "trim_end s = rev (trim_rev (rev s))"

definition trim :: "string \<Rightarrow> string" where
  "trim s = trim_end (trim_start s)"

lemma trim_start_plain: "ws_lead s = 0 \<Longrightarrow> trim_start s = s"
  by (simp add: trim_start.simps)

lemma trim_rev_plain: "ws_trail s = 0 \<Longrightarrow> trim_rev s = s"
  by (simp add: trim_rev.simps)

abbreviation backslash :: char where "backslash \<equiv> CHR 0x5C"
abbreviation dquote :: char where "dquote \<equiv> CHR 0x22"

definition ends_with_char :: "string \<Rightarrow> char \<Rightarrow> bool" where
  "ends_with_char s c \<longleftrightarrow> s \<noteq> [] \<and> last s = c"

section \<open>Unstable sorting\<close>

text \<open>
  \<open>slice::sort_unstable_by_key\<close> may return the elements of equal keys in any order. Every outcome
  is a stable sort of some rearrangement, so the rearrangement is an argument of the model; what is
  proved about it only assumes that it is a permutation.
\<close>

definition sort_unstable_by_key :: "('a list \<Rightarrow> 'a list) \<Rightarrow> ('a \<Rightarrow> 'k::linorder) \<Rightarrow> 'a list \<Rightarrow> 'a list" where
  "sort_unstable_by_key shuffle key xs = sort_key key (shuffle xs)"

definition shuffles :: "('a list \<Rightarrow> 'a list) \<Rightarrow> bool" where
  "shuffles shuffle \<longleftrightarrow> (\<forall>xs. mset (shuffle xs) = mset xs)"

lemma shufflesD: "shuffles f \<Longrightarrow> mset (f xs) = mset xs"
  by (simp add: shuffles_def)

lemma shuffles_id: "shuffles id" "shuffles rev"
  by (simp_all add: shuffles_def)

lemma sorted_sort_unstable [simp]: "sorted (map key (sort_unstable_by_key f key xs))"
  by (simp add: sort_unstable_by_key_def)

lemma mset_sort_unstable: "shuffles f \<Longrightarrow> mset (sort_unstable_by_key f key xs) = mset xs"
  by (simp add: sort_unstable_by_key_def shufflesD)

text \<open>With distinct keys the outcome does not depend on the rearrangement.\<close>

lemma sort_unstable_distinct:
  assumes "shuffles f" and "distinct (map key xs)"
  shows "sort_unstable_by_key f key xs = sort_key key xs"
proof -
  let ?l = "sort_unstable_by_key f key xs" and ?r = "sort_key key xs"
  have m: "mset ?l = mset xs" using assms(1) by (rule mset_sort_unstable)
  then have s: "set ?l = set xs" by (metis set_mset_mset)
  have "mset (map key ?l) = mset (map key xs)" using m by (metis mset_map)
  then have "distinct (map key ?l)" using assms(2) by (metis mset_eq_imp_distinct_iff)
  moreover have "distinct (map key ?r)"
    using assms(2) by (metis mset_eq_imp_distinct_iff mset_map mset_sort)
  ultimately have "map key ?l = map key ?r"
    using s by (intro sorted_distinct_set_unique) (auto simp: sorted_sort_key)
  moreover have "inj_on key (set ?l \<union> set ?r)"
    using assms(2) s by (simp add: distinct_map)
  ultimately show ?thesis by (metis map_inj_on)
qed

end
