(* ===== verification/Comparison_Sorts.thy ===== *)
theory Comparison_Sorts
  imports Wb_Text "HOL-Library.List_Lexorder"
begin

text \<open>
  Sorting with a comparison function: \<open>sort_by\<close>, \<open>sort_unstable_by\<close>, \<open>select_nth_unstable_by\<close> and
  the three-valued orderings the comparison closures compute. The locales \<open>total_comparison\<close> and \<open>comparison\<close> state what a
  comparison must satisfy; its lemmas make the results of the unstable operations determined.
\<close>

section \<open>Orderings\<close>

datatype ordering = Less | Equal | Greater

definition cmp :: "'a::linorder \<Rightarrow> 'a \<Rightarrow> ordering" where
  "cmp a b = (if a < b then Less else if a = b then Equal else Greater)"

fun then_with :: "ordering \<Rightarrow> ordering \<Rightarrow> ordering" where
  "then_with Equal o2 = o2"
| "then_with Less o2 = Less"
| "then_with Greater o2 = Greater"

fun reverse_ordering :: "ordering \<Rightarrow> ordering" where
  "reverse_ordering Less = Greater"
| "reverse_ordering Equal = Equal"
| "reverse_ordering Greater = Less"

lemma cmp_simps [simp]:
  "cmp a b = Less \<longleftrightarrow> a < b" "cmp a b = Equal \<longleftrightarrow> a = b" "cmp a b = Greater \<longleftrightarrow> b < a"
  by (auto simp: cmp_def)

lemma then_with_Greater: "then_with x y = Greater \<longleftrightarrow> x = Greater \<or> x = Equal \<and> y = Greater"
  by (cases x) auto

lemma then_with_Less: "then_with x y = Less \<longleftrightarrow> x = Less \<or> x = Equal \<and> y = Less"
  by (cases x) auto

lemma reverse_ordering_Greater: "reverse_ordering x = Greater \<longleftrightarrow> x = Less"
  by (cases x) auto

section \<open>Sorting and selecting\<close>

fun insert_by :: "('a \<Rightarrow> 'a \<Rightarrow> bool) \<Rightarrow> 'a \<Rightarrow> 'a list \<Rightarrow> 'a list" where
  "insert_by le x [] = [x]"
| "insert_by le x (y # ys) = (if le x y then x # y # ys else y # insert_by le x ys)"

definition sort_by :: "('a \<Rightarrow> 'a \<Rightarrow> bool) \<Rightarrow> 'a list \<Rightarrow> 'a list" where
  "sort_by le xs = foldr (insert_by le) xs []"

text \<open>Unstable sorting may first permute its input, \<open>f\<close>.\<close>

definition sort_unstable_by :: "('a list \<Rightarrow> 'a list) \<Rightarrow> ('a \<Rightarrow> 'a \<Rightarrow> bool) \<Rightarrow> 'a list \<Rightarrow> 'a list" where
  "sort_unstable_by f le xs = sort_by le (f xs)"

text \<open>Selection puts the element of rank \<open>k\<close> at index \<open>k\<close>, the smaller ones before it and the larger
  ones behind it, both in some order. It panics when \<open>k\<close> is no index.\<close>

definition select_nth_unstable_by ::
  "('a list \<Rightarrow> 'a list) \<Rightarrow> ('a list \<Rightarrow> 'a list) \<Rightarrow> nat \<Rightarrow> ('a \<Rightarrow> 'a \<Rightarrow> bool) \<Rightarrow> 'a list \<Rightarrow> 'a list option" where
  "select_nth_unstable_by f g k le xs =
    (if k < length xs then
       let s = sort_by le xs in Some (f (take k s) @ [s ! k] @ g (drop (Suc k) s))
     else None)"

lemma mset_insert_by [simp]: "mset (insert_by le x xs) = add_mset x (mset xs)"
  by (induction xs) auto

lemma mset_sort_by [simp]: "mset (sort_by le xs) = mset xs"
  by (induction xs) (simp_all add: sort_by_def)

lemma set_sort_by [simp]: "set (sort_by le xs) = set xs"
  using mset_sort_by by (rule mset_eq_setD)

lemma length_sort_by [simp]: "length (sort_by le xs) = length xs"
  using mset_sort_by by (rule mset_eq_length)

locale total_comparison =
  fixes le :: "'a \<Rightarrow> 'a \<Rightarrow> bool" and S :: "'a set"
  assumes total: "a \<in> S \<Longrightarrow> b \<in> S \<Longrightarrow> le a b \<or> le b a"
    and trans: "a \<in> S \<Longrightarrow> b \<in> S \<Longrightarrow> c \<in> S \<Longrightarrow> le a b \<Longrightarrow> le b c \<Longrightarrow> le a c"
begin

lemma sorted_insert_by:
  "x \<in> S \<Longrightarrow> set xs \<subseteq> S \<Longrightarrow> sorted_wrt le xs \<Longrightarrow> sorted_wrt le (insert_by le x xs)"
proof (induction xs)
  case (Cons y ys)
  have "set (insert_by le x ys) = insert x (set ys)"
    using mset_insert_by [of le x ys] by (metis set_mset_add_mset_insert set_mset_mset)
  with Cons show ?case by (auto intro: trans dest: total)
qed simp

lemma sorted_sort_by: "set xs \<subseteq> S \<Longrightarrow> sorted_wrt le (sort_by le xs)"
proof (induction xs)
  case (Cons x xs)
  have step: "sort_by le (x # xs) = insert_by le x (sort_by le xs)" by (simp add: sort_by_def)
  show ?case unfolding step by (rule sorted_insert_by) (use Cons in simp_all)
qed (simp add: sort_by_def)

text \<open>Unstable sorting sorts, ties in any order.\<close>

lemma sorted_sort_unstable_by:
  "shuffles f \<Longrightarrow> set xs \<subseteq> S \<Longrightarrow> sorted_wrt le (sort_unstable_by f le xs)"
  unfolding sort_unstable_by_def using shufflesD [of f xs] mset_eq_setD [of "f xs" xs]
  by (intro sorted_sort_by) simp

end

locale comparison = total_comparison +
  assumes antisym: "a \<in> S \<Longrightarrow> b \<in> S \<Longrightarrow> le a b \<Longrightarrow> le b a \<Longrightarrow> a = b"
begin

lemma sorted_unique:
  "sorted_wrt le xs \<Longrightarrow> sorted_wrt le ys \<Longrightarrow> mset xs = mset ys \<Longrightarrow> set xs \<subseteq> S \<Longrightarrow> xs = ys"
proof (induction xs arbitrary: ys)
  case (Cons x xs)
  then obtain y ys' where ys: "ys = y # ys'" by (cases ys) auto
  have sets: "set (x # xs) = set ys" using Cons.prems(3) by (rule mset_eq_setD)
  have "x = y"
  proof (rule ccontr)
    assume "x \<noteq> y"
    then have "y \<in> set xs" "x \<in> set ys'" using sets ys by auto
    then have "le x y" "le y x" using Cons.prems(1,2) ys by auto
    then show False using antisym \<open>x \<noteq> y\<close> Cons.prems(4) \<open>y \<in> set xs\<close> by auto
  qed
  with Cons ys show ?case by auto
qed auto

lemma sort_by_eqI: "set xs \<subseteq> S \<Longrightarrow> sorted_wrt le ys \<Longrightarrow> mset ys = mset xs \<Longrightarrow> sort_by le xs = ys"
  using sorted_unique [of "sort_by le xs" ys] sorted_sort_by [of xs] by simp

text \<open>Unstable sorting has one result, and sorting a selected prefix gives the sorted prefix.\<close>

lemma sort_unstable_by_eq:
  assumes "shuffles f" "set xs \<subseteq> S" shows "sort_unstable_by f le xs = sort_by le xs"
proof -
  have "mset (f xs) = mset xs" using assms(1) by (rule shufflesD)
  moreover from this have "set (f xs) \<subseteq> S" using assms(2) mset_eq_setD by metis
  ultimately show ?thesis
    unfolding sort_unstable_by_def
    by (intro sort_by_eqI) (simp_all add: sorted_sort_by assms(2))
qed

lemma select_truncate_sort:
  assumes "shuffles f" "shuffles g" "shuffles h" "set xs \<subseteq> S" "0 < k" "k \<le> length xs"
  shows "map_option (\<lambda>ys. sort_unstable_by h le (take k ys)) (select_nth_unstable_by f g (k - 1) le xs)
    = Some (take k (sort_by le xs))"
proof -
  let ?s = "sort_by le xs"
  have len: "length (f (take (k - 1) ?s)) = k - 1"
    using mset_eq_length [OF shufflesD [OF assms(1)]] assms(6) by simp
  have lt: "k - 1 < length ?s" using assms(5,6) by simp
  let ?p = "f (take (k - 1) ?s) @ [?s ! (k - 1)]"
  have "take k (f (take (k - 1) ?s) @ [?s ! (k - 1)] @ g (drop (Suc (k - 1)) ?s)) = ?p"
    using len assms(5) by (simp add: take_Cons')
  moreover have p: "mset ?p = mset (take k ?s)"
  proof -
    have "take k ?s = take (k - 1) ?s @ [?s ! (k - 1)]"
      using take_Suc_conv_app_nth [OF lt] assms(5) by simp
    then show ?thesis using shufflesD [OF assms(1), of "take (k - 1) ?s"] by simp
  qed
  moreover have sub: "set (take k ?s) \<subseteq> S" using assms(4) set_take_subset [of k ?s] by auto
  moreover have "set ?p \<subseteq> S" using mset_eq_setD [OF p] sub by simp
  moreover have "sort_by le ?p = take k ?s"
    by (rule sort_by_eqI) (use p assms(4) \<open>set ?p \<subseteq> S\<close> in \<open>simp_all add: sorted_sort_by sorted_wrt_take\<close>)
  ultimately show ?thesis
    using lt by (simp add: select_nth_unstable_by_def Let_def sort_unstable_by_eq [OF assms(3)])
qed

text \<open>Selecting the rank behind the prefix does as well.\<close>

lemma select_prefix_sort:
  assumes "shuffles f" "shuffles g" "shuffles h" "set xs \<subseteq> S" "k < length xs"
  shows "map_option (\<lambda>ys. sort_unstable_by h le (take k ys)) (select_nth_unstable_by f g k le xs)
    = Some (take k (sort_by le xs))"
proof -
  let ?s = "sort_by le xs"
  have p: "mset (f (take k ?s)) = mset (take k ?s)" using assms(1) by (rule shufflesD)
  then have len: "length (f (take k ?s)) = k" using mset_eq_length [OF p] assms(5) by simp
  have sub: "set (take k ?s) \<subseteq> S" using assms(4) set_take_subset [of k ?s] by auto
  then have fsub: "set (f (take k ?s)) \<subseteq> S" using mset_eq_setD [OF p] by simp
  have "sort_by le (f (take k ?s)) = take k ?s"
    by (rule sort_by_eqI) (use p assms(4) fsub in \<open>simp_all add: sorted_sort_by sorted_wrt_take\<close>)
  then show ?thesis
    using assms(5) len by (simp add: select_nth_unstable_by_def Let_def sort_unstable_by_eq [OF assms(3) fsub])
qed

end

section \<open>Sorting indices by key and position is stable sorting\<close>

lemma insort_key_map: "insort_key f (g x) (map g xs) = map g (insort_key (\<lambda>x. f (g x)) x xs)"
  by (induction xs) auto

lemma sort_key_map: "sort_key f (map g xs) = map g (sort_key (\<lambda>x. f (g x)) xs)"
  by (induction xs) (simp_all add: insort_key_map)

lemma sorted_wrt_insort_key:
  assumes "sorted_wrt (\<lambda>a b. f a < f b \<or> f a = f b \<and> (a :: nat) \<le> b) xs" "\<forall>y\<in>set xs. x < y"
  shows "sorted_wrt (\<lambda>a b. f a < (f b :: 'k :: linorder) \<or> f a = f b \<and> a \<le> b) (insort_key f x xs)"
  using assms by (induction xs) (auto simp: set_insort_key intro: less_imp_le)

lemma sort_key_indices:
  "sorted_wrt (<) xs \<Longrightarrow> sorted_wrt (\<lambda>a b. f a < (f b :: 'k :: linorder) \<or> f a = f b \<and> (a :: nat) \<le> b) (sort_key f xs)"
  by (induction xs) (simp_all add: sorted_wrt_insort_key)

end
