(* ===== verification/Record_Sort.thy ===== *)
theory Record_Sort
  imports Comparison_Sorts
begin

text \<open>
  \<open>sort_records_by_id\<close> of \<open>WinBlaze.Index/src/tree.rs\<close>: an in-place sort that first tries to place every
  record at its id offset and otherwise sorts compact keys and applies the permutation by its cycles.
  Indexing out of range panics in Rust; the loops return \<open>None\<close> there.
\<close>

definition swap :: "nat \<Rightarrow> nat \<Rightarrow> 'a list \<Rightarrow> 'a list" where
  "swap i j xs = xs[i := xs ! j, j := xs ! i]"

lemma length_swap [simp]: "length (swap i j xs) = length xs"
  by (simp add: swap_def)

lemma mset_swap [simp]: "i < length xs \<Longrightarrow> j < length xs \<Longrightarrow> mset (swap i j xs) = mset xs"
  unfolding swap_def by (rule mset_swap)

lemma nth_swap:
  "i < length xs \<Longrightarrow> j < length xs \<Longrightarrow> swap i j xs ! p = (if p = j then xs ! i else if p = i then xs ! j else xs ! p)"
  by (auto simp: swap_def nth_list_update)

section \<open>Placing a dense range of ids\<close>

text \<open>The inner \<open>loop\<close>: \<open>Some (rs, False)\<close> is the exit on a duplicate id.\<close>

definition id_offset :: "('r \<Rightarrow> u64) \<Rightarrow> u64 \<Rightarrow> 'r list \<Rightarrow> nat \<Rightarrow> nat" where
  "id_offset key minimum rs p = unat (key (rs ! p) - minimum)"

function place_record :: "('r \<Rightarrow> u64) \<Rightarrow> u64 \<Rightarrow> nat \<Rightarrow> 'r list \<Rightarrow> ('r list \<times> bool) option" where
  "place_record key minimum position rs =
    (let destination = id_offset key minimum rs position in
     if destination = position then Some (rs, True)
     else if \<not> (position < length rs \<and> destination < length rs) then None
     else if key (rs ! destination) = key (rs ! position) then Some (rs, False)
     else place_record key minimum position (swap position destination rs))"
  by pat_completeness auto
termination
proof (relation "measure (\<lambda>(key, minimum, position, rs). card {p. p < length rs \<and> id_offset key minimum rs p \<noteq> p})")
  fix key :: "'r \<Rightarrow> u64" and minimum position rs destination
  assume d: "destination = id_offset key minimum rs position" "destination \<noteq> position"
    "\<not> \<not> (position < length rs \<and> destination < length rs)" "key (rs ! destination) \<noteq> key (rs ! position)"
  let ?rs = "swap position destination rs"
  have off: "id_offset key minimum ?rs p = (if p = destination then destination
      else if p = position then id_offset key minimum rs destination else id_offset key minimum rs p)" for p
    using d by (simp add: id_offset_def nth_swap)
  have "id_offset key minimum rs destination \<noteq> destination"
  proof
    assume "id_offset key minimum rs destination = destination"
    then have "unat (key (rs ! destination) - minimum) = unat (key (rs ! position) - minimum)"
      using d(1) by (simp add: id_offset_def)
    then have "key (rs ! destination) = key (rs ! position)"
      by (metis diff_add_cancel unsigned_word_eqI)
    then show False using d(4) by simp
  qed
  then have "destination \<in> {p. p < length rs \<and> id_offset key minimum rs p \<noteq> p}" using d by simp
  moreover have "{p. p < length ?rs \<and> id_offset key minimum ?rs p \<noteq> p}
      \<subseteq> {p. p < length rs \<and> id_offset key minimum rs p \<noteq> p} - {destination}"
  proof
    fix p assume "p \<in> {p. p < length ?rs \<and> id_offset key minimum ?rs p \<noteq> p}"
    then have p: "p < length rs" "id_offset key minimum ?rs p \<noteq> p" by simp_all
    then have "p \<noteq> destination" using off [of p] by metis
    moreover have "id_offset key minimum rs p \<noteq> p"
      using p(2) off [of p] d(1,2) \<open>p \<noteq> destination\<close> by (cases "p = position") simp_all
    ultimately show "p \<in> {p. p < length rs \<and> id_offset key minimum rs p \<noteq> p} - {destination}"
      using p(1) by simp
  qed
  ultimately show "((key, minimum, position, ?rs), key, minimum, position, rs)
    \<in> measure (\<lambda>(key, minimum, position, rs). card {p. p < length rs \<and> id_offset key minimum rs p \<noteq> p})"
    by (auto intro!: psubset_card_mono)
qed simp

declare place_record.simps [simp del]

fun place_records :: "('r \<Rightarrow> u64) \<Rightarrow> u64 \<Rightarrow> nat list \<Rightarrow> 'r list \<Rightarrow> ('r list \<times> bool) option" where
  "place_records key minimum [] rs = Some (rs, True)"
| "place_records key minimum (p # ps) rs =
    Option.bind (place_record key minimum p rs) (\<lambda>(rs, placed).
      if placed then place_records key minimum ps rs else Some (rs, False))"

section \<open>Applying a sorted permutation by its cycles\<close>

partial_function (option) settle :: "nat \<Rightarrow> 'r list \<Rightarrow> nat list \<Rightarrow> ('r list \<times> nat list) option" where
  "settle position rs keyed =
    (if \<not> position < length keyed then None
     else if keyed ! position = position then Some (rs, keyed)
     else
       let destination = keyed ! position in
       if position < length rs \<and> destination < length rs \<and> destination < length keyed
       then settle position (swap position destination rs) (swap position destination keyed)
       else None)"

fun settle_all :: "nat list \<Rightarrow> 'r list \<Rightarrow> nat list \<Rightarrow> 'r list option" where
  "settle_all [] rs keyed = Some rs"
| "settle_all (p # ps) rs keyed = Option.bind (settle p rs keyed) (\<lambda>(rs, keyed). settle_all ps rs keyed)"

text \<open>\<open>keyed[original].0 = destination\<close> for the sorted \<open>(id, original)\<close> pairs.\<close>

definition invert_keyed :: "(u64 \<times> nat) list \<Rightarrow> nat list" where
  "invert_keyed pairs = fold (\<lambda>destination inv. inv[snd (pairs ! destination) := destination])
     [0..<length pairs] (map (\<lambda>(k, _). unat k) pairs)"

definition sort_records_by_id ::
  "((u64 \<times> nat) list \<Rightarrow> (u64 \<times> nat) list) \<Rightarrow> ('r \<Rightarrow> u64) \<Rightarrow> 'r list \<Rightarrow> 'r list option" where
  "sort_records_by_id f key records =
    (if sorted (map key records) then Some records
     else
       let minimum = foldl (\<lambda>m r. min m (key r)) (- 1) records;
           maximum = foldl (\<lambda>m r. max m (key r)) 0 records;
           general = (\<lambda>records.
             let keyed = map (\<lambda>i. (key (records ! i), i)) [0..<length records];
                 keyed = sort_unstable_by_key f fst keyed
             in settle_all [0..<length records] records (invert_keyed keyed))
       in case Option.bind (checked_sub maximum minimum) (\<lambda>range. checked_add range 1) of
            Some span \<Rightarrow>
              if unat span = length records then
                Option.bind (place_records key minimum [0..<length records] records)
                  (\<lambda>(records, unique). if unique then Some records else general records)
              else general records
          | None \<Rightarrow> general records)"


section \<open>The dense placement\<close>

lemma place_record_spec:
  assumes "\<forall>r\<in>set rs. unat (key r - minimum) < length rs" "position < length rs"
  shows "\<exists>rs' b. place_record key minimum position rs = Some (rs', b) \<and> mset rs' = mset rs
    \<and> (\<forall>p<length rs. id_offset key minimum rs p = p \<longrightarrow> id_offset key minimum rs' p = p)
    \<and> (b \<longrightarrow> id_offset key minimum rs' position = position)"
  using assms
proof (induction key minimum position rs rule: place_record.induct)
  case (1 key minimum position rs)
  let ?d = "id_offset key minimum rs position" and ?rs = "swap position (id_offset key minimum rs position) rs"
  have d: "?d < length rs" using 1(2,3) by (simp add: id_offset_def)
  show ?case
  proof (cases "?d = position \<or> key (rs ! ?d) = key (rs ! position)")
    case True
    then show ?thesis using d 1(3) by (auto simp: place_record.simps [of key minimum position rs] Let_def)
  next
    case False
    have m: "mset ?rs = mset rs" using d 1(3) by simp
    then have sm: "set ?rs = set rs" by (rule mset_eq_setD)
    have "\<exists>rs' b. place_record key minimum position ?rs = Some (rs', b) \<and> mset rs' = mset ?rs
      \<and> (\<forall>p<length ?rs. id_offset key minimum ?rs p = p \<longrightarrow> id_offset key minimum rs' p = p)
      \<and> (b \<longrightarrow> id_offset key minimum rs' position = position)"
      by (rule 1(1)) (use False d 1(2,3) in \<open>simp_all add: sm\<close>)
    moreover have "id_offset key minimum ?rs p = p" if "p < length rs" "id_offset key minimum rs p = p" for p
    proof -
      have "p \<noteq> position" using that False by auto
      moreover have "id_offset key minimum ?rs ?d = ?d" using d 1(3) by (simp add: id_offset_def nth_swap)
      ultimately show ?thesis using that d 1(3) by (cases "p = ?d") (simp_all add: id_offset_def nth_swap)
    qed
    ultimately show ?thesis
      using False d 1(3) m by (simp add: place_record.simps [of key minimum position rs] Let_def) blast
  qed
qed

lemma place_records_spec:
  assumes "\<forall>r\<in>set rs. unat (key r - minimum) < length rs" "set ps \<subseteq> {..<length rs}"
  shows "\<exists>rs' b. place_records key minimum ps rs = Some (rs', b) \<and> mset rs' = mset rs
    \<and> (b \<longrightarrow> (\<forall>p<length rs. p \<in> set ps \<or> id_offset key minimum rs p = p \<longrightarrow> id_offset key minimum rs' p = p))"
  using assms
proof (induction ps arbitrary: rs)
  case (Cons q ps)
  obtain rs1 b1 where 1: "place_record key minimum q rs = Some (rs1, b1)" "mset rs1 = mset rs"
    "\<forall>p<length rs. id_offset key minimum rs p = p \<longrightarrow> id_offset key minimum rs1 p = p"
    "b1 \<longrightarrow> id_offset key minimum rs1 q = q"
    using place_record_spec [OF Cons.prems(1), of q] Cons.prems(2) by auto
  have eq: "set rs1 = set rs" "length rs1 = length rs" using 1(2) mset_eq_setD mset_eq_length by blast+
  show ?case
  proof (cases b1)
    case True
    have "\<exists>rs' b. place_records key minimum ps rs1 = Some (rs', b) \<and> mset rs' = mset rs1
      \<and> (b \<longrightarrow> (\<forall>p<length rs1. p \<in> set ps \<or> id_offset key minimum rs1 p = p \<longrightarrow> id_offset key minimum rs' p = p))"
      by (rule Cons.IH) (use Cons.prems eq in auto)
    then show ?thesis using 1 True eq by fastforce
  qed (use 1 in auto)
qed auto

lemma foldl_min: "foldl (\<lambda>m r. min m (key r)) a rs = Min (insert a (key ` set rs))"
  for key :: "'r \<Rightarrow> 'k::linorder"
proof (induction rs arbitrary: a)
  case (Cons r rs)
  have "Min (insert (min a (key r)) (key ` set rs)) = Min (insert a (insert (key r) (key ` set rs)))"
    by (cases "set rs = {}") (auto simp: min.assoc)
  with Cons show ?case by (simp add: min.commute)
qed simp

lemma foldl_max: "foldl (\<lambda>m r. max m (key r)) a rs = Max (insert a (key ` set rs))"
  for key :: "'r \<Rightarrow> 'k::linorder"
proof (induction rs arbitrary: a)
  case (Cons r rs)
  have "Max (insert (max a (key r)) (key ` set rs)) = Max (insert a (insert (key r) (key ` set rs)))"
    by (cases "set rs = {}") (auto simp: max.assoc)
  with Cons show ?case by (simp add: max.commute)
qed simp

lemma placed_sorted:
  assumes "\<forall>p<length rs. id_offset key minimum rs p = p" "\<forall>r\<in>set rs. minimum \<le> key r"
  shows "sorted (map key rs)"
proof -
  have key: "unat (key (rs ! p)) = unat minimum + p" if "p < length rs" for p
  proof -
    have "minimum \<le> key (rs ! p)" using assms(2) that by simp
    then have "unat (key (rs ! p) - minimum) = unat (key (rs ! p)) - unat minimum" by (rule unat_sub)
    then show ?thesis using assms(1) that \<open>minimum \<le> key (rs ! p)\<close>
      by (auto simp: id_offset_def word_le_nat_alt)
  qed
  then show ?thesis by (auto simp: sorted_iff_nth_mono word_le_nat_alt)
qed


section \<open>The cycles\<close>

lemma permutation_nth:
  assumes "mset keyed = mset [0..<n]" shows "length keyed = n" "distinct keyed" "p < n \<Longrightarrow> keyed ! p < n"
proof -
  show l: "length keyed = n" using mset_eq_length [OF assms] by simp
  show "distinct keyed" using mset_eq_imp_distinct_iff [OF assms] by simp
  have "set keyed = {..<n}" using mset_eq_setD [OF assms] by (simp add: atLeast0LessThan)
  show "keyed ! p < n" if "p < n"
  proof -
    have "keyed ! p \<in> set keyed" using that l by (intro nth_mem) simp
    then show ?thesis unfolding \<open>set keyed = {..<n}\<close> by simp
  qed
qed

lemma settle_spec:
  assumes "mset keyed = mset [0..<n]" "length rs = n" "\<forall>p<n. T ! (keyed ! p) = rs ! p" "position < n"
  shows "\<exists>rs' keyed'. settle position rs keyed = Some (rs', keyed') \<and> mset keyed' = mset [0..<n] \<and> length rs' = n
    \<and> (\<forall>p<n. T ! (keyed' ! p) = rs' ! p) \<and> keyed' ! position = position
    \<and> (\<forall>p<n. keyed ! p = p \<longrightarrow> keyed' ! p = p)"
  using assms(1-3)
proof (induction "card {p. p < n \<and> keyed ! p \<noteq> p}" arbitrary: rs keyed rule: less_induct)
  case less
  note perm = permutation_nth [OF less.prems(1)]
  let ?d = "keyed ! position"
  have d: "?d < n" using perm(3) assms(4) by simp
  show ?case
  proof (cases "?d = position")
    case True
    then show ?thesis using less.prems assms(4) perm by (simp add: settle.simps [of position rs keyed])
  next
    case False
    let ?rs = "swap position ?d rs" and ?k = "swap position ?d keyed"
    have k: "?k ! p = (if p = ?d then ?d else if p = position then keyed ! ?d else keyed ! p)" if "p < n" for p
      using that perm d assms(4) by (simp add: nth_swap)
    have ne: "keyed ! ?d \<noteq> ?d"
      using False d assms(4) perm by (metis nth_eq_iff_index_eq)
    have inv: "\<forall>p<n. T ! (?k ! p) = ?rs ! p"
      using less.prems d assms(4) by (simp add: k nth_swap)
    have m: "mset ?k = mset [0..<n]" using less.prems(1) perm d assms(4) by simp
    have "{p. p < n \<and> ?k ! p \<noteq> p} \<subseteq> {p. p < n \<and> keyed ! p \<noteq> p} - {?d}"
      using False k by (auto split: if_splits)
    moreover have "?d \<in> {p. p < n \<and> keyed ! p \<noteq> p}" using ne d by simp
    ultimately have "card {p. p < n \<and> ?k ! p \<noteq> p} < card {p. p < n \<and> keyed ! p \<noteq> p}"
      by (intro psubset_card_mono) auto
    from less.hyps [OF this m _ inv] less.prems(2) obtain rs' k' where r: "settle position ?rs ?k = Some (rs', k')"
      "mset k' = mset [0..<n]" "length rs' = n" "\<forall>p<n. T ! (k' ! p) = rs' ! p" "k' ! position = position"
      "\<forall>p<n. ?k ! p = p \<longrightarrow> k' ! p = p" by auto
    moreover have "settle position rs keyed = settle position ?rs ?k"
      using False d perm less.prems(2) assms(4) by (simp add: settle.simps [of position rs keyed] Let_def)
    moreover have "k' ! p = p" if "p < n" "keyed ! p = p" for p
    proof -
      have "p \<noteq> position" using that(2) False by metis
      then have "?k ! p = p" using k [OF that(1)] that(2) by simp
      then show ?thesis using r(6) that(1) by blast
    qed
    ultimately show ?thesis by auto
  qed
qed

lemma settle_all_spec:
  assumes "mset keyed = mset [0..<n]" "length rs = n" "\<forall>p<n. T ! (keyed ! p) = rs ! p" "set ps \<subseteq> {..<n}"
    and "length T = n" "\<forall>p<n. p \<in> set ps \<or> keyed ! p = p"
  shows "settle_all ps rs keyed = Some T"
  using assms
proof (induction ps arbitrary: rs keyed)
  case Nil
  then have "rs = T" by (intro nth_equalityI) auto
  then show ?case by simp
next
  case (Cons q ps)
  obtain rs' k' where r: "settle q rs keyed = Some (rs', k')" "mset k' = mset [0..<n]" "length rs' = n"
    "\<forall>p<n. T ! (k' ! p) = rs' ! p" "k' ! q = q" "\<forall>p<n. keyed ! p = p \<longrightarrow> k' ! p = p"
    using settle_spec [OF Cons.prems(1-3), of q] Cons.prems(4) by auto
  have "settle_all ps rs' k' = Some T"
    by (rule Cons.IH) (use Cons.prems r in auto)
  with r(1) show ?case by simp
qed

lemma invert_keyed_nth:
  assumes "distinct (map snd pairs)" "snd ` set pairs \<subseteq> {..<length pairs}" "d < length pairs"
  shows "length (invert_keyed pairs) = length pairs \<and> invert_keyed pairs ! (snd (pairs ! d)) = d"
proof -
  let ?step = "\<lambda>d inv. inv[snd (pairs ! d) := d]" and ?start = "map (\<lambda>(k, _). unat k) pairs"
  have "length (fold ?step [0..<m] ?start) = length pairs
      \<and> (\<forall>d<m. fold ?step [0..<m] ?start ! (snd (pairs ! d)) = d)" if "m \<le> length pairs" for m
    using that
  proof (induction m)
    case (Suc m)
    have ne: "snd (pairs ! d) \<noteq> snd (pairs ! m)" if "d < m" for d
      using that Suc.prems assms(1) by (auto simp: distinct_conv_nth)
    have lt: "snd (pairs ! m) < length pairs" using assms(2) Suc.prems by (auto simp: image_subset_iff)
    have "snd (pairs ! m) \<noteq> snd (pairs ! d)" if "d < m" for d using ne [OF that] by simp
    then show ?case using Suc lt by (auto simp: less_Suc_eq)
  qed simp
  from this [of "length pairs"] assms(3) show ?thesis by (simp add: invert_keyed_def)
qed

lemma general_sort:
  assumes "shuffles f"
  shows "\<exists>T. settle_all [0..<length records] records (invert_keyed (sort_unstable_by_key f fst
        (map (\<lambda>i. (key (records ! i), i)) [0..<length records]))) = Some T
    \<and> mset T = mset records \<and> sorted (map key T)"
proof -
  let ?n = "length records" and ?keyed = "map (\<lambda>i. (key (records ! i), i)) [0..<length records]"
  define pairs where "pairs = sort_unstable_by_key f fst ?keyed"
  have m: "mset pairs = mset ?keyed" unfolding pairs_def by (rule mset_sort_unstable [OF assms])
  then have len: "length pairs = ?n" using mset_eq_length by fastforce
  have "mset (map snd pairs) = mset (map snd ?keyed)" by (simp only: mset_map m)
  moreover have "map snd ?keyed = [0..<?n]" by (simp add: comp_def)
  ultimately have snds: "mset (map snd pairs) = mset [0..<?n]" by (simp only:)
  have sd: "distinct (map snd pairs)" "snd ` set pairs = {..<?n}"
    using permutation_nth(2) [OF snds] mset_eq_setD [OF snds] by auto
  define T where "T = map (\<lambda>pr. records ! snd pr) pairs"
  have inv: "length (invert_keyed pairs) = ?n \<and> invert_keyed pairs ! (snd (pairs ! d)) = d" if "d < ?n" for d
    using invert_keyed_nth [OF sd(1)] that len sd(2) by auto
  have surj: "\<exists>d<?n. snd (pairs ! d) = p" if "p < ?n" for p
  proof -
    have "p \<in> snd ` set pairs" using that sd(2) by simp
    then show ?thesis using len by (force simp: in_set_conv_nth)
  qed
  have "mset (invert_keyed pairs) = mset [0..<?n]"
  proof (cases "?n = 0")
    case True
    then show ?thesis using len by (simp add: invert_keyed_def)
  next
    case False
    then have l: "length (invert_keyed pairs) = ?n" using inv by blast
    have "set [0..<?n] \<subseteq> set (invert_keyed pairs)"
    proof
      fix d assume d: "d \<in> set [0..<?n]"
      then have "pairs ! d \<in> set pairs" using len by simp
      then have "snd (pairs ! d) \<in> snd ` set pairs" by (rule imageI)
      then have "snd (pairs ! d) < length (invert_keyed pairs)" using sd(2) l by simp
      then have "invert_keyed pairs ! snd (pairs ! d) \<in> set (invert_keyed pairs)" by (rule nth_mem)
      then show "d \<in> set (invert_keyed pairs)" using inv [of d] d by simp
    qed
    moreover have "card (set (invert_keyed pairs)) \<le> ?n" using card_length [of "invert_keyed pairs"] l by simp
    ultimately have eq: "set [0..<?n] = set (invert_keyed pairs)" by (intro card_seteq) simp_all
    then have "card (set (invert_keyed pairs)) = length (invert_keyed pairs)" using l by (simp flip: eq)
    then have "distinct (invert_keyed pairs)" by (rule card_distinct)
    with eq show ?thesis by (metis distinct_upt set_eq_iff_mset_eq_distinct)
  qed
  then have "settle_all [0..<?n] records (invert_keyed pairs) = Some T"
  proof (rule settle_all_spec)
    show "\<forall>p<?n. T ! (invert_keyed pairs ! p) = records ! p"
    proof (intro allI impI)
      fix p assume "p < ?n"
      then obtain d where d: "d < ?n" "snd (pairs ! d) = p" using surj by blast
      then have "invert_keyed pairs ! p = d" using inv [OF d(1)] by blast
      then show "T ! (invert_keyed pairs ! p) = records ! p" using d len by (simp add: T_def)
    qed
  qed (simp_all add: T_def len atLeast0LessThan)
  moreover have "mset T = mset records"
  proof -
    have "mset T = mset (map (\<lambda>i. records ! i) (map snd pairs))" by (simp add: T_def comp_def)
    also have "\<dots> = mset (map (\<lambda>i. records ! i) [0..<?n])"
      using snds by (simp only: mset_map [of "\<lambda>i. records ! i"])
    also have "\<dots> = mset records" by (simp only: map_nth)
    finally show ?thesis .
  qed
  moreover have "map key T = map fst pairs"
  proof (simp add: T_def, intro ballI)
    fix pr assume "pr \<in> set pairs"
    then have "pr \<in> set ?keyed" using m mset_eq_setD by blast
    then show "key (records ! snd pr) = fst pr" by auto
  qed
  moreover have "sorted (map fst pairs)" by (simp add: pairs_def)
  ultimately show ?thesis unfolding pairs_def [symmetric] by auto
qed


section \<open>The whole sort\<close>

lemma dense_span:
  assumes "records \<noteq> []"
    and "Option.bind (checked_sub (foldl (\<lambda>m r. max m (key r)) 0 records) (foldl (\<lambda>m r. min m (key r)) (- 1) records))
          (\<lambda>range. checked_add range 1) = Some span" "unat span = length records"
    and "r \<in> set records"
  shows "foldl (\<lambda>m r. min m (key r)) (- 1) records \<le> key r"
    "unat (key r - foldl (\<lambda>m r. min m (key r)) (- 1) records) < length records"
proof -
  let ?lo = "foldl (\<lambda>m r. min m (key r)) (- 1) records" and ?hi = "foldl (\<lambda>m r. max m (key r)) 0 records"
  show lo: "?lo \<le> key r" unfolding foldl_min using assms(4) by (intro Min_le) auto
  have hi: "key r \<le> ?hi" unfolding foldl_max using assms(4) by (intro Max_ge) auto
  from assms(2) obtain range where r: "checked_sub ?hi ?lo = Some range" "checked_add range 1 = Some span"
    by (auto simp: bind_eq_Some_conv)
  then have "?lo \<le> ?hi" "range = ?hi - ?lo" by (auto simp: checked_sub_def not_less split: if_splits)
  then have "unat range = unat ?hi - unat ?lo" by (simp add: unat_sub)
  moreover have "unat span = unat range + 1"
    using r(2) by (auto simp: checked_add_def unat_word_ariths split: if_splits)
  moreover have "unat (key r - ?lo) = unat (key r) - unat ?lo" using lo by (rule unat_sub)
  ultimately show "unat (key r - ?lo) < length records"
    using assms(3) hi by (simp add: word_le_nat_alt)
qed

lemma sort_records_by_id_sorts:
  assumes "shuffles f"
  shows "\<exists>rs. sort_records_by_id f key records = Some rs \<and> mset rs = mset records \<and> sorted (map key rs)"
proof -
  let ?lo = "foldl (\<lambda>m r. min m (key r)) (- 1) records" and ?hi = "foldl (\<lambda>m r. max m (key r)) 0 records"
  let ?span = "Option.bind (checked_sub ?hi ?lo) (\<lambda>range. checked_add range 1)"
  define general where "general = (\<lambda>records. settle_all [0..<length records] records
      (invert_keyed (sort_unstable_by_key f fst (map (\<lambda>i. (key (records ! i), i)) [0..<length records]))))"
  have gen: "\<exists>rs. general xs = Some rs \<and> mset rs = mset xs \<and> sorted (map key rs)" for xs
    using general_sort [OF assms, of xs key] by (simp add: general_def)
  have unfold: "sort_records_by_id f key records = (if sorted (map key records) then Some records
     else case ?span of
        Some span \<Rightarrow> if unat span = length records then
            Option.bind (place_records key ?lo [0..<length records] records)
              (\<lambda>(records, unique). if unique then Some records else general records)
          else general records
      | None \<Rightarrow> general records)"
    unfolding sort_records_by_id_def general_def Let_def ..
  show ?thesis
  proof (cases "sorted (map key records)")
    case True
    then show ?thesis by (simp add: unfold)
  next
    case False
    show ?thesis
    proof (cases "\<exists>span. ?span = Some span \<and> unat span = length records")
      case True
      then obtain span where span: "?span = Some span" "unat span = length records" by blast
      have ne: "records \<noteq> []" using False by auto
      have lo: "\<forall>r\<in>set records. ?lo \<le> key r" using dense_span(1) [OF ne span] by blast
      have off: "\<forall>r\<in>set records. unat (key r - ?lo) < length records" using dense_span(2) [OF ne span] by blast
      obtain rs b where p: "place_records key ?lo [0..<length records] records = Some (rs, b)" "mset rs = mset records"
        "b \<longrightarrow> (\<forall>p<length records. id_offset key ?lo rs p = p)"
        using place_records_spec [OF off, of "[0..<length records]"] by (auto simp: atLeast0LessThan)
      show ?thesis
      proof (cases b)
        case True
        have "length rs = length records" "set rs = set records"
          using p(2) mset_eq_length mset_eq_setD by blast+
        then have "sorted (map key rs)"
          using p(3) True lo by (intro placed_sorted [where minimum = ?lo]) auto
        with p True False span show ?thesis by (simp add: unfold)
      next
        case dup: False
        obtain rs' where "general rs = Some rs'" "mset rs' = mset rs" "sorted (map key rs')" using gen by blast
        with p dup False span show ?thesis by (simp add: unfold)
      qed
    next
      case False
      then have "sort_records_by_id f key records = general records"
        using \<open>\<not> sorted (map key records)\<close> by (auto simp: unfold split: option.splits)
      with gen show ?thesis by simp
    qed
  qed
qed

text \<open>
  C9. sort_records_by_id ends without an out-of-range access on every input, duplicate ids included, and
  returns a permutation of the records sorted by id, whichever of its three paths (already sorted, placement
  of dense ids, cycles of the sorted keys) it takes.
\<close>

theorem sort_records_by_id_correct:
  assumes "shuffles f"
  shows "\<exists>rs. sort_records_by_id f key records = Some rs \<and> mset rs = mset records \<and> sorted (map key rs)"
  using assms by (rule sort_records_by_id_sorts)


lemma sort_records_by_id_correct_witness:
  "\<exists>rs. sort_records_by_id rev (\<lambda>x. x) [9, 3, 9, 4 :: u64] = Some rs \<and> mset rs = mset [9, 3, 9, 4] \<and> sorted rs"
  using sort_records_by_id_correct [OF shuffles_id(2), of "\<lambda>x. x" "[9, 3, 9, 4 :: u64]"] by simp

end
