(* ===== verification/Core_Model.thy ===== *)
theory Core_Model
  imports Wb_Text
begin

text \<open>
  The domain records of \<open>WinBlaze.Core/src/model.rs\<close> and \<open>scan.rs\<close> and the pure functions on them:
  attributes, timestamps, path joining, lineage detection and the change sets of two scans. The
  ids \<open>FileId\<close>, \<open>DirectoryId\<close> and \<open>VolumeId\<close> are newtypes of \<open>u64\<close> and are written as \<open>u64\<close>.
\<close>

section \<open>Attributes\<close>

definition READ_ONLY :: u32 where "READ_ONLY = 0x00000001"
definition HIDDEN :: u32 where "HIDDEN = 0x00000002"
definition SYSTEM :: u32 where "SYSTEM = 0x00000004"
definition DIRECTORY :: u32 where "DIRECTORY = 0x00000010"
definition ARCHIVE :: u32 where "ARCHIVE = 0x00000020"
definition REPARSE_POINT :: u32 where "REPARSE_POINT = 0x00000400"

definition contains_attr :: "u32 \<Rightarrow> u32 \<Rightarrow> bool" where
  "contains_attr self other \<longleftrightarrow> (self AND other) = other"

definition is_directory :: "u32 \<Rightarrow> bool" where
  "is_directory self \<longleftrightarrow> contains_attr self DIRECTORY"

definition is_reparse_point :: "u32 \<Rightarrow> bool" where
  "is_reparse_point self \<longleftrightarrow> contains_attr self REPARSE_POINT"

definition bitor_attr :: "u32 \<Rightarrow> u32 \<Rightarrow> u32" where "bitor_attr a b = a OR b"
definition bitand_attr :: "u32 \<Rightarrow> u32 \<Rightarrow> u32" where "bitand_attr a b = a AND b"

lemma contains_attr_bits:
  "contains_attr a b \<longleftrightarrow> (\<forall>n < LENGTH(32). bit b n \<longrightarrow> bit a n)"
  by (auto simp: contains_attr_def bit_eq_iff bit_and_iff dest: bit_imp_le_length)

lemma contains_attr_bitor:
  "contains_attr (bitor_attr a b) c \<longleftrightarrow> (\<forall>n < LENGTH(32). bit c n \<longrightarrow> bit a n \<or> bit b n)"
  by (simp add: contains_attr_bits bitor_attr_def bit_or_iff)

section \<open>Timestamps\<close>

text \<open>\<open>FileTimestamps\<close>: three values and one presence byte.\<close>

record file_timestamps =
  ts_values :: "i64 list"
  ts_present :: byte

definition timestamps_new :: "i64 option \<Rightarrow> i64 option \<Rightarrow> i64 option \<Rightarrow> file_timestamps" where
  "timestamps_new created modified accessed =
    (let r = \<lparr>ts_values = [0, 0, 0], ts_present = 0\<rparr>;
         r = (case created of Some v \<Rightarrow> r\<lparr>ts_values := (ts_values r)[0 := v], ts_present := ts_present r OR 1\<rparr>
              | None \<Rightarrow> r);
         r = (case modified of Some v \<Rightarrow> r\<lparr>ts_values := (ts_values r)[1 := v], ts_present := ts_present r OR 2\<rparr>
              | None \<Rightarrow> r);
         r = (case accessed of Some v \<Rightarrow> r\<lparr>ts_values := (ts_values r)[2 := v], ts_present := ts_present r OR 4\<rparr>
              | None \<Rightarrow> r)
     in r)"

definition ts_value :: "file_timestamps \<Rightarrow> nat \<Rightarrow> i64 option" where
  "ts_value t index = (if ts_present t AND push_bit index 1 = 0 then None else Some (ts_values t ! index))"

definition ts_created :: "file_timestamps \<Rightarrow> i64 option" where "ts_created t = ts_value t 0"
definition ts_modified :: "file_timestamps \<Rightarrow> i64 option" where "ts_modified t = ts_value t 1"
definition ts_accessed :: "file_timestamps \<Rightarrow> i64 option" where "ts_accessed t = ts_value t 2"

lemmas ts_defs = timestamps_new_def ts_value_def ts_created_def ts_modified_def ts_accessed_def

lemma timestamps_roundtrip [wb_codec]:
  "ts_created (timestamps_new c m a) = c"
  "ts_modified (timestamps_new c m a) = m"
  "ts_accessed (timestamps_new c m a) = a"
  by (cases c; cases m; cases a; simp add: ts_defs)+

text \<open>Every value the constructor can produce, so that records have canonical timestamps.\<close>

definition ts_canonical :: "file_timestamps \<Rightarrow> bool" where
  "ts_canonical t \<longleftrightarrow> t = timestamps_new (ts_created t) (ts_modified t) (ts_accessed t)"

lemma ts_canonical_new [simp]: "ts_canonical (timestamps_new c m a)"
  by (simp add: ts_canonical_def timestamps_roundtrip)

lemma ts_canonical_eqI:
  "ts_canonical s \<Longrightarrow> ts_canonical t \<Longrightarrow> ts_created s = ts_created t \<Longrightarrow> ts_modified s = ts_modified t
    \<Longrightarrow> ts_accessed s = ts_accessed t \<Longrightarrow> s = t"
  by (metis ts_canonical_def)

section \<open>Records\<close>

datatype file_system_kind = Ntfs | Refs | Fat32 | ExFat | UnknownFs

record file_record =
  f_id :: u64
  f_parent_directory_id :: u64
  f_name :: string
  f_full_path :: string
  f_size_bytes :: u64
  f_allocation_bytes :: u64
  f_attributes :: u32
  f_timestamps :: file_timestamps

definition f_created_utc :: "file_record \<Rightarrow> i64 option" where
  "f_created_utc f = ts_created (f_timestamps f)"
definition f_modified_utc :: "file_record \<Rightarrow> i64 option" where
  "f_modified_utc f = ts_modified (f_timestamps f)"
definition f_accessed_utc :: "file_record \<Rightarrow> i64 option" where
  "f_accessed_utc f = ts_accessed (f_timestamps f)"

record directory_record =
  d_id :: u64
  d_parent_directory_id :: "u64 option"
  d_name :: string
  d_full_path :: string
  d_direct_bytes :: u64
  d_total_bytes :: u64
  d_direct_entries :: u64
  d_total_entries :: u64

record volume_record =
  v_id :: u64
  v_mount_point :: string
  v_label :: "string option"
  v_file_system :: file_system_kind
  v_total_bytes :: u64
  v_free_bytes :: u64
  v_root_directory_id :: u64

record scan_progress =
  p_completed_items :: u64
  p_total_items :: u64
  p_completed_bytes :: u64
  p_total_bytes :: u64

datatype scan_state = Idle | Initializing | Scanning | Indexing | Completed | Failed | Cancelled

record scan_session =
  s_session_id :: u64
  s_volume_id :: u64
  s_root_path :: string
  s_state :: scan_state
  s_progress :: scan_progress

record scan_summary =
  ss_files_seen :: u64
  ss_directories_seen :: u64
  ss_total_size_bytes :: u64
  ss_total_allocation_bytes :: u64

record file_lineage_record =
  l_file_id :: u64
  l_previous_parent_directory_id :: u64
  l_current_parent_directory_id :: u64
  l_previous_full_path :: string
  l_current_full_path :: string
  l_renamed :: bool
  l_moved :: bool

datatype file_change_kind = Added | Removed | Modified | Renamed | Moved

record file_change_record =
  c_file_id :: u64
  c_kind :: file_change_kind
  c_previous_full_path :: "string option"
  c_current_full_path :: "string option"

type_synonym file_change_set = "file_change_record list"

datatype scan_issue_kind = PermissionDenied | NotFound | SharingViolation | TransientIo
  | UnsupportedFilesystem | UnknownIssue | FastScanUnavailable

record scan_issue_record =
  i_kind :: scan_issue_kind
  i_path :: "string option"
  i_message :: string

datatype scan_event = SessionStarted volume_record | VolumeDiscovered volume_record
  | DirectoryFound directory_record | FileFound file_record | Issue scan_issue_record
  | Progress scan_progress | Summary scan_summary | EvCompleted | EvFailed string | EvCancelled

section \<open>Paths\<close>

definition join_path :: "string \<Rightarrow> string \<Rightarrow> string" where
  "join_path parent name =
     (let separator = parent \<noteq> [] \<and> \<not> ends_with_char parent backslash
      in parent @ (if separator then [backslash] else []) @ name)"

definition derive_file_path :: "(u64 \<rightharpoonup> directory_record) \<Rightarrow> file_record \<Rightarrow> string" where
  "derive_file_path directories file =
     (if f_full_path file \<noteq> [] then f_full_path file
      else case directories (f_parent_directory_id file) of
        Some parent \<Rightarrow> join_path (d_full_path parent) (f_name file)
      | None \<Rightarrow> f_name file)"

text \<open>The parent's path and the name can be read back from a joined path.\<close>

lemma join_path_suffix: "suffix name (join_path parent name)"
  by (simp add: join_path_def Let_def suffix_def)

lemma join_path_inj_name: "join_path parent a = join_path parent b \<longleftrightarrow> a = b"
  by (simp add: join_path_def Let_def)

lemma join_path_inj_parent:
  assumes "join_path p n = join_path q n" and "p \<noteq> []" "q \<noteq> []"
    and "\<not> ends_with_char p backslash" "\<not> ends_with_char q backslash"
  shows "p = q"
  using assms by (simp add: join_path_def Let_def)

section \<open>Lineage and change sets\<close>

definition detect_file_lineage_change :: "file_record \<Rightarrow> file_record \<Rightarrow> file_lineage_record option" where
  "detect_file_lineage_change previous current =
    (if f_id previous \<noteq> f_id current then None
     else
       let renamed = f_name previous \<noteq> f_name current;
           moved = f_parent_directory_id previous \<noteq> f_parent_directory_id current
             \<or> f_full_path previous \<noteq> f_full_path current
       in if \<not> renamed \<and> \<not> moved then None
          else Some \<lparr>l_file_id = f_id current,
            l_previous_parent_directory_id = f_parent_directory_id previous,
            l_current_parent_directory_id = f_parent_directory_id current,
            l_previous_full_path = f_full_path previous,
            l_current_full_path = f_full_path current,
            l_renamed = renamed, l_moved = moved\<rparr>)"

text \<open>A \<open>HashMap\<close> collected from records: the last record of an id wins.\<close>

definition index_by :: "('a \<Rightarrow> u64) \<Rightarrow> 'a list \<Rightarrow> u64 \<rightharpoonup> 'a" where
  "index_by key xs = foldl (\<lambda>m r. m(key r \<mapsto> r)) Map.empty xs"

lemma index_by_eq: "index_by key xs = map_of (rev (map (\<lambda>r. (key r, r)) xs))"
proof -
  have "foldl (\<lambda>m r. m(key r \<mapsto> r)) m xs = m ++ map_of (rev (map (\<lambda>r. (key r, r)) xs))" for m
    by (induction xs arbitrary: m) (auto simp: map_add_def fun_eq_iff split: option.splits)
  then show ?thesis by (simp add: index_by_def)
qed

lemma index_by_SomeD: "index_by key xs i = Some r \<Longrightarrow> r \<in> set xs \<and> key r = i"
  by (auto simp: index_by_eq dest!: map_of_SomeD)

lemma index_by_None: "index_by key xs i = None \<longleftrightarrow> i \<notin> key ` set xs"
  by (auto simp: index_by_eq map_of_eq_None_iff image_iff)

lemma index_by_distinct:
  "distinct (map key xs) \<Longrightarrow> r \<in> set xs \<Longrightarrow> index_by key xs (key r) = Some r"
  by (auto simp: index_by_eq intro!: map_of_is_SomeI simp: rev_map comp_def distinct_rev
      simp flip: rev_map)

lemma dom_index_by: "dom (index_by key xs) = key ` set xs"
  by (rule set_eqI) (metis domIff index_by_None)

text \<open>The unchanged test of \<open>diff_file_records\<close>: everything but the stored path.\<close>

definition unchanged :: "file_record \<Rightarrow> file_record \<Rightarrow> bool" where
  "unchanged p c \<longleftrightarrow> f_name p = f_name c
     \<and> f_parent_directory_id p = f_parent_directory_id c
     \<and> f_size_bytes p = f_size_bytes c
     \<and> f_allocation_bytes p = f_allocation_bytes c
     \<and> f_attributes p = f_attributes c
     \<and> f_created_utc p = f_created_utc c
     \<and> f_modified_utc p = f_modified_utc c
     \<and> f_accessed_utc p = f_accessed_utc c"

definition changed_kind :: "file_record \<Rightarrow> file_record \<Rightarrow> file_change_kind" where
  "changed_kind previous current =
    (case detect_file_lineage_change previous current of
       Some lineage \<Rightarrow>
         if l_renamed lineage \<and> l_moved lineage then Moved
         else if l_renamed lineage then Renamed
         else if l_moved lineage then Moved else Modified
     | None \<Rightarrow> Modified)"

definition current_change :: "(u64 \<rightharpoonup> file_record) \<Rightarrow> file_record \<Rightarrow> file_change_record option" where
  "current_change previous_by_id current =
    (case previous_by_id (f_id current) of
       None \<Rightarrow> Some \<lparr>c_file_id = f_id current, c_kind = Added,
                 c_previous_full_path = None, c_current_full_path = Some (f_full_path current)\<rparr>
     | Some previous \<Rightarrow>
         if unchanged previous current then None
         else Some \<lparr>c_file_id = f_id current, c_kind = changed_kind previous current,
                 c_previous_full_path = Some (f_full_path previous),
                 c_current_full_path = Some (f_full_path current)\<rparr>)"

definition removed_change :: "(u64 \<rightharpoonup> file_record) \<Rightarrow> file_record \<Rightarrow> file_change_record option" where
  "removed_change current_by_id previous =
    (if current_by_id (f_id previous) = None
     then Some \<lparr>c_file_id = f_id previous, c_kind = Removed,
            c_previous_full_path = Some (f_full_path previous), c_current_full_path = None\<rparr>
     else None)"

definition diff_file_records :: "file_record list \<Rightarrow> file_record list \<Rightarrow> file_change_set" where
  "diff_file_records previous current =
    (if previous = current \<and> list_all (\<lambda>(a, b). f_id a < f_id b) (zip previous (tl previous)) then []
     else
       let previous_by_id = index_by f_id previous;
           current_by_id = index_by f_id current
       in List.map_filter (current_change previous_by_id) current
          @ List.map_filter (removed_change current_by_id) previous)"


text \<open>The classification a change set is meant to have, per id.\<close>

definition expected_change :: "file_record list \<Rightarrow> file_record list \<Rightarrow> u64 \<Rightarrow> file_change_kind option" where
  "expected_change previous current i =
    (case (index_by f_id previous i, index_by f_id current i) of
       (None, None) \<Rightarrow> None
     | (None, Some _) \<Rightarrow> Some Added
     | (Some _, None) \<Rightarrow> Some Removed
     | (Some p, Some c) \<Rightarrow>
         if unchanged p c then None
         else if f_parent_directory_id p \<noteq> f_parent_directory_id c \<or> f_full_path p \<noteq> f_full_path c
         then Some Moved
         else if f_name p \<noteq> f_name c then Some Renamed else Some Modified)"

lemma changed_kind_eq:
  "f_id p = f_id c \<Longrightarrow> changed_kind p c =
    (if f_parent_directory_id p \<noteq> f_parent_directory_id c \<or> f_full_path p \<noteq> f_full_path c then Moved
     else if f_name p \<noteq> f_name c then Renamed else Modified)"
  by (auto simp: changed_kind_def detect_file_lineage_change_def Let_def)

lemma unchanged_refl [simp]: "unchanged r r"
  by (simp add: unchanged_def)

lemma adjacent_less_sorted:
  "list_all (\<lambda>(a, b). (key a :: 'k::linorder) < key b) (zip xs (tl xs)) \<Longrightarrow> sorted_wrt (\<lambda>a b. key a < key b) xs"
proof (induction xs)
  case (Cons x xs)
  then show ?case by (cases xs) auto
qed simp

lemma set_map_filter: "set (List.map_filter f xs) = {y. \<exists>x\<in>set xs. f x = Some y}"
  by (induction xs) (auto simp: List.map_filter_simps split: option.splits)

lemma distinct_map_filter_key:
  assumes "\<And>x y. f x = Some y \<Longrightarrow> key' y = key x" and "distinct (map key xs)"
  shows "distinct (map key' (List.map_filter f xs))"
  using assms(2)
proof (induction xs)
  case (Cons x xs)
  have "key' y \<noteq> key' z" if "f x = Some y" "x' \<in> set xs" "f x' = Some z" for x' y z
    using that Cons.prems assms(1) by (metis distinct.simps(2) image_eqI list.simps(9) set_map)
  with Cons show ?case
    by (fastforce simp: List.map_filter_simps set_map_filter split: option.splits)
qed (simp add: List.map_filter_simps)

text \<open>The slow path, without the equal-snapshot shortcut.\<close>

definition diff_slow :: "file_record list \<Rightarrow> file_record list \<Rightarrow> file_change_set" where
  "diff_slow previous current =
    List.map_filter (current_change (index_by f_id previous)) current
    @ List.map_filter (removed_change (index_by f_id current)) previous"

lemma diff_slow_same:
  assumes "distinct (map f_id xs)" shows "diff_slow xs xs = []"
proof -
  have "current_change (index_by f_id xs) r = None" if "r \<in> set xs" for r
    using index_by_distinct [OF assms that] by (simp add: current_change_def)
  moreover have "removed_change (index_by f_id xs) r = None" if "r \<in> set xs" for r
    using index_by_distinct [OF assms that] by (simp add: removed_change_def)
  ultimately have "set (diff_slow xs xs) = {}"
    by (auto simp: diff_slow_def set_map_filter)
  then show ?thesis by simp
qed

lemma diff_file_records_slow: "diff_file_records previous current = diff_slow previous current"
proof (cases "previous = current \<and> list_all (\<lambda>(a, b). f_id a < f_id b) (zip previous (tl previous))")
  case True
  then have "sorted_wrt (\<lambda>a b. f_id a < f_id b) previous"
    using adjacent_less_sorted [of f_id previous] by blast
  then have "distinct (map f_id previous)"
    by (induction previous) auto
  with True show ?thesis by (auto simp: diff_file_records_def diff_slow_same)
next
  case False
  then show ?thesis by (auto simp: diff_file_records_def diff_slow_def Let_def)
qed

lemma current_change_SomeD: "current_change m r = Some c \<Longrightarrow> c_file_id c = f_id r \<and> c_kind c \<noteq> Removed"
  by (auto simp: current_change_def changed_kind_def split: option.splits if_splits)

lemma removed_change_SomeD: "removed_change m r = Some c \<Longrightarrow> c_file_id c = f_id r \<and> c_kind c = Removed \<and> m (f_id r) = None"
  by (auto simp: removed_change_def split: if_splits)

lemma diff_slow_mem:
  assumes "distinct (map f_id previous)" and "distinct (map f_id current)"
  shows "(\<exists>c\<in>set (diff_slow previous current). c_file_id c = i \<and> c_kind c = k)
     \<longleftrightarrow> expected_change previous current i = Some k"
proof -
  let ?p = "index_by f_id previous" and ?c = "index_by f_id current"
  have cur: "(\<exists>r\<in>set current. \<exists>c. current_change ?p r = Some c \<and> c_file_id c = i \<and> c_kind c = k)
      \<longleftrightarrow> (\<exists>r c. ?c i = Some r \<and> current_change ?p r = Some c \<and> c_kind c = k)"
    using index_by_distinct [OF assms(2)] by (fastforce dest: index_by_SomeD current_change_SomeD)
  have prev: "(\<exists>r\<in>set previous. \<exists>c. removed_change ?c r = Some c \<and> c_file_id c = i \<and> c_kind c = k)
      \<longleftrightarrow> (\<exists>r. ?p i = Some r \<and> ?c i = None \<and> k = Removed)"
    using index_by_distinct [OF assms(1)]
    by (fastforce dest: index_by_SomeD removed_change_SomeD simp: removed_change_def)
  have "(\<exists>c\<in>set (diff_slow previous current). c_file_id c = i \<and> c_kind c = k)
     \<longleftrightarrow> (\<exists>r c. ?c i = Some r \<and> current_change ?p r = Some c \<and> c_kind c = k)
       \<or> (\<exists>r. ?p i = Some r \<and> ?c i = None \<and> k = Removed)"
    unfolding cur [symmetric] prev [symmetric] by (auto simp: diff_slow_def set_map_filter)
  also have "\<dots> \<longleftrightarrow> expected_change previous current i = Some k"
  proof (cases "?c i")
    case None
    then show ?thesis by (auto simp: expected_change_def split: option.splits)
  next
    case (Some c)
    then have c: "f_id c = i" by (auto dest: index_by_SomeD)
    show ?thesis
    proof (cases "?p i")
      case (Some p)
      then have "f_id p = i" by (auto dest: index_by_SomeD)
      with \<open>?c i = Some c\<close> c Some show ?thesis
        by (auto simp: expected_change_def current_change_def changed_kind_eq)
    qed (use \<open>?c i = Some c\<close> c in \<open>auto simp: expected_change_def current_change_def\<close>)
  qed
  finally show ?thesis .
qed

lemma diff_slow_distinct:
  assumes "distinct (map f_id previous)" and "distinct (map f_id current)"
  shows "distinct (map c_file_id (diff_slow previous current))"
proof -
  have "distinct (map c_file_id (List.map_filter (current_change (index_by f_id previous)) current))"
    by (rule distinct_map_filter_key [OF _ assms(2)]) (simp add: current_change_SomeD)
  moreover have "distinct (map c_file_id (List.map_filter (removed_change (index_by f_id current)) previous))"
    by (rule distinct_map_filter_key [OF _ assms(1)]) (simp add: removed_change_SomeD)
  moreover have False
    if "current_change m r = Some x" "removed_change (index_by f_id current) r' = Some y"
      "r \<in> set current" "c_file_id x = c_file_id y" for m r r' x y
    using that by (auto simp: index_by_None dest!: current_change_SomeD removed_change_SomeD)
      (metis image_eqI)
  ultimately show ?thesis
    unfolding diff_slow_def map_append distinct_append
    by (auto simp: set_map_filter image_iff) metis
qed


text \<open>
  C7. For snapshots with unique ids, diff_file_records reports every id at most once, and reports it with the
  kind that a case distinction on the two records of that id gives: added, removed, moved, renamed, modified,
  or no change at all.
\<close>

theorem diff_classifies_every_id:
  assumes "distinct (map f_id previous)" and "distinct (map f_id current)"
  shows "distinct (map c_file_id (diff_file_records previous current))
    \<and> ((\<exists>c\<in>set (diff_file_records previous current). c_file_id c = i \<and> c_kind c = k)
         \<longleftrightarrow> expected_change previous current i = Some k)"
  using diff_slow_distinct [OF assms] diff_slow_mem [OF assms] by (simp add: diff_file_records_slow)

section \<open>Sample records\<close>

text \<open>Concrete records the witnesses evaluate the theorems on.\<close>

definition sample_file :: "u64 \<Rightarrow> u64 \<Rightarrow> string \<Rightarrow> u64 \<Rightarrow> file_record" where
  "sample_file i parent name bytes = \<lparr>f_id = i, f_parent_directory_id = parent, f_name = name, f_full_path = [],
     f_size_bytes = bytes, f_allocation_bytes = bytes, f_attributes = ARCHIVE,
     f_timestamps = timestamps_new None (Some 7) None\<rparr>"

definition sample_directory :: "u64 \<Rightarrow> u64 option \<Rightarrow> string \<Rightarrow> string \<Rightarrow> directory_record" where
  "sample_directory i parent name path = \<lparr>d_id = i, d_parent_directory_id = parent, d_name = name,
     d_full_path = path, d_direct_bytes = 0, d_total_bytes = 0, d_direct_entries = 0, d_total_entries = 0\<rparr>"

definition sample_volume :: "u64 \<Rightarrow> u64 \<Rightarrow> volume_record" where
  "sample_volume i root = \<lparr>v_id = i, v_mount_point = ''C:'', v_label = None, v_file_system = Ntfs,
     v_total_bytes = 100, v_free_bytes = 50, v_root_directory_id = root\<rparr>"

lemmas sample_defs = sample_file_def sample_directory_def sample_volume_def

lemma diff_classifies_every_id_witness:
  "let previous = [sample_file 1 5 ''a'' 10, sample_file 2 5 ''b'' 20];
       current = [sample_file 2 5 ''c'' 20, sample_file 3 5 ''d'' 30]
   in expected_change previous current 2 = Some Renamed
      \<and> (\<exists>c\<in>set (diff_file_records previous current). c_file_id c = 2 \<and> c_kind c = Renamed)
      \<and> distinct (map c_file_id (diff_file_records previous current))"
proof -
  let ?p = "[sample_file 1 5 ''a'' 10, sample_file 2 5 ''b'' 20]"
  let ?c = "[sample_file 2 5 ''c'' 20, sample_file 3 5 ''d'' 30]"
  have "expected_change ?p ?c 2 = Some Renamed"
    by (simp add: expected_change_def index_by_def sample_file_def unchanged_def)
  then show ?thesis
    using diff_classifies_every_id [of ?p ?c 2 Renamed] by (simp add: Let_def sample_file_def)
qed

end
