(* ===== verification/Record_Stores.thy ===== *)
theory Record_Stores
  imports Core_Model
begin

text \<open>
  The record containers of the index: the arena of directories with its id map
  (\<open>directory_records.rs\<close>), the arena of files with its dense-or-sparse position table
  (\<open>file_records.rs\<close>), and the hash maps of volumes and sessions. The locales \<open>record_store\<close> and
  \<open>removable_store\<close> state what their clients rely on; each container is an interpretation.
\<close>

section \<open>The interface\<close>

locale record_store =
  fixes empty :: 's
    and insert :: "u64 \<Rightarrow> 'r \<Rightarrow> 's \<Rightarrow> 's"
    and lookup :: "'s \<Rightarrow> u64 \<Rightarrow> 'r option"
    and "values" :: "'s \<Rightarrow> 'r list"
    and key :: "'r \<Rightarrow> u64"
    and invar :: "'s \<Rightarrow> bool"
  assumes invar_empty: "invar empty"
    and lookup_empty: "lookup empty = Map.empty"
    and invar_insert: "invar s \<Longrightarrow> invar (insert (key r) r s)"
    and lookup_insert: "invar s \<Longrightarrow> lookup (insert (key r) r s) = (lookup s)(key r \<mapsto> r)"
    and values_lookup: "invar s \<Longrightarrow> r \<in> set (values s) \<longleftrightarrow> lookup s (key r) = Some r"
    and lookup_key: "invar s \<Longrightarrow> lookup s i = Some r \<Longrightarrow> key r = i"
    and values_distinct: "invar s \<Longrightarrow> distinct (map key (values s))"
begin

definition insert_all :: "'r list \<Rightarrow> 's \<Rightarrow> 's" where
  "insert_all rs s = foldl (\<lambda>s r. insert (key r) r s) s rs"

lemma insert_all_simps [simp]:
  "insert_all [] s = s"
  "insert_all (r # rs) s = insert_all rs (insert (key r) r s)"
  by (simp_all add: insert_all_def)

lemma insert_all_correct:
  "invar s \<Longrightarrow> invar (insert_all rs s) \<and> lookup (insert_all rs s) = lookup s ++ index_by key rs"
proof (induction rs arbitrary: s)
  case (Cons r rs)
  have "lookup s ++ index_by key (r # rs) = (lookup s)(key r \<mapsto> r) ++ index_by key rs"
    by (auto simp: index_by_eq map_add_def fun_eq_iff split: option.splits)
  with Cons.IH [of "insert (key r) r s"] Cons.prems show ?case
    by (simp only: insert_all_simps invar_insert lookup_insert)
qed (simp add: index_by_def)

text \<open>A container holds exactly the records of its map, so the sorted snapshot is a function of it.\<close>

lemma values_ran: "invar s \<Longrightarrow> set (values s) = ran (lookup s)"
  using values_lookup lookup_key by (auto simp: ran_def)

lemma index_by_values: "invar s \<Longrightarrow> index_by key (values s) = lookup s"
proof
  fix i assume s: "invar s"
  show "index_by key (values s) i = lookup s i"
  proof (cases "lookup s i")
    case None
    then have "i \<notin> key ` set (values s)" using s by (auto simp: values_lookup)
    with None show ?thesis by (metis index_by_None)
  next
    case (Some r)
    then have "r \<in> set (values s)" "key r = i" using s by (auto simp: values_lookup lookup_key)
    with Some show ?thesis using index_by_distinct values_distinct s by metis
  qed
qed

definition snapshot :: "'s \<Rightarrow> 'r list" where
  "snapshot s = sort_key key (values s)"

lemma snapshot_eqI:
  assumes "invar s" "invar t" "lookup s = lookup t" shows "snapshot s = snapshot t"
proof -
  have "set (values s) = set (values t)" using assms by (simp add: values_ran)
  moreover have "distinct (values s)" "distinct (values t)"
    using assms values_distinct distinct_map by blast+
  ultimately have "mset (values s) = mset (values t)" by (simp add: set_eq_iff_mset_eq_distinct)
  then have "shuffles (\<lambda>xs. if xs = values s then values t else xs)"
    by (simp add: shuffles_def)
  from sort_unstable_distinct [OF this values_distinct [OF assms(1)]] show ?thesis
    by (simp add: sort_unstable_by_key_def snapshot_def)
qed

lemma set_snapshot: "set (snapshot s) = set (values s)"
  by (simp add: snapshot_def)

lemma snapshot_distinct: "invar s \<Longrightarrow> distinct (map key (snapshot s))"
  unfolding snapshot_def using values_distinct
  by (metis mset_eq_imp_distinct_iff mset_map mset_sort)

lemma snapshot_sorted: "sorted (map key (snapshot s))"
  by (simp add: snapshot_def)

lemma index_by_snapshot: "invar s \<Longrightarrow> index_by key (snapshot s) = lookup s"
proof -
  assume s: "invar s"
  have "index_by key (snapshot s) i = index_by key (values s) i" for i
  proof (cases "index_by key (values s) i")
    case None
    then show ?thesis by (metis index_by_None set_snapshot)
  next
    case (Some r)
    then have "r \<in> set (snapshot s)" "key r = i" by (auto dest!: index_by_SomeD simp: set_snapshot)
    with Some show ?thesis using index_by_distinct [OF snapshot_distinct [OF s]] by metis
  qed
  then show ?thesis using index_by_values [OF s] by auto
qed

lemma snapshot_insert_all:
  assumes "invar s" shows "lookup (insert_all (snapshot s) empty) = lookup s"
  using insert_all_correct [OF invar_empty, of "snapshot s"] index_by_snapshot [OF assms]
  by (simp add: lookup_empty)

lemma sort_unstable_snapshot:
  "invar s \<Longrightarrow> shuffles f \<Longrightarrow> sort_unstable_by_key f key (values s) = snapshot s"
  by (simp add: snapshot_def sort_unstable_distinct values_distinct)

end

locale removable_store = record_store empty insert lookup "values" key invar
  for empty :: 's
    and insert :: "u64 \<Rightarrow> 'r \<Rightarrow> 's \<Rightarrow> 's"
    and lookup :: "'s \<Rightarrow> u64 \<Rightarrow> 'r option"
    and "values" :: "'s \<Rightarrow> 'r list"
    and key :: "'r \<Rightarrow> u64"
    and invar :: "'s \<Rightarrow> bool" +
  fixes remove :: "u64 \<Rightarrow> 's \<Rightarrow> 's"
  assumes invar_remove: "invar s \<Longrightarrow> invar (remove i s)"
    and lookup_remove: "invar s \<Longrightarrow> lookup (remove i s) = (lookup s)(i := None)"

section \<open>Directories\<close>

record directory_records =
  dr_positions :: "u64 \<rightharpoonup> nat"
  dr_records :: "directory_record list"

definition dirs_with_capacity :: directory_records where
  "dirs_with_capacity = \<lparr>dr_positions = Map.empty, dr_records = []\<rparr>"

definition dirs_insert :: "u64 \<Rightarrow> directory_record \<Rightarrow> directory_records \<Rightarrow> directory_records" where
  "dirs_insert i record s =
    (case dr_positions s i of
       Some position \<Rightarrow> s\<lparr>dr_records := (dr_records s)[position := record]\<rparr>
     | None \<Rightarrow> s\<lparr>dr_positions := (dr_positions s)(i \<mapsto> length (dr_records s)),
                dr_records := dr_records s @ [record]\<rparr>)"

definition dirs_get :: "directory_records \<Rightarrow> u64 \<Rightarrow> directory_record option" where
  "dirs_get s i = map_option (\<lambda>index. dr_records s ! index) (dr_positions s i)"

definition dirs_values :: "directory_records \<Rightarrow> directory_record list" where
  "dirs_values s = dr_records s"

definition dirs_into_records :: "directory_records \<Rightarrow> directory_record list" where
  "dirs_into_records s = dr_records s"

definition dirs_from_iter :: "(u64 \<times> directory_record) list \<Rightarrow> directory_records" where
  "dirs_from_iter xs = foldl (\<lambda>s (i, record). dirs_insert i record s) dirs_with_capacity xs"

definition dirs_eq :: "directory_records \<Rightarrow> directory_records \<Rightarrow> bool" where
  "dirs_eq self other \<longleftrightarrow> length (dr_records self) = length (dr_records other)
     \<and> list_all (\<lambda>record. dirs_get other (d_id record) = Some record) (dr_records self)"

text \<open>Every position of the map is a slot holding that id, and every slot is mapped.\<close>

definition positions_ok :: "('r \<Rightarrow> u64) \<Rightarrow> (u64 \<Rightarrow> nat option) \<Rightarrow> 'r list \<Rightarrow> bool" where
  "positions_ok key pos rs \<longleftrightarrow> (\<forall>i p. pos i = Some p \<longleftrightarrow> p < length rs \<and> key (rs ! p) = i)"

definition dirs_invar :: "directory_records \<Rightarrow> bool" where
  "dirs_invar s \<longleftrightarrow> positions_ok d_id (dr_positions s) (dr_records s)"

lemma positions_okD:
  assumes "positions_ok key pos rs"
  shows "pos i = Some p \<longleftrightarrow> p < length rs \<and> key (rs ! p) = i"
  using assms by (simp add: positions_ok_def)

lemma positions_ok_distinct: "positions_ok key pos rs \<Longrightarrow> distinct (map key rs)"
proof (subst distinct_conv_nth, safe)
  fix p q assume ok: "positions_ok key pos rs" and pq: "p < length (map key rs)" "q < length (map key rs)"
    and ne: "p \<noteq> q" and eq: "map key rs ! p = map key rs ! q"
  from ok pq have "pos (key (rs ! p)) = Some p" "pos (key (rs ! q)) = Some q"
    by (simp_all add: positions_okD)
  with pq eq ne show False by simp
qed

lemma positions_ok_mem:
  assumes "positions_ok key pos rs"
  shows "r \<in> set rs \<longleftrightarrow> map_option ((!) rs) (pos (key r)) = Some r"
proof
  assume "r \<in> set rs"
  then obtain p where "p < length rs" "rs ! p = r" by (auto simp: in_set_conv_nth)
  then have "pos (key r) = Some p" using assms by (simp add: positions_okD)
  with \<open>rs ! p = r\<close> show "map_option ((!) rs) (pos (key r)) = Some r" by simp
next
  assume "map_option ((!) rs) (pos (key r)) = Some r"
  then show "r \<in> set rs" using assms by (auto simp: positions_okD)
qed

lemma positions_ok_update:
  assumes "positions_ok key pos rs" "pos (key r) = Some p"
  shows "positions_ok key pos (rs[p := r])"
  unfolding positions_ok_def
proof (intro allI)
  fix i q
  have "p < length rs" "key (rs ! p) = key r" using assms by (simp_all add: positions_okD)
  then show "pos i = Some q \<longleftrightarrow> q < length (rs[p := r]) \<and> key (rs[p := r] ! q) = i"
    using assms(1) by (cases "q = p") (simp_all add: positions_okD)
qed

lemma positions_ok_append:
  assumes "positions_ok key pos rs" "pos (key r) = None"
    and "\<And>i. pos' i = (if i = key r then Some (length rs) else pos i)"
  shows "positions_ok key pos' (rs @ [r])"
  unfolding positions_ok_def
proof (intro allI)
  fix i q
  have no: "q < length rs \<Longrightarrow> key (rs ! q) \<noteq> key r"
    using assms(1,2) positions_okD [of key pos rs "key r" q] by simp
  have old: "pos i = Some q \<longleftrightarrow> q < length rs \<and> key (rs ! q) = i"
    using assms(1) by (rule positions_okD)
  consider "q < length rs" | "q = length rs" | "length rs < q" by linarith
  then show "pos' i = Some q \<longleftrightarrow> q < length (rs @ [r]) \<and> key ((rs @ [r]) ! q) = i"
  proof cases
    case 1
    with no have "(rs @ [r]) ! q = rs ! q" "key (rs ! q) \<noteq> key r" by (simp_all add: nth_append)
    with 1 old show ?thesis unfolding assms(3) by auto
  next
    case 2
    with old show ?thesis unfolding assms(3) by auto
  next
    case 3
    with old show ?thesis unfolding assms(3) by auto
  qed
qed

text \<open>What the two kinds of insertion do to the map the arena represents.\<close>

definition arena_lookup :: "(u64 \<Rightarrow> nat option) \<Rightarrow> 'r list \<Rightarrow> u64 \<Rightarrow> 'r option" where
  "arena_lookup pos rs i = map_option ((!) rs) (pos i)"

lemma arena_lookup_bound:
  "positions_ok key pos rs \<Longrightarrow> pos i = Some p \<Longrightarrow> p < length rs \<and> key (rs ! p) = i"
  by (simp add: positions_ok_def)

lemma arena_lookup_key: "positions_ok key pos rs \<Longrightarrow> arena_lookup pos rs i = Some r \<Longrightarrow> key r = i"
  by (auto simp: arena_lookup_def dest: arena_lookup_bound)

lemma arena_lookup_update:
  assumes ok: "positions_ok key pos rs" and p: "pos (key r) = Some p"
  shows "arena_lookup pos (rs[p := r]) = (arena_lookup pos rs)(key r \<mapsto> r)"
proof
  fix i
  show "arena_lookup pos (rs[p := r]) i = ((arena_lookup pos rs)(key r \<mapsto> r)) i"
  proof (cases "pos i")
    case (Some q)
    have "q < length rs \<and> key (rs ! q) = i" by (rule arena_lookup_bound [OF ok Some])
    moreover have "p < length rs \<and> key (rs ! p) = key r" by (rule arena_lookup_bound [OF ok p])
    ultimately have "q = p \<longleftrightarrow> i = key r" "p < length rs" using p Some by auto
    with Some show ?thesis by (cases "q = p") (simp_all add: arena_lookup_def)
  qed (use p in \<open>auto simp: arena_lookup_def\<close>)
qed

lemma arena_lookup_append:
  assumes ok: "positions_ok key pos rs"
    and pos': "\<And>i. pos' i = (if i = key r then Some (length rs) else pos i)"
  shows "arena_lookup pos' (rs @ [r]) = (arena_lookup pos rs)(key r \<mapsto> r)"
proof
  fix i
  show "arena_lookup pos' (rs @ [r]) i = ((arena_lookup pos rs)(key r \<mapsto> r)) i"
  proof (cases "i = key r")
    case False
    then show ?thesis
      using ok by (cases "pos i") (auto simp: arena_lookup_def pos' nth_append dest: arena_lookup_bound)
  qed (simp add: arena_lookup_def pos')
qed

lemma dirs_get_arena: "dirs_get s = arena_lookup (dr_positions s) (dr_records s)"
  by (simp add: dirs_get_def arena_lookup_def fun_eq_iff)

interpretation dirs: record_store dirs_with_capacity dirs_insert dirs_get dirs_values d_id dirs_invar
proof unfold_locales
  show "dirs_invar dirs_with_capacity"
    by (simp add: dirs_invar_def dirs_with_capacity_def positions_ok_def)
  show "dirs_get dirs_with_capacity = Map.empty"
    by (simp add: dirs_get_def dirs_with_capacity_def fun_eq_iff)
next
  fix s :: directory_records and r assume "dirs_invar s"
  then have s: "positions_ok d_id (dr_positions s) (dr_records s)" by (simp add: dirs_invar_def)
  have ins: "dirs_invar (dirs_insert (d_id r) r s)
      \<and> dirs_get (dirs_insert (d_id r) r s) = (dirs_get s)(d_id r \<mapsto> r)"
  proof (cases "dr_positions s (d_id r)")
    case None
    have "positions_ok d_id ((dr_positions s)(d_id r \<mapsto> length (dr_records s))) (dr_records s @ [r])"
      by (rule positions_ok_append [OF s None]) simp
    moreover have "arena_lookup ((dr_positions s)(d_id r \<mapsto> length (dr_records s))) (dr_records s @ [r])
        = (arena_lookup (dr_positions s) (dr_records s))(d_id r \<mapsto> r)"
      by (rule arena_lookup_append [OF s]) simp
    ultimately show ?thesis using None by (simp add: dirs_insert_def dirs_get_arena dirs_invar_def)
  next
    case (Some p)
    with positions_ok_update [OF s Some] arena_lookup_update [OF s Some] show ?thesis
      by (simp add: dirs_insert_def dirs_get_arena dirs_invar_def)
  qed
  from ins show "dirs_invar (dirs_insert (d_id r) r s)" ..
  from ins show "dirs_get (dirs_insert (d_id r) r s) = (dirs_get s)(d_id r \<mapsto> r)" ..
  show "r \<in> set (dirs_values s) \<longleftrightarrow> dirs_get s (d_id r) = Some r"
    using positions_ok_mem [OF s] by (simp add: dirs_values_def dirs_get_arena arena_lookup_def)
  show "distinct (map d_id (dirs_values s))"
    using s by (simp add: dirs_values_def positions_ok_distinct)
  show "dirs_get s i = Some r \<Longrightarrow> d_id r = i" for i
    using arena_lookup_key [OF s] by (simp add: dirs_get_arena)
qed

text \<open>Equality of directory tables is equality of the maps, whatever the insertion order.\<close>

lemma values_length_le:
  assumes "distinct (map key rs)" "distinct (map key rs')" "length rs = length rs'"
    and "set rs \<subseteq> set rs'"
  shows "set rs = set rs'"
proof (rule card_subset_eq)
  have "distinct rs" "distinct rs'" using assms distinct_map by blast+
  then show "card (set rs) = card (set rs')" using assms(3) by (simp add: distinct_card)
qed (use assms(4) in auto)

section \<open>Files\<close>

text \<open>
  \<open>FilePositions\<close>: a dense table of position + 1 per id with a size hint, or a hash map. The
  capacity of a \<open>Vec\<close> is the allocator's choice, so it is an argument \<open>capacity\<close> of the operations
  that read it; nothing proved here depends on it. \<open>usize_max\<close> saturates the size arithmetic.
\<close>

datatype file_positions = Dense "u32 list" nat | Sparse "u64 \<rightharpoonup> nat"

definition usize_max :: nat where "usize_max = 2 ^ 64 - 1"

definition positions_with_capacity :: "nat \<Rightarrow> file_positions" where
  "positions_with_capacity capacity = Dense [] capacity"

definition positions_reserve :: "nat \<Rightarrow> nat \<Rightarrow> file_positions \<Rightarrow> file_positions" where
  "positions_reserve total_count live self =
    (case self of
       Dense slots hint \<Rightarrow> if total_count > 0 then Dense slots (max hint total_count) else self
     | Sparse positions \<Rightarrow> self)"

fun positions_get :: "file_positions \<Rightarrow> u64 \<Rightarrow> nat option" where
  "positions_get (Dense slots hint) i =
    (if unat i < length slots
     then (let encoded = slots ! unat i in if encoded = 0 then None else Some (unat (encoded - 1)))
     else None)"
| "positions_get (Sparse positions) i = positions i"

text \<open>The map rebuilt from the dense slots when the table is promoted.\<close>

definition promote :: "u32 list \<Rightarrow> u64 \<rightharpoonup> nat" where
  "promote slots = foldl (\<lambda>m (i, encoded).
      if encoded = 0 then m else m(word_of_nat i \<mapsto> unat (encoded - 1))) Map.empty (enumerate 0 slots)"

definition dense_limit :: "nat \<Rightarrow> nat \<Rightarrow> nat \<Rightarrow> nat" where
  "dense_limit capacity hint live =
     max (max capacity (min (hint + 1) usize_max)) (min (min (live * 4) usize_max + 16384) usize_max)"

definition encode_position :: "nat \<Rightarrow> u32 option" where
  "encode_position position = (if position + 1 < 2 ^ 32 then Some (word_of_nat (position + 1)) else None)"

fun positions_insert :: "nat \<Rightarrow> u64 \<Rightarrow> nat \<Rightarrow> nat \<Rightarrow> file_positions \<Rightarrow> file_positions" where
  "positions_insert capacity i position live (Dense slots hint) =
    (let index = unat i; limit = dense_limit capacity hint live
     in case encode_position position of
          Some encoded \<Rightarrow>
            if index < limit
            then Dense ((if index \<ge> length slots then slots @ replicate (index + 1 - length slots) 0
                         else slots)[index := encoded]) hint
            else Sparse ((promote slots)(i \<mapsto> position))
        | None \<Rightarrow> Sparse ((promote slots)(i \<mapsto> position)))"
| "positions_insert capacity i position live (Sparse positions) = Sparse (positions(i \<mapsto> position))"

fun positions_remove :: "u64 \<Rightarrow> file_positions \<Rightarrow> nat option \<times> file_positions" where
  "positions_remove i (Dense slots hint) =
    (if unat i < length slots
     then (let encoded = slots ! unat i
           in (if encoded = 0 then None else Some (unat (encoded - 1)), Dense (slots[unat i := 0]) hint))
     else (None, Dense slots hint))"
| "positions_remove i (Sparse positions) = (positions i, Sparse (positions(i := None)))"

fun positions_wf :: "file_positions \<Rightarrow> bool" where
  "positions_wf (Dense slots hint) \<longleftrightarrow> length slots \<le> 2 ^ 64"
| "positions_wf (Sparse positions) \<longleftrightarrow> True"

lemma promote_take:
  assumes "n \<le> length slots" "length slots \<le> 2 ^ 64"
  shows "foldl (\<lambda>m (i, encoded). if encoded = 0 then m else m(word_of_nat i \<mapsto> unat (encoded - 1)))
     Map.empty (enumerate 0 (take n slots)) i =
     (if unat (i :: u64) < n then positions_get (Dense slots h) i else None)"
  using assms(1)
proof (induction n)
  case (Suc n)
  then have n: "n < length slots" by simp
  then have nat: "unat (word_of_nat n :: u64) = n" using assms(2) by (simp add: unat_of_nat)
  then have eq: "(i = word_of_nat n) = (unat i = n)" by (metis word_unat_eq_iff)
  have "enumerate 0 (take (Suc n) slots) = enumerate 0 (take n slots) @ [(n, slots ! n)]"
    using n by (simp add: take_Suc_conv_app_nth enumerate_append_eq)
  with Suc n eq show ?case by (auto simp: Let_def less_Suc_eq)
qed simp

lemma promote_get: "length slots \<le> 2 ^ 64 \<Longrightarrow> promote slots = positions_get (Dense slots h)"
  using promote_take [of "length slots" slots _ h] by (auto simp: promote_def fun_eq_iff)

lemma encode_position_Some:
  "encode_position p = Some e \<Longrightarrow> e \<noteq> 0 \<and> unat (e - 1) = p"
proof -
  assume "encode_position p = Some e"
  then have p: "p + 1 < 2 ^ 32" and e: "e = word_of_nat (p + 1)"
    by (auto simp: encode_position_def split: if_splits)
  have u: "unat e = p + 1" using p unfolding e unat_of_nat by simp
  then have "e \<noteq> 0" by auto
  moreover from this u have "unat (e - 1) = p" by (simp add: unat_minus_one)
  ultimately show ?thesis ..
qed

lemma unat_u64_less: "unat (i :: u64) < 2 ^ 64"
  using unat_less_power [of i] by simp

lemma positions_get_Sparse [simp]: "positions_get (Sparse m) = m"
  by (simp add: fun_eq_iff)

lemma positions_insert_get:
  assumes "positions_wf s"
  shows "positions_get (positions_insert capacity i p live s) = (positions_get s)(i \<mapsto> p)
    \<and> positions_wf (positions_insert capacity i p live s)"
proof (cases s)
  case (Dense slots hint)
  let ?slots = "if unat i \<ge> length slots then slots @ replicate (unat i + 1 - length slots) 0 else slots"
  have wf: "length slots \<le> 2 ^ 64" using assms Dense by simp
  have len: "unat i < length ?slots" "length ?slots \<le> 2 ^ 64" using wf unat_u64_less [of i] by auto
  have old: "unat j < length ?slots \<Longrightarrow> ?slots ! unat j =
      (if unat j < length slots then slots ! unat j else 0)" for j
    by (auto simp: nth_append)
  show ?thesis
  proof (cases "encode_position p")
    case None
    then show ?thesis using Dense promote_get [OF wf, of hint] by simp
  next
    case (Some e)
    note e = encode_position_Some [OF Some]
    show ?thesis
    proof (cases "unat i < dense_limit capacity hint live")
      case True
      have "positions_get (Dense (?slots[unat i := e]) hint) j =
          ((positions_get (Dense slots hint))(i \<mapsto> p)) j" for j
        using len(1) e old [of j] word_unat_eq_iff [of i j]
        by (cases "j = i") (auto simp: Let_def nth_list_update split: if_splits)
      then show ?thesis using True Some Dense len(2) by (simp add: fun_eq_iff Let_def del: positions_get.simps)
    next
      case False
      then show ?thesis using Some Dense promote_get [OF wf, of hint] by simp
    qed
  qed
qed simp

lemma positions_remove_get:
  "fst (positions_remove i s) = positions_get s i"
  "positions_get (snd (positions_remove i s)) = (positions_get s)(i := None)"
  "positions_wf s \<Longrightarrow> positions_wf (snd (positions_remove i s))"
proof -
  show "fst (positions_remove i s) = positions_get s i" by (cases s) (auto simp: Let_def)
  show "positions_get (snd (positions_remove i s)) = (positions_get s)(i := None)"
    by (cases s) (auto simp: Let_def fun_eq_iff nth_list_update word_unat_eq_iff)
  show "positions_wf s \<Longrightarrow> positions_wf (snd (positions_remove i s))" by (cases s) (auto simp: Let_def)
qed

record file_records =
  fr_positions :: file_positions
  fr_records :: "file_record list"

definition files_default :: file_records where
  "files_default = \<lparr>fr_positions = Dense [] 0, fr_records = []\<rparr>"

definition files_with_capacity :: "nat \<Rightarrow> file_records" where
  "files_with_capacity capacity = \<lparr>fr_positions = positions_with_capacity capacity, fr_records = []\<rparr>"

definition files_reserve :: "nat \<Rightarrow> file_records \<Rightarrow> file_records" where
  "files_reserve total_count s =
    s\<lparr>fr_positions := positions_reserve total_count (length (fr_records s)) (fr_positions s)\<rparr>"

definition files_insert :: "(file_records \<Rightarrow> nat) \<Rightarrow> u64 \<Rightarrow> file_record \<Rightarrow> file_records \<Rightarrow> file_records" where
  "files_insert capacity i record s =
    (case positions_get (fr_positions s) i of
       Some position \<Rightarrow> s\<lparr>fr_records := (fr_records s)[position := record]\<rparr>
     | None \<Rightarrow>
        (let position = length (fr_records s); rs = fr_records s @ [record]
         in s\<lparr>fr_records := rs,
              fr_positions := positions_insert (capacity s) i position (length rs) (fr_positions s)\<rparr>))"

text \<open>\<open>Vec::swap_remove\<close>: the last element takes the place of the removed one.\<close>

definition swap_remove :: "nat \<Rightarrow> 'a list \<Rightarrow> 'a list" where
  "swap_remove position xs = (if position < length xs - 1 then (butlast xs)[position := last xs] else butlast xs)"

definition files_remove :: "(file_records \<Rightarrow> nat) \<Rightarrow> u64 \<Rightarrow> file_records \<Rightarrow> file_records" where
  "files_remove capacity i s =
    (case positions_remove i (fr_positions s) of
       (Some position, positions) \<Rightarrow>
         (let rs = swap_remove position (fr_records s)
          in if position < length rs
             then s\<lparr>fr_records := rs,
                    fr_positions := positions_insert (capacity s) (f_id (rs ! position)) position (length rs) positions\<rparr>
             else s\<lparr>fr_records := rs, fr_positions := positions\<rparr>)
     | (None, positions) \<Rightarrow> s\<lparr>fr_positions := positions\<rparr>)"

definition files_values :: "file_records \<Rightarrow> file_record list" where
  "files_values s = fr_records s"

definition files_into_records :: "file_records \<Rightarrow> file_record list" where
  "files_into_records s = fr_records s"

definition files_from_iter :: "(file_records \<Rightarrow> nat) \<Rightarrow> nat \<Rightarrow> (u64 \<times> file_record) list \<Rightarrow> file_records" where
  "files_from_iter capacity size_hint xs =
    foldl (\<lambda>s (i, record). files_insert capacity i record s) (files_with_capacity size_hint) xs"

definition files_eq :: "file_records \<Rightarrow> file_records \<Rightarrow> bool" where
  "files_eq self other \<longleftrightarrow> length (fr_records self) = length (fr_records other)
     \<and> list_all (\<lambda>record. case positions_get (fr_positions other) (f_id record) of
          Some position \<Rightarrow> fr_records other ! position = record | None \<Rightarrow> False) (fr_records self)"

text \<open>The map a file arena represents.\<close>

definition files_lookup :: "file_records \<Rightarrow> u64 \<Rightarrow> file_record option" where
  "files_lookup s = arena_lookup (positions_get (fr_positions s)) (fr_records s)"

definition files_invar :: "file_records \<Rightarrow> bool" where
  "files_invar s \<longleftrightarrow> positions_wf (fr_positions s)
     \<and> positions_ok f_id (positions_get (fr_positions s)) (fr_records s)"

lemma length_swap_remove [simp]: "length (swap_remove p xs) = length xs - 1"
  by (simp add: swap_remove_def)

lemma nth_swap_remove:
  "q < length xs - 1 \<Longrightarrow> p < length xs \<Longrightarrow>
    swap_remove p xs ! q = (if q = p then xs ! (length xs - 1) else xs ! q)"
  by (cases "xs = []") (auto simp: swap_remove_def nth_list_update nth_butlast last_conv_nth)

text \<open>Removal: the table forgets \<open>i\<close> and the moved record is found at its new place.\<close>

lemma positions_ok_swap_remove:
  assumes ok: "positions_ok key pos rs" and p: "pos i = Some p"
    and pos': "\<And>j. pos' j = (if p < length rs - 1 \<and> j = key (rs ! (length rs - 1)) then Some p
                         else if j = i then None else pos j)"
  shows "positions_ok key pos' (swap_remove p rs)"
    and "arena_lookup pos' (swap_remove p rs) = (arena_lookup pos rs)(i := None)"
proof -
  let ?n = "length rs - 1"
  have pl: "p < length rs" and kp: "key (rs ! p) = i" using arena_lookup_bound [OF ok p] by auto
  have nl: "?n < length rs" using pl by linarith
  have inj: "key (rs ! a) = key (rs ! b) \<Longrightarrow> a < length rs \<Longrightarrow> b < length rs \<Longrightarrow> a = b" for a b
    using positions_ok_distinct [OF ok] nth_eq_iff_index_eq [of "map key rs" a b] by simp
  have slot: "pos j = Some q \<longleftrightarrow> q < length rs \<and> key (rs ! q) = j" for j q
    by (rule positions_okD [OF ok])
  have iff: "pos' j = Some q \<longleftrightarrow> q < ?n \<and> key (swap_remove p rs ! q) = j" for j q
  proof (cases "p < ?n \<and> j = key (rs ! ?n)")
    case True
    then have "q < ?n \<Longrightarrow> key (swap_remove p rs ! q) = j \<longleftrightarrow> q = p"
      using inj [OF _ _ nl, of q] nl pl by (auto simp: nth_swap_remove)
    with True show ?thesis by (auto simp: pos')
  next
    case False
    have "pos' j = (if j = i then None else pos j)" using False by (auto simp: pos')
    moreover have "q < ?n \<and> key (swap_remove p rs ! q) = j \<longleftrightarrow> j \<noteq> i \<and> q < length rs \<and> key (rs ! q) = j"
    proof (cases "q < ?n")
      case True
      then have q: "q < length rs" and sr: "swap_remove p rs ! q = (if q = p then rs ! ?n else rs ! q)"
        using pl by (auto simp: nth_swap_remove)
      show ?thesis
      proof (cases "q = p")
        case True
        with \<open>q < ?n\<close> False kp sr show ?thesis by auto
      next
        case False
        with inj [OF _ q pl] kp have "key (rs ! q) \<noteq> i" by auto
        with False True sr q show ?thesis by auto
      qed
    next
      case qn: False
      have "q < length rs \<Longrightarrow> q = ?n" using qn by linarith
      moreover have "p < ?n \<or> p = ?n" using pl by linarith
      ultimately show ?thesis using False qn kp by auto
    qed
    ultimately show ?thesis by (simp add: slot)
  qed
  then show "positions_ok key pos' (swap_remove p rs)" by (simp add: positions_ok_def)
  show "arena_lookup pos' (swap_remove p rs) = (arena_lookup pos rs)(i := None)"
  proof
    fix j
    have pn: "p < ?n \<or> p = ?n" using pl by linarith
    consider "j = i" | "j \<noteq> i" "p < ?n \<and> j = key (rs ! ?n)" | "j \<noteq> i" "\<not> (p < ?n \<and> j = key (rs ! ?n))"
      by blast
    then show "arena_lookup pos' (swap_remove p rs) j = ((arena_lookup pos rs)(i := None)) j"
    proof cases
      case 1
      then have "\<not> (p < ?n \<and> j = key (rs ! ?n))" using inj [OF _ pl nl] kp by auto
      with 1 show ?thesis by (simp add: arena_lookup_def pos' del: One_nat_def)
    next
      case 2
      then have "pos j = Some ?n" using nl by (simp add: slot)
      with 2 show ?thesis using pl by (simp add: arena_lookup_def pos' nth_swap_remove)
    next
      case 3
      then have pj: "pos' j = pos j" unfolding pos' by auto
      show ?thesis
      proof (cases "pos j")
        case (Some q)
        then have q: "q < length rs" "key (rs ! q) = j" by (simp_all add: slot)
        then have "q \<noteq> p" "q \<noteq> ?n" using 3 kp pn by auto
        moreover from this q have "q < ?n" by linarith
        ultimately show ?thesis using 3 pj Some pl by (simp add: arena_lookup_def nth_swap_remove)
      qed (use 3 pj in \<open>simp add: arena_lookup_def\<close>)
    qed
  qed
qed

lemma files_insert_correct:
  assumes "files_invar s"
  shows "files_invar (files_insert capacity (f_id r) r s)
    \<and> files_lookup (files_insert capacity (f_id r) r s) = (files_lookup s)(f_id r \<mapsto> r)"
proof -
  from assms have wf: "positions_wf (fr_positions s)"
    and ok: "positions_ok f_id (positions_get (fr_positions s)) (fr_records s)"
    by (simp_all add: files_invar_def)
  show ?thesis
  proof (cases "positions_get (fr_positions s) (f_id r)")
    case None
    let ?pos = "positions_get (positions_insert (capacity s) (f_id r) (length (fr_records s))
        (length (fr_records s) + 1) (fr_positions s))"
    have upd: "?pos i = (if i = f_id r then Some (length (fr_records s)) else positions_get (fr_positions s) i)" for i
      by (simp add: positions_insert_get [OF wf])
    from positions_ok_append [OF ok None upd] arena_lookup_append [OF ok upd] show ?thesis
      using None positions_insert_get [OF wf]
      by (simp add: files_insert_def files_invar_def files_lookup_def Let_def fun_upd_def)
  next
    case (Some p)
    with positions_ok_update [OF ok Some] arena_lookup_update [OF ok Some] wf show ?thesis
      by (simp add: files_insert_def files_invar_def files_lookup_def)
  qed
qed

lemma files_remove_correct:
  assumes "files_invar s"
  shows "files_invar (files_remove capacity i s)
    \<and> files_lookup (files_remove capacity i s) = (files_lookup s)(i := None)"
proof -
  from assms have wf: "positions_wf (fr_positions s)"
    and ok: "positions_ok f_id (positions_get (fr_positions s)) (fr_records s)"
    by (simp_all add: files_invar_def)
  let ?rest = "snd (positions_remove i (fr_positions s))" and ?rs = "fr_records s"
  have rest: "positions_get ?rest = (positions_get (fr_positions s))(i := None)" "positions_wf ?rest"
    using positions_remove_get wf by auto
  show ?thesis
  proof (cases "positions_get (fr_positions s) i")
    case None
    then have same: "positions_get ?rest = positions_get (fr_positions s)" by (simp add: rest fun_eq_iff)
    have "files_remove capacity i s = s\<lparr>fr_positions := ?rest\<rparr>"
      using None positions_remove_get(1) [of i "fr_positions s"]
      by (auto simp: files_remove_def split: prod.splits)
    moreover have "(files_lookup s)(i := None) = files_lookup s"
      using None by (auto simp: files_lookup_def arena_lookup_def fun_eq_iff)
    ultimately show ?thesis
      using ok rest(2) by (simp add: files_invar_def files_lookup_def same)
  next
    case (Some p)
    let ?moved = "f_id (?rs ! (length ?rs - 1))" and ?p' = "if p < length ?rs - 1 then
       positions_insert (capacity s) (f_id (?rs ! (length ?rs - 1))) p (length ?rs - 1) ?rest else ?rest"
    have pl: "p < length ?rs" using arena_lookup_bound [OF ok Some] by simp
    have r: "files_remove capacity i s = s\<lparr>fr_records := swap_remove p ?rs, fr_positions := ?p'\<rparr>"
      using Some pl positions_remove_get(1) [of i "fr_positions s"]
      by (auto simp: files_remove_def Let_def nth_swap_remove split: prod.splits)
    have pos': "positions_get ?p' j = (if p < length ?rs - 1 \<and> j = ?moved then Some p
        else if j = i then None else positions_get (fr_positions s) j)" for j
      by (simp add: positions_insert_get [OF rest(2)] rest(1))
    have "positions_wf ?p'" using positions_insert_get [OF rest(2)] rest(2) by simp
    with positions_ok_swap_remove [OF ok Some pos'] show ?thesis
      by (simp add: r files_invar_def files_lookup_def)
  qed
qed

interpretation files: removable_store "files_with_capacity hint" "files_insert capacity" files_lookup
  files_values f_id files_invar "files_remove capacity" for hint capacity
proof unfold_locales
  show "files_invar (files_with_capacity hint)"
    by (simp add: files_invar_def files_with_capacity_def positions_with_capacity_def positions_ok_def)
  show "files_lookup (files_with_capacity hint) = Map.empty"
    by (simp add: files_lookup_def files_with_capacity_def positions_with_capacity_def
        arena_lookup_def fun_eq_iff)
next
  fix s r assume s: "files_invar s"
  then have ok: "positions_ok f_id (positions_get (fr_positions s)) (fr_records s)"
    by (simp add: files_invar_def)
  show "files_invar (files_insert capacity (f_id r) r s)"
    "files_lookup (files_insert capacity (f_id r) r s) = (files_lookup s)(f_id r \<mapsto> r)"
    using files_insert_correct [OF s] by blast+
  show "r \<in> set (files_values s) \<longleftrightarrow> files_lookup s (f_id r) = Some r"
    using positions_ok_mem [OF ok] by (simp add: files_values_def files_lookup_def arena_lookup_def)
  show "distinct (map f_id (files_values s))"
    using ok by (simp add: files_values_def positions_ok_distinct)
  show "files_lookup s i = Some r \<Longrightarrow> f_id r = i" for i
    using arena_lookup_key [OF ok] by (simp add: files_lookup_def)
  show "files_invar (files_remove capacity i s)"
    "files_lookup (files_remove capacity i s) = (files_lookup s)(i := None)" for i
    using files_remove_correct [OF s] by blast+
qed

text \<open>The file table runs a sequence of insertions and removals like a map does.\<close>

datatype file_op = Put file_record | Delete u64

fun files_run :: "(file_records \<Rightarrow> nat) \<Rightarrow> file_op list \<Rightarrow> file_records \<Rightarrow> file_records" where
  "files_run capacity [] s = s"
| "files_run capacity (Put r # ops) s = files_run capacity ops (files_insert capacity (f_id r) r s)"
| "files_run capacity (Delete i # ops) s = files_run capacity ops (files_remove capacity i s)"

fun map_run :: "file_op list \<Rightarrow> (u64 \<rightharpoonup> file_record) \<Rightarrow> (u64 \<rightharpoonup> file_record)" where
  "map_run [] m = m"
| "map_run (Put r # ops) m = map_run ops (m(f_id r \<mapsto> r))"
| "map_run (Delete i # ops) m = map_run ops (m(i := None))"

lemma files_run_invar:
  "files_invar s \<Longrightarrow> files_invar (files_run capacity ops s)
    \<and> files_lookup (files_run capacity ops s) = map_run ops (files_lookup s)"
proof (induction ops arbitrary: s)
  case (Cons op ops)
  then show ?case
    by (cases op) (simp_all add: files.invar_insert files.lookup_insert files.invar_remove files.lookup_remove
        fun_upd_def)
qed simp

text \<open>
  C6. The compact file table refines a finite map from ids to records: after any sequence of insertions and
  removals, with the position index dense or promoted to sparse at any point, looking an id up gives what the
  map gives, and the representation invariant between records and positions holds.
\<close>

theorem file_table_refines_map:
  "files_lookup (files_run capacity ops (files_with_capacity hint)) = map_run ops Map.empty
    \<and> files_invar (files_run capacity ops (files_with_capacity hint))"
  using files_run_invar [OF files.invar_empty] by (simp add: files.lookup_empty)

lemma arena_mem: "positions_ok key pos rs \<Longrightarrow> r \<in> set rs \<longleftrightarrow> arena_lookup pos rs (key r) = Some r"
  by (simp only: arena_lookup_def positions_ok_mem)

lemma arena_eq_iff:
  assumes "positions_ok key pos rs" "positions_ok key pos' rs'"
  shows "arena_lookup pos rs = arena_lookup pos' rs' \<longleftrightarrow>
    length rs = length rs' \<and> list_all (\<lambda>r. arena_lookup pos' rs' (key r) = Some r) rs"
proof
  assume eq: "arena_lookup pos rs = arena_lookup pos' rs'"
  have "r \<in> set rs \<longleftrightarrow> r \<in> set rs'" for r
    by (simp only: arena_mem [OF assms(1)] arena_mem [OF assms(2)] eq)
  then have "set rs = set rs'" by blast
  moreover have "distinct rs" "distinct rs'"
    using assms positions_ok_distinct distinct_map by blast+
  ultimately have "length rs = length rs'" by (metis distinct_card)
  moreover have "arena_lookup pos' rs' (key r) = Some r" if "r \<in> set rs" for r
    using that by (simp only: arena_mem [OF assms(1)] eq)
  ultimately show "length rs = length rs' \<and> list_all (\<lambda>r. arena_lookup pos' rs' (key r) = Some r) rs"
    by (simp add: list_all_iff)
next
  assume r: "length rs = length rs' \<and> list_all (\<lambda>r. arena_lookup pos' rs' (key r) = Some r) rs"
  then have "set rs \<subseteq> set rs'"
    by (auto simp: list_all_iff arena_mem [OF assms(2)])
  then have "set rs = set rs'"
    using values_length_le assms [THEN positions_ok_distinct] r by blast
  then have mem: "arena_lookup pos rs (key r) = Some r \<longleftrightarrow> arena_lookup pos' rs' (key r) = Some r" for r
    by (simp only: arena_mem [OF assms(1), symmetric] arena_mem [OF assms(2), symmetric])
  show "arena_lookup pos rs = arena_lookup pos' rs'"
  proof
    fix i
    have "arena_lookup pos rs i = Some r \<longleftrightarrow> arena_lookup pos' rs' i = Some r" for r
      using mem [of r] arena_lookup_key [OF assms(1), of i r] arena_lookup_key [OF assms(2), of i r]
      by auto
    then show "arena_lookup pos rs i = arena_lookup pos' rs' i" by (metis not_Some_eq)
  qed
qed

lemma files_eq_lookup: "files_invar s \<Longrightarrow> files_invar t \<Longrightarrow> files_eq s t \<longleftrightarrow> files_lookup s = files_lookup t"
proof -
  assume "files_invar s" "files_invar t"
  then have "files_lookup s = files_lookup t \<longleftrightarrow> length (fr_records s) = length (fr_records t)
      \<and> list_all (\<lambda>r. files_lookup t (f_id r) = Some r) (fr_records s)"
    unfolding files_lookup_def files_invar_def by (intro arena_eq_iff) auto
  moreover have "(case positions_get (fr_positions t) (f_id r) of Some p \<Rightarrow> fr_records t ! p = r | None \<Rightarrow> False)
      \<longleftrightarrow> files_lookup t (f_id r) = Some r" for r
    by (auto simp: files_lookup_def arena_lookup_def split: option.splits)
  ultimately show ?thesis by (simp add: files_eq_def)
qed

lemma dirs_eq_lookup: "dirs_invar s \<Longrightarrow> dirs_invar t \<Longrightarrow> dirs_eq s t \<longleftrightarrow> dirs_get s = dirs_get t"
  unfolding dirs_get_arena dirs_invar_def
  by (subst arena_eq_iff) (auto simp: dirs_eq_def dirs_get_arena)

section \<open>Volumes and sessions\<close>

text \<open>A \<open>HashMap\<close> as an association list in some iteration order, one entry per key.\<close>

type_synonym 'v hash_map = "(u64 \<times> 'v) list"

definition hm_insert :: "u64 \<Rightarrow> 'v \<Rightarrow> 'v hash_map \<Rightarrow> 'v hash_map" where
  "hm_insert k v m = AList.update k v m"

definition hm_values :: "'v hash_map \<Rightarrow> 'v list" where
  "hm_values m = map snd m"

definition hm_invar :: "('v \<Rightarrow> u64) \<Rightarrow> 'v hash_map \<Rightarrow> bool" where
  "hm_invar key m \<longleftrightarrow> distinct (map fst m) \<and> list_all (\<lambda>(k, v). key v = k) m"

lemma hm_store: "record_store [] hm_insert map_of hm_values key (hm_invar key)"
proof unfold_locales
  show "hm_invar key []" "map_of [] = Map.empty" by (simp_all add: hm_invar_def)
next
  fix m r assume m: "hm_invar key m"
  have "set (AList.update (key r) r m) \<subseteq> insert (key r, r) (set m)"
    by (induction m) auto
  with m show "hm_invar key (hm_insert (key r) r m)"
    by (auto simp: hm_invar_def hm_insert_def distinct_update list_all_iff)
  show "map_of (hm_insert (key r) r m) = (map_of m)(key r \<mapsto> r)"
    by (simp add: hm_insert_def update_conv')
  have keys: "map key (hm_values m) = map fst m"
    using m by (auto simp: hm_invar_def hm_values_def list_all_iff)
  then show "distinct (map key (hm_values m))" using m by (simp add: hm_invar_def)
  show k: "map_of m i = Some r \<Longrightarrow> key r = i" for i
    using m by (auto simp: hm_invar_def list_all_iff dest!: map_of_SomeD)
  show "r \<in> set (hm_values m) \<longleftrightarrow> map_of m (key r) = Some r"
  proof
    assume "r \<in> set (hm_values m)"
    then obtain k where "(k, r) \<in> set m" by (auto simp: hm_values_def)
    moreover from this have "k = key r" using m by (auto simp: hm_invar_def list_all_iff)
    ultimately show "map_of m (key r) = Some r" using m by (simp add: hm_invar_def)
  qed (force simp: hm_values_def dest: map_of_SomeD)
qed

interpretation volumes: record_store "[]" hm_insert map_of hm_values v_id "hm_invar v_id"
  by (rule hm_store)

interpretation sessions: record_store "[]" hm_insert map_of hm_values s_session_id "hm_invar s_session_id"
  by (rule hm_store)

end
