(* ===== verification/Index_Transaction.thy ===== *)
theory Index_Transaction
  imports Record_Stores
begin

text \<open>
  \<open>BufferedIndexTransaction\<close> of \<open>store.rs\<close>: the in-memory index, its snapshots, the incremental
  update by a change set, and the two remappings that align a rescan with the previous index by
  path. A \<open>shuffle\<close> argument stands for the order an unstable sort leaves equal keys in, \<open>capacity\<close>
  for \<open>Vec::capacity\<close>.
\<close>

record buffered_index_transaction =
  t_volumes :: "volume_record hash_map"
  t_sessions :: "scan_session hash_map"
  t_directories :: directory_records
  t_files :: file_records
  t_lineages :: "file_lineage_record list"
  t_file_changes :: "file_change_set list"
  t_committed :: bool

definition transaction_default :: buffered_index_transaction where
  "transaction_default = \<lparr>t_volumes = [], t_sessions = [], t_directories = dirs_with_capacity,
     t_files = files_default, t_lineages = [], t_file_changes = [], t_committed = False\<rparr>"

definition transaction_invar :: "buffered_index_transaction \<Rightarrow> bool" where
  "transaction_invar t \<longleftrightarrow> hm_invar v_id (t_volumes t) \<and> hm_invar s_session_id (t_sessions t)
     \<and> dirs_invar (t_directories t) \<and> files_invar (t_files t)"

section \<open>Operations\<close>

definition upsert_volume :: "volume_record \<Rightarrow> buffered_index_transaction \<Rightarrow> buffered_index_transaction" where
  "upsert_volume volume t = t\<lparr>t_volumes := hm_insert (v_id volume) volume (t_volumes t)\<rparr>"

definition upsert_session :: "scan_session \<Rightarrow> buffered_index_transaction \<Rightarrow> buffered_index_transaction" where
  "upsert_session session t = t\<lparr>t_sessions := hm_insert (s_session_id session) session (t_sessions t)\<rparr>"

definition upsert_directory :: "directory_record \<Rightarrow> buffered_index_transaction \<Rightarrow> buffered_index_transaction" where
  "upsert_directory directory t = t\<lparr>t_directories := dirs_insert (d_id directory) directory (t_directories t)\<rparr>"

definition upsert_file ::
  "(file_records \<Rightarrow> nat) \<Rightarrow> file_record \<Rightarrow> buffered_index_transaction \<Rightarrow> buffered_index_transaction" where
  "upsert_file capacity f t = t\<lparr>t_files := files_insert capacity (f_id f) f (t_files t)\<rparr>"

definition into_record_vecs ::
  "buffered_index_transaction \<Rightarrow> volume_record list \<times> directory_record list \<times> file_record list" where
  "into_record_vecs t = (hm_values (t_volumes t), dirs_into_records (t_directories t), files_into_records (t_files t))"

definition commit :: "buffered_index_transaction \<Rightarrow> buffered_index_transaction" where
  "commit t = t\<lparr>t_committed := True\<rparr>"

definition reserve :: "nat \<Rightarrow> buffered_index_transaction \<Rightarrow> buffered_index_transaction" where
  "reserve files t = t\<lparr>t_files := files_reserve files (t_files t)\<rparr>"

definition snapshot_volumes :: "(volume_record list \<Rightarrow> volume_record list) \<Rightarrow> buffered_index_transaction \<Rightarrow> volume_record list" where
  "snapshot_volumes shuffle t = sort_unstable_by_key shuffle v_id (hm_values (t_volumes t))"

definition snapshot_sessions :: "(scan_session list \<Rightarrow> scan_session list) \<Rightarrow> buffered_index_transaction \<Rightarrow> scan_session list" where
  "snapshot_sessions shuffle t = sort_unstable_by_key shuffle s_session_id (hm_values (t_sessions t))"

definition snapshot_directories ::
  "(directory_record list \<Rightarrow> directory_record list) \<Rightarrow> buffered_index_transaction \<Rightarrow> directory_record list" where
  "snapshot_directories shuffle t = sort_unstable_by_key shuffle d_id (dirs_values (t_directories t))"

definition snapshot_files :: "(file_record list \<Rightarrow> file_record list) \<Rightarrow> buffered_index_transaction \<Rightarrow> file_record list" where
  "snapshot_files shuffle t = sort_unstable_by_key shuffle f_id (files_values (t_files t))"

definition auxiliary_parts ::
  "(scan_session list \<Rightarrow> scan_session list) \<Rightarrow> buffered_index_transaction \<Rightarrow>
   scan_session list \<times> file_lineage_record list \<times> file_change_set list" where
  "auxiliary_parts shuffle t = (sort_unstable_by_key shuffle s_session_id (hm_values (t_sessions t)),
     t_lineages t, t_file_changes t)"

definition materialize_path :: "directory_records \<Rightarrow> file_record \<Rightarrow> file_record" where
  "materialize_path directories f =
    (if f_full_path f = [] then
       f\<lparr>f_full_path := (case dirs_get directories (f_parent_directory_id f) of
           Some parent \<Rightarrow> join_path (d_full_path parent) (f_name f)
         | None \<Rightarrow> f_name f)\<rparr>
     else f)"

definition snapshot_files_with_paths ::
  "(file_record list \<Rightarrow> file_record list) \<Rightarrow> buffered_index_transaction \<Rightarrow> file_record list" where
  "snapshot_files_with_paths shuffle t = map (materialize_path (t_directories t)) (snapshot_files shuffle t)"

definition apply_change ::
  "(file_records \<Rightarrow> nat) \<Rightarrow> (u64 \<rightharpoonup> file_record) \<Rightarrow> (u64 \<rightharpoonup> file_record) \<Rightarrow> file_change_record \<Rightarrow>
   buffered_index_transaction \<Rightarrow> buffered_index_transaction" where
  "apply_change capacity previous_by_id current_by_id change t =
    (if c_kind change = Removed then
       t\<lparr>t_files := files_remove capacity (c_file_id change) (t_files t)\<rparr>
     else
       let t = (case current_by_id (c_file_id change) of
                  Some r \<Rightarrow> t\<lparr>t_files := files_insert capacity (f_id r) r (t_files t)\<rparr>
                | None \<Rightarrow> t)
       in case previous_by_id (c_file_id change) of
            None \<Rightarrow> t
          | Some previous_record \<Rightarrow>
              (case current_by_id (c_file_id change) of
                 None \<Rightarrow> t
               | Some current_record \<Rightarrow>
                   (case detect_file_lineage_change previous_record current_record of
                      None \<Rightarrow> t
                    | Some lineage \<Rightarrow> t\<lparr>t_lineages := t_lineages t @ [lineage]\<rparr>)))"

definition apply_incremental_files ::
  "(file_records \<Rightarrow> nat) \<Rightarrow> file_record list \<Rightarrow> file_record list \<Rightarrow> buffered_index_transaction \<Rightarrow>
   buffered_index_transaction \<times> file_change_set" where
  "apply_incremental_files capacity previous current t =
    (let change_set = diff_file_records previous current in
     if change_set = [] then (t\<lparr>t_file_changes := t_file_changes t @ [change_set]\<rparr>, change_set)
     else
       let current_by_id = index_by f_id current;
           previous_by_id = index_by f_id previous;
           t = foldl (\<lambda>t change. apply_change capacity previous_by_id current_by_id change t) t change_set
       in (t\<lparr>t_file_changes := t_file_changes t @ [change_set]\<rparr>, change_set))"

section \<open>The invariant and the snapshots\<close>

lemma files_default_capacity: "files_default = files_with_capacity 0"
  by (simp add: files_default_def files_with_capacity_def positions_with_capacity_def)

lemma transaction_invar_default: "transaction_invar transaction_default"
  using volumes.invar_empty sessions.invar_empty dirs.invar_empty files.invar_empty [of 0]
  by (simp add: transaction_invar_def transaction_default_def files_default_capacity)

lemma transaction_invar_upsert:
  assumes "transaction_invar t"
  shows "transaction_invar (upsert_volume v t)" "transaction_invar (upsert_session s t)"
    "transaction_invar (upsert_directory d t)" "transaction_invar (upsert_file capacity f t)"
    "transaction_invar (commit t)"
  using assms
  by (simp_all add: transaction_invar_def upsert_volume_def upsert_session_def upsert_directory_def
      upsert_file_def commit_def volumes.invar_insert sessions.invar_insert dirs.invar_insert files.invar_insert)

lemma snapshots_eq:
  assumes "transaction_invar t"
  shows "shuffles fv \<Longrightarrow> snapshot_volumes fv t = volumes.snapshot (t_volumes t)"
    "shuffles fs \<Longrightarrow> snapshot_sessions fs t = sessions.snapshot (t_sessions t)"
    "shuffles fd \<Longrightarrow> snapshot_directories fd t = dirs.snapshot (t_directories t)"
    "shuffles ff \<Longrightarrow> snapshot_files ff t = files.snapshot (t_files t)"
  using assms
  by (simp_all add: transaction_invar_def snapshot_volumes_def snapshot_sessions_def
      snapshot_directories_def snapshot_files_def volumes.sort_unstable_snapshot
      sessions.sort_unstable_snapshot dirs.sort_unstable_snapshot files.sort_unstable_snapshot)


section \<open>The incremental update\<close>

lemma apply_change_files:
  assumes "files_invar (t_files t)"
  shows "files_invar (t_files (apply_change capacity p c change t))
    \<and> files_lookup (t_files (apply_change capacity p c change t)) =
       (if c_kind change = Removed then (files_lookup (t_files t))(c_file_id change := None)
        else case c (c_file_id change) of Some r \<Rightarrow> (files_lookup (t_files t))(f_id r \<mapsto> r)
             | None \<Rightarrow> files_lookup (t_files t))"
  using assms
  by (auto simp: apply_change_def Let_def files.invar_insert files.lookup_insert files.invar_remove
      files.lookup_remove fun_upd_def split: option.splits)

lemma apply_change_other [simp]:
  "t_volumes (apply_change capacity p c change t) = t_volumes t"
  "t_sessions (apply_change capacity p c change t) = t_sessions t"
  "t_directories (apply_change capacity p c change t) = t_directories t"
  "t_file_changes (apply_change capacity p c change t) = t_file_changes t"
  "t_committed (apply_change capacity p c change t) = t_committed t"
  by (auto simp: apply_change_def Let_def split: option.splits)

text \<open>What a list of changes with distinct ids does to the map.\<close>

lemma foldl_apply_change:
  assumes "files_invar (t_files t)" and "distinct (map c_file_id cs)"
    and ids: "\<And>i r. c i = Some r \<Longrightarrow> f_id r = i"
  shows "files_invar (t_files (foldl (\<lambda>t x. apply_change capacity p c x t) t cs)) \<and>
    files_lookup (t_files (foldl (\<lambda>t x. apply_change capacity p c x t) t cs)) i =
     (case find (\<lambda>x. c_file_id x = i) cs of
        None \<Rightarrow> files_lookup (t_files t) i
      | Some x \<Rightarrow> if c_kind x = Removed then None
          else case c i of Some r \<Rightarrow> Some r | None \<Rightarrow> files_lookup (t_files t) i)"
  using assms(1,2)
proof (induction cs arbitrary: t)
  case (Cons x xs)
  note step = apply_change_files [OF Cons.prems(1), of capacity p c x]
  from step have "files_invar (t_files (apply_change capacity p c x t))" by blast
  note IH = Cons.IH [OF this] and none = find_None_iff [of "\<lambda>x. c_file_id x = i" xs]
  show ?case
  proof (cases "c_file_id x = i")
    case True
    with Cons.prems have "find (\<lambda>x. c_file_id x = i) xs = None"
      by (auto simp: none image_iff)
    with IH Cons.prems step True ids show ?thesis by (auto split: option.splits)
  next
    case False
    with IH Cons.prems step ids show ?thesis by (auto split: option.splits)
  qed
qed simp

lemma find_change_expected:
  assumes "distinct (map f_id previous)" "distinct (map f_id current)"
  shows "map_option c_kind (find (\<lambda>x. c_file_id x = i) (diff_slow previous current))
    = expected_change previous current i"
proof (cases "find (\<lambda>x. c_file_id x = i) (diff_slow previous current)")
  case None
  then have "\<not> (\<exists>c\<in>set (diff_slow previous current). c_file_id c = i \<and> c_kind c = k)" for k
    by (auto simp: find_None_iff)
  then have "expected_change previous current i \<noteq> Some k" for k
    using diff_slow_mem [OF assms, of i k] by blast
  with None show ?thesis by (cases "expected_change previous current i") auto
next
  case (Some x)
  then have "x \<in> set (diff_slow previous current)" "c_file_id x = i"
    by (auto simp: find_Some_iff)
  then have "expected_change previous current i = Some (c_kind x)"
    using diff_slow_mem [OF assms, of i "c_kind x"] by blast
  with Some show ?thesis by simp
qed

lemma apply_incremental_lookup:
  assumes "files_invar (t_files t)" "distinct (map f_id previous)" "distinct (map f_id current)"
  shows "files_invar (t_files (fst (apply_incremental_files capacity previous current t))) \<and>
    files_lookup (t_files (fst (apply_incremental_files capacity previous current t))) i =
     (case expected_change previous current i of
        None \<Rightarrow> files_lookup (t_files t) i
      | Some k \<Rightarrow> if k = Removed then None else index_by f_id current i)"
proof -
  let ?d = "diff_slow previous current"
  let ?t = "foldl (\<lambda>t x. apply_change capacity (index_by f_id previous) (index_by f_id current) x t) t ?d"
  have run: "t_files (fst (apply_incremental_files capacity previous current t)) = t_files ?t"
    by (cases "?d = []") (simp_all add: apply_incremental_files_def diff_file_records_slow Let_def)
  have ids: "f_id r = j" if "index_by f_id current j = Some r" for j r
    using that by (auto dest: index_by_SomeD)
  note fold = foldl_apply_change [OF assms(1) diff_slow_distinct [OF assms(2,3)] ids,
      where c = "index_by f_id current" and p = "index_by f_id previous" and i = i and capacity = capacity]
  note kind = find_change_expected [OF assms(2,3), of i]
  have c: "index_by f_id current i \<noteq> None" if "expected_change previous current i = Some k" "k \<noteq> Removed" for k
    using that by (auto simp: expected_change_def split: option.splits)
  show ?thesis
    unfolding run
    using fold kind c by (auto dest: index_by_SomeD split: option.splits)
qed

text \<open>Equal in everything the change detection looks at, that is up to the stored path.\<close>

definition same_files :: "(u64 \<rightharpoonup> file_record) \<Rightarrow> (u64 \<rightharpoonup> file_record) \<Rightarrow> bool" where
  "same_files m m' \<longleftrightarrow> (\<forall>i. case (m i, m' i) of (None, None) \<Rightarrow> True
     | (Some a, Some b) \<Rightarrow> f_id a = f_id b \<and> unchanged a b | _ \<Rightarrow> False)"

lemma unchanged_sym: "unchanged a b \<Longrightarrow> unchanged b a"
  by (simp add: unchanged_def)

lemma unchanged_trans: "unchanged a b \<Longrightarrow> unchanged b c \<Longrightarrow> unchanged a c"
  by (simp add: unchanged_def)

lemma apply_incremental_reaches_current:
  assumes "files_invar (t_files t)" "distinct (map f_id previous)" "distinct (map f_id current)"
    and old: "same_files (files_lookup (t_files t)) (index_by f_id previous)"
  shows "same_files (files_lookup (t_files (fst (apply_incremental_files capacity previous current t))))
           (index_by f_id current)"
  unfolding same_files_def
proof
  fix i
  note new = apply_incremental_lookup [OF assms(1-3), of capacity i]
  from old have "case (files_lookup (t_files t) i, index_by f_id previous i) of (None, None) \<Rightarrow> True
     | (Some a, Some b) \<Rightarrow> f_id a = f_id b \<and> unchanged a b | _ \<Rightarrow> False"
    by (simp add: same_files_def)
  with new show "case (files_lookup (t_files (fst (apply_incremental_files capacity previous current t))) i,
      index_by f_id current i) of (None, None) \<Rightarrow> True
     | (Some a, Some b) \<Rightarrow> f_id a = f_id b \<and> unchanged a b | _ \<Rightarrow> False"
    by (auto simp: expected_change_def dest: index_by_SomeD intro: unchanged_trans
        split: option.splits if_splits)
qed


lemma apply_incremental_other [simp]:
  "t_volumes (fst (apply_incremental_files capacity previous current t)) = t_volumes t"
  "t_sessions (fst (apply_incremental_files capacity previous current t)) = t_sessions t"
  "t_directories (fst (apply_incremental_files capacity previous current t)) = t_directories t"
  "t_committed (fst (apply_incremental_files capacity previous current t)) = t_committed t"
  "t_file_changes (fst (apply_incremental_files capacity previous current t)) =
    t_file_changes t @ [diff_file_records previous current]"
  "snd (apply_incremental_files capacity previous current t) = diff_file_records previous current"
proof -
  have fold: "t_volumes (foldl (\<lambda>t x. apply_change capacity p c x t) t cs) = t_volumes t"
    "t_sessions (foldl (\<lambda>t x. apply_change capacity p c x t) t cs) = t_sessions t"
    "t_directories (foldl (\<lambda>t x. apply_change capacity p c x t) t cs) = t_directories t"
    "t_committed (foldl (\<lambda>t x. apply_change capacity p c x t) t cs) = t_committed t"
    "t_file_changes (foldl (\<lambda>t x. apply_change capacity p c x t) t cs) = t_file_changes t" for p c cs
    by (induction cs arbitrary: t) simp_all
  show "t_volumes (fst (apply_incremental_files capacity previous current t)) = t_volumes t"
  "t_sessions (fst (apply_incremental_files capacity previous current t)) = t_sessions t"
  "t_directories (fst (apply_incremental_files capacity previous current t)) = t_directories t"
  "t_committed (fst (apply_incremental_files capacity previous current t)) = t_committed t"
  "t_file_changes (fst (apply_incremental_files capacity previous current t)) =
    t_file_changes t @ [diff_file_records previous current]"
  "snd (apply_incremental_files capacity previous current t) = diff_file_records previous current"
    by (simp_all add: apply_incremental_files_def Let_def fold)
qed

lemma f_id_materialize [simp]: "f_id (materialize_path d f) = f_id f"
  by (simp add: materialize_path_def)

lemma unchanged_materialize: "unchanged f (materialize_path d f)"
  by (simp add: unchanged_def materialize_path_def f_created_utc_def f_modified_utc_def f_accessed_utc_def)

text \<open>The path-carrying snapshot is the file table, up to the stored paths.\<close>

lemma snapshot_with_paths_distinct:
  assumes "transaction_invar t" "shuffles f"
  shows "distinct (map f_id (snapshot_files_with_paths f t))"
proof -
  have "map f_id (snapshot_files_with_paths f t) = map f_id (files.snapshot (t_files t))"
    by (simp add: snapshot_files_with_paths_def snapshots_eq(4) [OF assms] comp_def)
  moreover have "distinct (map f_id (files.snapshot (t_files t)))"
    using assms(1) by (intro files.snapshot_distinct) (simp add: transaction_invar_def)
  ultimately show ?thesis by simp
qed

lemma index_by_map:
  assumes "\<And>r. key (g r) = key r"
  shows "index_by key (map g rs) i = map_option g (index_by key rs i)"
  by (induction rs rule: rev_induct) (simp_all add: index_by_def assms)

lemma index_by_snapshot_with_paths:
  assumes "transaction_invar t" "shuffles f"
  shows "index_by f_id (snapshot_files_with_paths f t) i
    = map_option (materialize_path (t_directories t)) (files_lookup (t_files t) i)"
proof -
  have "index_by f_id (files.snapshot (t_files t)) = files_lookup (t_files t)"
    using assms(1) by (intro files.index_by_snapshot) (simp add: transaction_invar_def)
  then show ?thesis
    by (simp add: snapshot_files_with_paths_def snapshots_eq(4) [OF assms] index_by_map)
qed

lemma same_files_with_paths:
  assumes "transaction_invar t" "shuffles f"
  shows "same_files (files_lookup (t_files t)) (index_by f_id (snapshot_files_with_paths f t))"
  using unchanged_materialize
  by (auto simp: same_files_def index_by_snapshot_with_paths [OF assms] split: option.splits)

lemma same_files_sym: "same_files m m' \<Longrightarrow> same_files m' m"
  unfolding same_files_def
proof
  fix i
  assume "\<forall>i. case (m i, m' i) of (None, None) \<Rightarrow> True
     | (Some a, Some b) \<Rightarrow> f_id a = f_id b \<and> unchanged a b | _ \<Rightarrow> False"
  then have "case (m i, m' i) of (None, None) \<Rightarrow> True
     | (Some a, Some b) \<Rightarrow> f_id a = f_id b \<and> unchanged a b | _ \<Rightarrow> False" ..
  then show "case (m' i, m i) of (None, None) \<Rightarrow> True
     | (Some a, Some b) \<Rightarrow> f_id a = f_id b \<and> unchanged a b | _ \<Rightarrow> False"
    by (auto intro: unchanged_sym split: option.splits)
qed

lemma same_files_trans:
  assumes "same_files m m'" "same_files m' m''" shows "same_files m m''"
  unfolding same_files_def
proof
  fix i
  have "case (m i, m' i) of (None, None) \<Rightarrow> True
     | (Some a, Some b) \<Rightarrow> f_id a = f_id b \<and> unchanged a b | _ \<Rightarrow> False"
    "case (m' i, m'' i) of (None, None) \<Rightarrow> True
     | (Some a, Some b) \<Rightarrow> f_id a = f_id b \<and> unchanged a b | _ \<Rightarrow> False"
    using assms by (simp_all add: same_files_def)
  then show "case (m i, m'' i) of (None, None) \<Rightarrow> True
     | (Some a, Some b) \<Rightarrow> f_id a = f_id b \<and> unchanged a b | _ \<Rightarrow> False"
    by (auto intro: unchanged_trans split: option.splits)
qed

end
