(* ===== verification/Tree_Index.thy ===== *)
theory Tree_Index
  imports Record_Sort Index_Transaction
begin

text \<open>
  \<open>TreeIndex\<close> of \<open>WinBlaze.Index/src/tree.rs\<close>: the display tree built from a transaction, with children
  as ranges of shared index vectors, per-directory rollups, paging over children and the largest-file
  views. Record indices are \<open>nat\<close>; the casts to \<open>u32\<close> are exact below \<open>2 ^ 32\<close> records. The lazily
  initialized orders (\<open>OnceLock\<close>) are the functions that compute them.
\<close>

section \<open>Looking up a directory by id\<close>

datatype directory_lookup = DenseIds u64 nat | SparseIds "u64 \<rightharpoonup> nat"

definition directory_lookup_new :: "directory_record list \<Rightarrow> directory_lookup" where
  "directory_lookup_new directories =
    (let first = (case directories of [] \<Rightarrow> 0 | d # _ \<Rightarrow> d_id d) in
     if length directories \<le> 2 ^ 32 - 1
        \<and> list_all (\<lambda>i. checked_add first (word_of_nat i) = Some (d_id (directories ! i))) [0..<length directories]
     then DenseIds first (length directories)
     else SparseIds (foldl (\<lambda>m i. m(d_id (directories ! i) \<mapsto> i)) Map.empty [0..<length directories]))"

fun directory_lookup_get :: "directory_lookup \<Rightarrow> u64 \<Rightarrow> nat option" where
  "directory_lookup_get (DenseIds first len) i =
    Option.bind (checked_sub i first) (\<lambda>index. if unat index < len then Some (unat index) else None)"
| "directory_lookup_get (SparseIds indices) i = indices i"

section \<open>The parent of every directory\<close>

definition is_root_like :: "directory_lookup \<Rightarrow> directory_record \<Rightarrow> bool" where
  "is_root_like lookup d = (case d_parent_directory_id d of
     None \<Rightarrow> True
   | Some parent \<Rightarrow> parent = d_id d \<or> directory_lookup_get lookup parent = None)"

definition choose_root :: "directory_record list \<Rightarrow> directory_lookup \<Rightarrow> nat option" where
  "choose_root directories lookup =
    (case directory_lookup_get lookup 5 of
       Some index \<Rightarrow>
         if is_root_like lookup (directories ! index) then Some index
         else find (\<lambda>i. is_root_like lookup (directories ! i)) [0..<length directories]
     | None \<Rightarrow> find (\<lambda>i. is_root_like lookup (directories ! i)) [0..<length directories])"

definition option_or :: "'a option \<Rightarrow> 'a option \<Rightarrow> 'a option" where
  "option_or a b = (case a of Some x \<Rightarrow> Some x | None \<Rightarrow> b)"

definition option_filter :: "('a \<Rightarrow> bool) \<Rightarrow> 'a option \<Rightarrow> 'a option" where
  "option_filter p a = (case a of Some x \<Rightarrow> if p x then Some x else None | None \<Rightarrow> None)"

definition structural_parent :: "directory_lookup \<Rightarrow> nat option \<Rightarrow> nat \<Rightarrow> directory_record \<Rightarrow> nat option" where
  "structural_parent lookup root index d =
    (if Some index = root then None
     else
       let structural = option_filter (\<lambda>parent. parent \<noteq> index)
             (Option.bind (option_filter (\<lambda>parent. parent \<noteq> d_id d) (d_parent_directory_id d))
               (directory_lookup_get lookup))
       in option_or structural root)"

definition dir_parents :: "directory_record list \<Rightarrow> directory_lookup \<Rightarrow> nat option \<Rightarrow> nat option list" where
  "dir_parents directories lookup root =
    map (\<lambda>i. structural_parent lookup root i (directories ! i)) [0..<length directories]"

definition file_parent :: "directory_lookup \<Rightarrow> nat option \<Rightarrow> file_record \<Rightarrow> nat option" where
  "file_parent lookup root f = option_or (directory_lookup_get lookup (f_parent_directory_id f)) root"

section \<open>Grouping children: counting, prefix sums, filling\<close>

definition count_children :: "nat \<Rightarrow> nat option list \<Rightarrow> nat list" where
  "count_children n parents =
    foldl (\<lambda>counts parent. case parent of Some p \<Rightarrow> counts[p := counts ! p + 1] | None \<Rightarrow> counts)
      (replicate n 0) parents"

fun child_ranges :: "nat \<Rightarrow> nat list \<Rightarrow> (nat \<times> nat) list" where
  "child_ranges offset [] = []"
| "child_ranges offset (c # cs) = (offset, offset + c) # child_ranges (offset + c) cs"

definition fill_child :: "nat option list \<Rightarrow> nat \<Rightarrow> nat list \<times> nat list \<Rightarrow> nat list \<times> nat list" where
  "fill_child parents child = (\<lambda>(cursors, children). case parents ! child of
     Some p \<Rightarrow> (cursors[p := cursors ! p + 1], children[cursors ! p := child])
   | None \<Rightarrow> (cursors, children))"

definition fill_children :: "(nat \<times> nat) list \<Rightarrow> nat \<Rightarrow> nat option list \<Rightarrow> nat list" where
  "fill_children ranges slots parents =
    snd (fold (fill_child parents) [0..<length parents] (map fst ranges, replicate slots 0))"

definition slice :: "nat list \<Rightarrow> nat \<times> nat \<Rightarrow> nat list" where
  "slice xs r = take (snd r - fst r) (drop (fst r) xs)"

section \<open>Rollups\<close>

record dir_rollup =
  ru_logical_bytes :: u64
  ru_physical_bytes :: u64
  ru_file_count :: u64
  ru_item_count :: u64
  ru_modified_utc_max :: "i64 option"

definition rollup_default :: dir_rollup where
  "rollup_default = \<lparr>ru_logical_bytes = 0, ru_physical_bytes = 0, ru_file_count = 0, ru_item_count = 0,
     ru_modified_utc_max = None\<rparr>"

fun max_option :: "i64 option \<Rightarrow> i64 option \<Rightarrow> i64 option" where
  "max_option (Some a) (Some b) = Some (if sint a \<le> sint b then b else a)"
| "max_option (Some a) None = Some a"
| "max_option None b = b"

definition add_file :: "file_record \<Rightarrow> dir_rollup \<Rightarrow> dir_rollup" where
  "add_file f r =
    \<lparr>ru_logical_bytes = sat_add (ru_logical_bytes r) (f_size_bytes f),
     ru_physical_bytes = sat_add (ru_physical_bytes r) (f_allocation_bytes f),
     ru_file_count = ru_file_count r + 1, ru_item_count = ru_item_count r + 1,
     ru_modified_utc_max = max_option (ru_modified_utc_max r) (f_modified_utc f)\<rparr>"

definition add_child :: "dir_rollup \<Rightarrow> dir_rollup \<Rightarrow> dir_rollup" where
  "add_child c r =
    \<lparr>ru_logical_bytes = sat_add (ru_logical_bytes r) (ru_logical_bytes c),
     ru_physical_bytes = sat_add (ru_physical_bytes r) (ru_physical_bytes c),
     ru_file_count = sat_add (ru_file_count r) (ru_file_count c),
     ru_item_count = sat_add (ru_item_count r) (sat_add (ru_item_count c) 1),
     ru_modified_utc_max = max_option (ru_modified_utc_max r) (ru_modified_utc_max c)\<rparr>"

definition direct_rollups :: "directory_lookup \<Rightarrow> nat option \<Rightarrow> nat \<Rightarrow> file_record list \<Rightarrow> dir_rollup list" where
  "direct_rollups lookup root n files =
    foldl (\<lambda>rollups f. case file_parent lookup root f of
        Some index \<Rightarrow> rollups[index := add_file f (rollups ! index)] | None \<Rightarrow> rollups)
      (replicate n rollup_default) files"

text \<open>The breadth-first order; \<open>None\<close> when the queue never empties.\<close>

partial_function (option) bfs ::
  "(nat \<Rightarrow> nat list) \<Rightarrow> nat \<Rightarrow> nat list \<Rightarrow> nat option list \<Rightarrow> (nat list \<times> nat option list) option" where
  "bfs kids cursor order parent_of =
    (if cursor < length order then
       let current = order ! cursor in
       bfs kids (cursor + 1) (order @ kids current)
         (foldl (\<lambda>po child. po[child := Some current]) parent_of (kids current))
     else Some (order, parent_of))"

definition sweep :: "nat option list \<Rightarrow> nat list \<Rightarrow> dir_rollup list \<Rightarrow> dir_rollup list" where
  "sweep parent_of order rollups =
    foldl (\<lambda>rollups index. case parent_of ! index of
        None \<Rightarrow> rollups
      | Some parent \<Rightarrow> rollups[parent := add_child (rollups ! index) (rollups ! parent)])
      rollups (rev order)"

definition compute_rollups ::
  "directory_lookup \<Rightarrow> nat option \<Rightarrow> nat \<Rightarrow> file_record list \<Rightarrow> (nat \<times> nat) list \<Rightarrow> nat list \<Rightarrow> dir_rollup list option" where
  "compute_rollups lookup root n files ranges dir_children =
    (let rollups = direct_rollups lookup root n files in
     case root of
       None \<Rightarrow> Some rollups
     | Some r \<Rightarrow> map_option (\<lambda>(order, parent_of). sweep parent_of order rollups)
         (bfs (\<lambda>p. slice dir_children (ranges ! p)) 0 [r] (replicate n None)))"

section \<open>Building\<close>

record file_export_metadata =
  em_owner :: "string option"
  em_volume_identity :: "string option"
  em_file_identity :: "string option"
  em_link_count :: "u32 option"

record tree_index =
  tr_export_metadata :: "u64 \<rightharpoonup> file_export_metadata"
  tr_volumes :: "volume_record list"
  tr_directories :: "directory_record list"
  tr_files :: "file_record list"
  tr_dir_ranges :: "(nat \<times> nat) list"
  tr_file_ranges :: "(nat \<times> nat) list"
  tr_rollups :: "dir_rollup list"
  tr_pending_dir_children :: "nat list"
  tr_lookup :: directory_lookup
  tr_root :: "nat option"

definition tree_of_sorted :: "volume_record list \<Rightarrow> directory_record list \<Rightarrow> file_record list \<Rightarrow> tree_index option" where
  "tree_of_sorted volumes directories files =
    (let lookup = directory_lookup_new directories;
         root = choose_root directories lookup;
         parents = dir_parents directories lookup root;
         n = length directories;
         dir_ranges = child_ranges 0 (count_children n parents);
         file_ranges = child_ranges 0 (count_children n (map (file_parent lookup root) files));
         dir_total = (if dir_ranges = [] then 0 else snd (last dir_ranges));
         dir_children = fill_children dir_ranges dir_total parents
     in map_option (\<lambda>rollups.
          \<lparr>tr_export_metadata = Map.empty, tr_volumes = volumes, tr_directories = directories, tr_files = files,
           tr_dir_ranges = dir_ranges, tr_file_ranges = file_ranges, tr_rollups = rollups,
           tr_pending_dir_children = dir_children, tr_lookup = lookup, tr_root = root\<rparr>)
        (compute_rollups lookup root n files dir_ranges dir_children))"

definition file_export_metadata_of :: "tree_index \<Rightarrow> u64 \<Rightarrow> file_export_metadata option" where
  "file_export_metadata_of t i = tr_export_metadata t i"

definition set_file_export_metadata :: "u64 \<Rightarrow> file_export_metadata \<Rightarrow> tree_index \<Rightarrow> tree_index" where
  "set_file_export_metadata i metadata t = t\<lparr>tr_export_metadata := (tr_export_metadata t)(i \<mapsto> metadata)\<rparr>"

definition tree_build ::
  "((u64 \<times> nat) list \<Rightarrow> (u64 \<times> nat) list) \<Rightarrow> ((u64 \<times> nat) list \<Rightarrow> (u64 \<times> nat) list) \<Rightarrow>
   buffered_index_transaction \<Rightarrow> tree_index option" where
  "tree_build f g transaction =
    (case into_record_vecs transaction of (volumes, directories, files) \<Rightarrow>
       Option.bind (sort_records_by_id f d_id directories) (\<lambda>directories.
       Option.bind (sort_records_by_id g f_id files) (\<lambda>files.
       tree_of_sorted volumes directories files)))"

text \<open>A record of each kind, for examples.\<close>

definition tree_sample_dir :: "u64 \<Rightarrow> u64 option \<Rightarrow> string \<Rightarrow> directory_record" where
  "tree_sample_dir i parent path = \<lparr>d_id = i, d_parent_directory_id = parent, d_name = path, d_full_path = path,
     d_direct_bytes = 0, d_total_bytes = 0, d_direct_entries = 0, d_total_entries = 0\<rparr>"

definition tree_sample_file :: "u64 \<Rightarrow> u64 \<Rightarrow> string \<Rightarrow> u64 \<Rightarrow> file_record" where
  "tree_sample_file i parent name bytes = \<lparr>f_id = i, f_parent_directory_id = parent, f_name = name, f_full_path = [],
     f_size_bytes = bytes, f_allocation_bytes = bytes, f_attributes = 0, f_timestamps = timestamps_new None None None\<rparr>"

section \<open>The children of a directory are its range\<close>

text \<open>The children a parent vector gives a directory, in index order.\<close>

definition kids_of :: "nat option list \<Rightarrow> nat \<Rightarrow> nat list" where
  "kids_of parents p = filter (\<lambda>c. parents ! c = Some p) [0..<length parents]"

definition kids_upto :: "nat option list \<Rightarrow> nat \<Rightarrow> nat \<Rightarrow> nat list" where
  "kids_upto parents k p = filter (\<lambda>c. parents ! c = Some p) [0..<k]"

lemma kids_upto_Suc:
  "kids_upto parents (Suc k) p = kids_upto parents k p @ (if parents ! k = Some p then [k] else [])"
  by (simp add: kids_upto_def)

lemma length_kids_upto_mono: "k \<le> m \<Longrightarrow> length (kids_upto parents k p) \<le> length (kids_upto parents m p)"
  by (induction m rule: dec_induct) (auto simp: kids_upto_Suc)

lemma count_children_length [simp]: "length (count_children n parents) = n"
proof -
  have "length (foldl (\<lambda>counts parent. case parent of Some p \<Rightarrow> counts[p := counts ! p + 1] | None \<Rightarrow> counts) cs ps)
      = length cs" for cs :: "nat list" and ps
    by (induction ps arbitrary: cs) (auto split: option.splits)
  then show ?thesis by (simp add: count_children_def)
qed

lemma count_children_nth:
  assumes "p < n" shows "count_children n parents ! p = length (kids_of parents p)"
proof -
  let ?step = "\<lambda>counts parent. case parent of Some p \<Rightarrow> counts[p := counts ! p + 1] | None \<Rightarrow> counts"
  have "p < length cs \<Longrightarrow> foldl ?step cs ps ! p = cs ! p + length (filter (\<lambda>x. x = Some p) ps)" for cs ps
    by (induction ps arbitrary: cs) (auto simp: nth_list_update split: option.splits)
  then have "count_children n parents ! p = length (filter (\<lambda>x. x = Some p) parents)"
    using assms by (simp add: count_children_def)
  also have "\<dots> = length (filter (\<lambda>x. x = Some p) (map (\<lambda>c. parents ! c) [0..<length parents]))"
    by (simp only: map_nth)
  finally show ?thesis by (simp add: filter_map comp_def kids_of_def)
qed

lemma child_ranges_nth:
  "i < length cs \<Longrightarrow> child_ranges off cs ! i = (off + sum_list (take i cs), off + sum_list (take i cs) + cs ! i)"
proof (induction cs arbitrary: off i)
  case (Cons c cs)
  then show ?case by (cases i) auto
qed simp

lemma length_child_ranges [simp]: "length (child_ranges off cs) = length cs"
  by (induction cs arbitrary: off) auto

lemma child_ranges_last: "cs \<noteq> [] \<Longrightarrow> snd (last (child_ranges off cs)) = off + sum_list cs"
proof (induction cs arbitrary: off)
  case (Cons c cs)
  have "child_ranges (off + c) cs \<noteq> []" if "cs \<noteq> []" using that by (cases cs) auto
  with Cons show ?case by (cases "cs = []") auto
qed simp

lemma fill_child_simps:
  "parents ! c = None \<Longrightarrow> fill_child parents c st = st"
  "parents ! c = Some p \<Longrightarrow> fill_child parents c (cursors, children) =
    (cursors[p := cursors ! p + 1], children[cursors ! p := c])"
  by (auto simp: fill_child_def split: prod.splits)

definition range_start :: "nat list \<Rightarrow> nat \<Rightarrow> nat" where
  "range_start counts p = sum_list (take p counts)"

lemma range_start_le: "p < q \<Longrightarrow> p < length counts \<Longrightarrow> range_start counts p + counts ! p \<le> range_start counts q"
proof -
  assume a: "p < q" "p < length counts"
  have "take q counts = take (Suc p) counts @ take (q - Suc p) (drop (Suc p) counts)"
    using a(1) by (metis Suc_leI le_add_diff_inverse take_add)
  then show ?thesis using a(2) by (simp add: range_start_def take_Suc_conv_app_nth)
qed

lemma range_end_le: "p < length counts \<Longrightarrow> range_start counts p + counts ! p \<le> sum_list counts"
  using range_start_le [of p "length counts" counts] by (simp add: range_start_def)

lemma fill_invariant:
  fixes parents :: "nat option list" and n :: nat
  defines "counts \<equiv> count_children n parents"
  assumes bound: "\<And>c q. c < length parents \<Longrightarrow> parents ! c = Some q \<Longrightarrow> q < n" and "k \<le> length parents"
  shows "case fold (fill_child parents) [0..<k] (map fst (child_ranges 0 counts), replicate (sum_list counts) 0) of
    (cursors, children) \<Rightarrow> length cursors = n \<and> length children = sum_list counts
      \<and> (\<forall>p<n. cursors ! p = range_start counts p + length (kids_upto parents k p))
      \<and> (\<forall>p<n. \<forall>j<length (kids_upto parents k p). children ! (range_start counts p + j) = kids_upto parents k p ! j)"
  using assms(3)
proof (induction k)
  case 0
  show ?case by (simp add: counts_def child_ranges_nth range_start_def kids_upto_def)
next
  case (Suc k)
  obtain cursors children where st: "fold (fill_child parents) [0..<k]
      (map fst (child_ranges 0 counts), replicate (sum_list counts) 0) = (cursors, children)" by force
  with Suc have IH: "length cursors = n" "length children = sum_list counts"
    "\<forall>p<n. cursors ! p = range_start counts p + length (kids_upto parents k p)"
    "\<forall>p<n. \<forall>j<length (kids_upto parents k p). children ! (range_start counts p + j) = kids_upto parents k p ! j"
    by auto
  show ?case
  proof (cases "parents ! k")
    case None
    with st IH show ?thesis by (simp add: fill_child_simps kids_upto_Suc)
  next
    case (Some q)
    have q: "q < n" using bound [of k q] Suc.prems Some by simp
    have cnt: "counts ! p = length (kids_upto parents (length parents) p)" if "p < n" for p
      using count_children_nth [OF that] by (simp add: counts_def kids_of_def kids_upto_def)
    have lt: "length (kids_upto parents k q) < counts ! q"
      using length_kids_upto_mono [of "Suc k" "length parents" parents q] Suc.prems Some
      by (simp add: kids_upto_Suc cnt [OF q])
    have ne: "range_start counts q + length (kids_upto parents k q) \<noteq> range_start counts p + j"
      if "p < n" "p \<noteq> q" "j < length (kids_upto parents k p)" for p j
    proof -
      have "j < counts ! p"
        using that length_kids_upto_mono [of k "length parents" parents p] Suc.prems by (simp add: cnt)
      moreover have "length counts = n" by (simp add: counts_def)
      ultimately show ?thesis
        using lt range_start_le [of p q counts] range_start_le [of q p counts] that q
        by (cases p q rule: linorder_cases) auto
    qed
    have slot: "range_start counts q + length (kids_upto parents k q) < sum_list counts"
      using lt range_end_le [of q counts] q by (simp add: counts_def)
    have "children[cursors ! q := k] ! (range_start counts p + j) = kids_upto parents (Suc k) p ! j"
      if "p < n" "j < length (kids_upto parents (Suc k) p)" for p j
    proof (cases "p = q")
      case True
      with that IH q slot show ?thesis
        by (cases "j = length (kids_upto parents k q)") (auto simp: kids_upto_Suc Some nth_append)
    next
      case False
      with that IH q ne [of p j] show ?thesis by (simp add: kids_upto_Suc Some)
    qed
    moreover have "cursors[q := cursors ! q + 1] ! p = range_start counts p + length (kids_upto parents (Suc k) p)"
      if "p < n" for p
      using that IH q by (cases "p = q") (auto simp: kids_upto_Suc Some)
    ultimately show ?thesis using st IH Some by (simp add: fill_child_simps)
  qed
qed

lemma slice_fill_children:
  assumes bound: "\<And>c q. c < length parents \<Longrightarrow> parents ! c = Some q \<Longrightarrow> q < n" and "p < n"
  defines "ranges \<equiv> child_ranges 0 (count_children n parents)"
  shows "slice (fill_children ranges (if ranges = [] then 0 else snd (last ranges)) parents) (ranges ! p)
    = kids_of parents p"
proof -
  let ?counts = "count_children n parents"
  have "?counts \<noteq> []" using assms(2) by (metis count_children_length less_nat_zero_code list.size(3))
  then have tot: "(if ranges = [] then 0 else snd (last ranges)) = sum_list ?counts"
    using child_ranges_last [of ?counts 0] unfolding ranges_def by (metis length_0_conv length_child_ranges add_0)
  obtain cursors children where st: "fold (fill_child parents) [0..<length parents]
      (map fst ranges, replicate (sum_list ?counts) 0) = (cursors, children)" by force
  have inv: "length children = sum_list ?counts"
    "\<forall>j<length (kids_of parents p). children ! (range_start ?counts p + j) = kids_of parents p ! j"
    using fill_invariant [of parents n "length parents"] bound assms(2) st
    by (auto simp: ranges_def kids_of_def kids_upto_def)
  have r: "ranges ! p = (range_start ?counts p, range_start ?counts p + length (kids_of parents p))"
    using assms(2) by (simp add: ranges_def child_ranges_nth range_start_def count_children_nth)
  have "range_start ?counts p + length (kids_of parents p) \<le> sum_list ?counts"
    using range_end_le [of p ?counts] assms(2) by (simp add: count_children_nth)
  then have "take (length (kids_of parents p)) (drop (range_start ?counts p) children) = kids_of parents p"
    using inv by (intro nth_equalityI) auto
  then show ?thesis by (simp add: slice_def r fill_children_def tot st)
qed


section \<open>The breadth-first order\<close>

lemma kids_of_mem: "c \<in> set (kids_of parents p) \<longleftrightarrow> c < length parents \<and> parents ! c = Some p"
  by (auto simp: kids_of_def)

lemma distinct_kids_of: "distinct (kids_of parents p)"
  by (simp add: kids_of_def)

lemma foldl_set_parent:
  "length (foldl (\<lambda>po child. po[child := v]) po cs) = length po"
  "c < length po \<Longrightarrow> foldl (\<lambda>po child. po[child := v]) po cs ! c = (if c \<in> set cs then v else po ! c)"
  by (induction cs arbitrary: po) (auto simp: nth_list_update)

text \<open>The state of the loop: the order so far is the root and the children of its first \<open>cursor\<close> entries.\<close>

definition bfs_state :: "nat option list \<Rightarrow> nat \<Rightarrow> nat \<Rightarrow> nat list \<Rightarrow> nat option list \<Rightarrow> bool" where
  "bfs_state parents root cursor order po \<longleftrightarrow>
     cursor \<le> length order \<and> root # concat (map (kids_of parents) (take cursor order)) = order
     \<and> distinct order \<and> set order \<subseteq> {..<length parents} \<and> length po = length parents
     \<and> (\<forall>c<length parents. po ! c = (if c \<in> set order then parents ! c else None))
     \<and> (\<forall>j<length order. 0 < j \<longrightarrow> (\<exists>i<cursor. i < j \<and> parents ! (order ! j) = Some (order ! i)))"

lemma bfs_state_parent:
  "bfs_state parents root cursor order po \<Longrightarrow> j < length order \<Longrightarrow> 0 < j \<Longrightarrow>
    \<exists>i<cursor. i < j \<and> parents ! (order ! j) = Some (order ! i)"
  by (simp add: bfs_state_def)

lemma bfs_state_root: "bfs_state parents root cursor order po \<Longrightarrow> order ! 0 = root \<and> root \<in> set order"
  unfolding bfs_state_def by (metis list.set_intros(1) nth_Cons_0)

lemma bfs_state_step:
  assumes st: "bfs_state parents root cursor order po" and "cursor < length order" "parents ! root = None"
  defines "ks \<equiv> kids_of parents (order ! cursor)"
  shows "bfs_state parents root (cursor + 1) (order @ ks) (foldl (\<lambda>po child. po[child := Some (order ! cursor)]) po ks)"
proof -
  have kid: "c < length parents \<and> parents ! c = Some (order ! cursor)" if "c \<in> set ks" for c
    using that by (simp add: ks_def kids_of_mem)
  have fresh: "c \<notin> set order" if "c \<in> set ks" for c
  proof
    assume "c \<in> set order"
    then obtain j where j: "j < length order" "order ! j = c" by (auto simp: in_set_conv_nth)
    show False
    proof (cases "j = 0")
      case True
      have "order ! 0 = root" using bfs_state_root [OF st] by simp
      then show False using True j kid [OF that] assms(3) by simp
    next
      case False
      then obtain i where "i < cursor" "parents ! c = Some (order ! i)"
        using bfs_state_parent [OF st j(1)] j(2) by auto
      then have "order ! i = order ! cursor" using kid [OF that] by simp
      moreover have "distinct order" using st by (simp add: bfs_state_def)
      ultimately show False using \<open>i < cursor\<close> assms(2) nth_eq_iff_index_eq [of order i cursor] by simp
    qed
  qed
  have par: "\<exists>i<cursor + 1. i < j \<and> parents ! ((order @ ks) ! j) = Some ((order @ ks) ! i)"
    if jlt: "j < length (order @ ks)" and pos: "0 < j" for j
  proof (cases "j < length order")
    case True
    then obtain i where "i < cursor" "i < j" "parents ! (order ! j) = Some (order ! i)"
      using bfs_state_parent [OF st True pos] by blast
    moreover have "(order @ ks) ! j = order ! j" "(order @ ks) ! i = order ! i"
      using True \<open>i < cursor\<close> assms(2) by (simp_all add: nth_append)
    ultimately show ?thesis by (intro exI [of _ i]) simp
  next
    case False
    have "(order @ ks) ! j = ks ! (j - length order)" using False by (simp add: nth_append)
    moreover have "j - length order < length ks" using False jlt by simp
    ultimately have "(order @ ks) ! j \<in> set ks" by simp
    moreover have "(order @ ks) ! cursor = order ! cursor" using assms(2) by (simp add: nth_append)
    ultimately show ?thesis using kid assms(2) False by (intro exI [of _ cursor]) simp
  qed
  have "take (cursor + 1) (order @ ks) = take cursor order @ [order ! cursor]"
    using assms(2) by (simp add: take_Suc_conv_app_nth)
  moreover have "root # concat (map (kids_of parents) (take cursor order)) = order"
    using st by (simp add: bfs_state_def)
  ultimately have "root # concat (map (kids_of parents) (take (cursor + 1) (order @ ks))) = order @ ks"
    by (metis ks_def append_Cons concat_append concat.simps(1,2) list.simps(8,9) map_append append_Nil2)
  moreover have "distinct (order @ ks)"
    using st fresh by (auto simp: bfs_state_def ks_def distinct_kids_of)
  moreover have "set (order @ ks) \<subseteq> {..<length parents}"
    using st kid by (auto simp: bfs_state_def)
  moreover have "foldl (\<lambda>po child. po[child := Some (order ! cursor)]) po ks ! c =
      (if c \<in> set (order @ ks) then parents ! c else None)" if "c < length parents" for c
    using that st kid [of c] by (simp add: bfs_state_def foldl_set_parent)
  moreover have "length (foldl (\<lambda>po child. po[child := Some (order ! cursor)]) po ks) = length parents"
    using st by (simp add: bfs_state_def foldl_set_parent)
  ultimately show ?thesis
    using par assms(2) unfolding bfs_state_def by simp
qed

lemma bfs_returns:
  assumes kids: "\<And>p. p < length parents \<Longrightarrow> kids p = kids_of parents p" and "parents ! root = None"
    and "bfs_state parents root cursor order po"
  shows "\<exists>order' po'. bfs kids cursor order po = Some (order', po') \<and> bfs_state parents root (length order') order' po'"
  using assms(3)
proof (induction "length parents - cursor" arbitrary: cursor order po rule: less_induct)
  case less
  show ?case
  proof (cases "cursor < length order")
    case True
    have "order ! cursor \<in> set order" using True by simp
    then have mem: "order ! cursor < length parents" using less.prems by (auto simp: bfs_state_def)
    have "card (set order) \<le> card {..<length parents}"
      using less.prems by (intro card_mono) (auto simp: bfs_state_def)
    then have "length order \<le> length parents"
      using less.prems distinct_card [of order] by (simp add: bfs_state_def)
    then have "length parents - (cursor + 1) < length parents - cursor" using True by simp
    from less.hyps [OF this bfs_state_step [OF less.prems True assms(2)]] True kids [OF mem] show ?thesis
      by (simp add: bfs.simps [of kids cursor] Let_def)
  next
    case False
    then have "cursor = length order" using less.prems by (simp add: bfs_state_def)
    with less.prems show ?thesis by (intro exI [of _ order] exI [of _ po]) (simp add: bfs.simps [of kids "length order" order po])
  qed
qed

lemma bfs_state_init: "root < length parents \<Longrightarrow> parents ! root = None \<Longrightarrow>
    bfs_state parents root 0 [root] (replicate (length parents) None)"
  by (auto simp: bfs_state_def)

section \<open>Ancestors\<close>

text \<open>\<open>ancestor parents q p\<close>: \<open>p\<close> is \<open>q\<close> or one of its ancestors.\<close>

inductive ancestor :: "nat option list \<Rightarrow> nat \<Rightarrow> nat \<Rightarrow> bool" for parents where
  self: "ancestor parents p p"
| up: "c < length parents \<Longrightarrow> parents ! c = Some q \<Longrightarrow> ancestor parents q p \<Longrightarrow> ancestor parents c p"

lemma ancestor_last:
  "ancestor parents q p \<Longrightarrow> q = p \<or> (\<exists>c. c < length parents \<and> parents ! c = Some p \<and> ancestor parents q c)"
  by (induction rule: ancestor.induct) (auto intro: ancestor.intros)

lemma ancestor_trans: "ancestor parents a b \<Longrightarrow> ancestor parents b c \<Longrightarrow> ancestor parents a c"
  by (induction rule: ancestor.induct) (auto intro: ancestor.up)

lemma ancestor_linear:
  "ancestor parents q a \<Longrightarrow> ancestor parents q b \<Longrightarrow> ancestor parents a b \<or> ancestor parents b a"
proof (induction rule: ancestor.induct)
  case (up c q p)
  from up.prems show ?case
  proof (cases rule: ancestor.cases)
    case self
    then show ?thesis using ancestor.up [OF up.hyps] by simp
  next
    case (up q')
    then show ?thesis using \<open>parents ! c = Some q\<close> \<open>ancestor parents q b \<Longrightarrow> _\<close> by simp
  qed
qed simp

text \<open>Facts of a finished breadth-first order.\<close>

lemma bfs_closed:
  assumes "bfs_state parents root (length order) order po" "p \<in> set order" "c < length parents" "parents ! c = Some p"
  shows "c \<in> set order"
proof -
  have "root # concat (map (kids_of parents) order) = order" using assms(1) by (simp add: bfs_state_def)
  moreover have "c \<in> set (concat (map (kids_of parents) order))" using assms(2-4) by (auto simp: kids_of_mem)
  ultimately show ?thesis by (metis list.set_intros(2))
qed

lemma bfs_ancestor_mem:
  assumes "bfs_state parents root (length order) order po"
  shows "ancestor parents q p \<Longrightarrow> p \<in> set order \<Longrightarrow> q \<in> set order"
  by (induction rule: ancestor.induct) (auto intro: bfs_closed [OF assms])

lemma bfs_ancestor_index:
  assumes "bfs_state parents root (length order) order po" "parents ! root = None"
  shows "ancestor parents q p \<Longrightarrow> j < length order \<Longrightarrow> order ! j = q \<Longrightarrow> \<exists>i\<le>j. order ! i = p"
proof (induction arbitrary: j rule: ancestor.induct)
  case (up c q p)
  show ?case
  proof (cases "j = 0")
    case True
    have "order ! 0 = root" using bfs_state_root [OF assms(1)] by simp
    then have "parents ! root = Some q" using up True by simp
    then show ?thesis using assms(2) by simp
  next
    case False
    then obtain i where "i < j" "parents ! (order ! j) = Some (order ! i)" "i < length order"
      using bfs_state_parent [OF assms(1) up.prems(1)] up.prems(1) by auto
    moreover have "order ! i = q" using up.hyps(2) up.prems(2) calculation(2) by simp
    ultimately obtain k where "k \<le> i" "order ! k = p" using up.IH [of i] by auto
    with \<open>i < j\<close> show ?thesis by (intro exI [of _ k]) simp
  qed
qed auto


end
