(* ===== verification/Tree_Rollups.thy ===== *)
theory Tree_Rollups
  imports Tree_Index
begin

text \<open>
  The rollups of the display tree: what the reverse sweep of \<open>compute_rollups\<close> leaves in every directory.
\<close>

section \<open>Climbing to a directory\<close>

text \<open>\<open>climbs parents D q p\<close>: climbing from \<open>q\<close> through the directories of \<open>D\<close> ends at \<open>p\<close>.\<close>

inductive climbs :: "nat option list \<Rightarrow> nat set \<Rightarrow> nat \<Rightarrow> nat \<Rightarrow> bool" for parents D where
  stop: "p \<notin> D \<Longrightarrow> climbs parents D p p"
| climb: "c \<in> D \<Longrightarrow> parents ! c = Some q \<Longrightarrow> climbs parents D q p \<Longrightarrow> climbs parents D c p"

inductive_cases climbs_outside: "climbs parents D q p"

lemma climbs_end: "climbs parents D q p \<Longrightarrow> p \<notin> D"
  by (induction rule: climbs.induct)

lemma climbs_unique: "climbs parents D q p \<Longrightarrow> climbs parents D q p' \<Longrightarrow> p = p'"
proof (induction rule: climbs.induct)
  case (stop p)
  then show ?case by (auto elim: climbs_outside)
next
  case (climb c q p)
  from climb.prems climb.hyps(1,2) have "climbs parents D q p'" by (auto elim: climbs_outside)
  then show ?case by (rule climb.IH)
qed

lemma climbs_empty: "climbs parents {} q p \<longleftrightarrow> q = p"
  by (auto intro: climbs.stop elim: climbs_outside)

lemma climbs_insertD:
  assumes "climbs parents (insert x D) q p" "x \<notin> D" "\<And>y. parents ! x = Some y \<Longrightarrow> y \<notin> insert x D"
  shows "climbs parents D q p \<or> parents ! x = Some p \<and> climbs parents D q x"
  using assms(1)
proof (induction rule: climbs.induct)
  case (climb c q p)
  show ?case
  proof (cases "c = x")
    case True
    then have "q \<notin> insert x D" using climb.hyps(2) assms(3) by simp
    then have "q = p" using climb.hyps(3) by (auto elim: climbs_outside)
    then show ?thesis using True climb.hyps(2) assms(2) by (auto intro: climbs.stop)
  qed (use climb in \<open>auto intro: climbs.climb\<close>)
qed (auto intro: climbs.stop)

lemma climbs_insertI: "climbs parents D q p \<Longrightarrow> p \<noteq> x \<Longrightarrow> climbs parents (insert x D) q p"
  by (induction rule: climbs.induct) (auto intro: climbs.intros)

lemma climbs_through:
  "climbs parents D q x \<Longrightarrow> parents ! x = Some y \<Longrightarrow> y \<notin> insert x D \<Longrightarrow> climbs parents (insert x D) q y"
  by (induction rule: climbs.induct) (auto intro: climbs.intros)

lemma climbs_insert:
  assumes "x \<notin> D" "\<And>y. parents ! x = Some y \<Longrightarrow> y \<notin> insert x D" "p \<notin> insert x D"
  shows "climbs parents (insert x D) q p \<longleftrightarrow> climbs parents D q p \<or> parents ! x = Some p \<and> climbs parents D q x"
  using assms climbs_insertD [of parents x D q p] climbs_insertI [of parents D q p x]
    climbs_through [of parents D q x p] by blast

text \<open>One step of the sweep, on the field.\<close>

lemma sweep_Cons:
  "sweep po (x # suf) ro = (let ro' = sweep po suf ro in
    case po ! x of None \<Rightarrow> ro' | Some parent \<Rightarrow> ro'[parent := add_child (ro' ! x) (ro' ! parent)])"
  by (simp add: sweep_def Let_def)

lemma length_sweep: "length (sweep po suf ro) = length ro"
  by (induction suf) (simp_all add: sweep_Cons Let_def sweep_def split: option.splits)

section \<open>A finished breadth-first order\<close>

lemma bfs_parent_earlier:
  assumes st: "bfs_state parents root (length order) order po" and "parents ! root = None"
    and "j < length order" "parents ! (order ! j) = Some y"
  shows "y \<in> set (take j order) \<and> y \<notin> set (drop j order) \<and> y < length parents"
proof -
  have "j \<noteq> 0" using assms bfs_state_root [OF st] by (cases j) auto
  then obtain i where i: "i < j" "parents ! (order ! j) = Some (order ! i)"
    using bfs_state_parent [OF st assms(3)] by auto
  then have y: "y = order ! i" using assms(4) by simp
  have "distinct (take j order @ drop j order)" "set order \<subseteq> {..<length parents}"
    using st by (simp_all add: bfs_state_def)
  moreover have "y \<in> set (take j order)"
    using y i(1) assms(3) by (simp add: in_set_conv_nth) (metis nth_take)
  ultimately show ?thesis unfolding distinct_append by (auto dest: in_set_takeD)
qed

lemma climbs_ancestor:
  "climbs parents D q p \<Longrightarrow> D \<subseteq> {..<length parents} \<Longrightarrow> ancestor parents q p"
  by (induction rule: climbs.induct) (auto intro: ancestor.intros)

text \<open>Behind \<open>p\<close> in the order lie all directories below it.\<close>

lemma below_later:
  assumes st: "bfs_state parents root (length order) order po" and "parents ! root = None"
    and split: "order = pre @ p # suf"
  shows "ancestor parents q p \<Longrightarrow> q \<noteq> p \<Longrightarrow> q \<in> set suf"
proof -
  assume anc: "ancestor parents q p" and "q \<noteq> p"
  have "q \<in> set order" using bfs_ancestor_mem [OF st anc] split by simp
  then obtain j where j: "j < length order" "order ! j = q" by (auto simp: in_set_conv_nth)
  obtain i where i: "i \<le> j" "order ! i = p" using bfs_ancestor_index [OF st assms(2) anc j] by blast
  have "distinct order" using st by (simp add: bfs_state_def)
  then have "i = length pre" using i j(1) split nth_eq_iff_index_eq [of order i "length pre"] by simp
  moreover have "i \<noteq> j" using i j \<open>q \<noteq> p\<close> by auto
  ultimately obtain k where "j = length pre + Suc k" using i(1) by (metis le_neq_implies_less less_iff_Suc_add add_Suc_right)
  then have "q = suf ! k" "k < length suf" using j split by (simp_all add: nth_append)
  then show "q \<in> set suf" by simp
qed

lemma ancestor_climbs:
  "ancestor parents q p \<Longrightarrow> p \<notin> D \<Longrightarrow> (\<And>c. ancestor parents c p \<Longrightarrow> c \<noteq> p \<Longrightarrow> c \<in> D) \<Longrightarrow> climbs parents D q p"
proof (induction rule: ancestor.induct)
  case (up c q p)
  show ?case
  proof (cases "c = p")
    case False
    moreover have "ancestor parents c p" using up.hyps by (rule ancestor.up)
    ultimately have "c \<in> D" using up.prems(2) by blast
    then show ?thesis using up.hyps(2) up.IH [OF up.prems] by (rule climbs.climb)
  qed (use up.prems in \<open>simp add: climbs.stop\<close>)
qed (rule climbs.stop)

lemma climbs_iff_ancestor:
  assumes st: "bfs_state parents root (length order) order po" and "parents ! root = None"
    and split: "order = pre @ p # suf"
  shows "climbs parents (set suf) q p \<longleftrightarrow> ancestor parents q p"
proof
  have mem: "set suf \<subseteq> {..<length parents}" "p \<notin> set suf"
    using st split by (auto simp: bfs_state_def)
  show "ancestor parents q p" if "climbs parents (set suf) q p"
    using that mem(1) by (rule climbs_ancestor)
  show "climbs parents (set suf) q p" if "ancestor parents q p"
    using that mem(2) below_later [OF assms] by (rule ancestor_climbs)
qed

lemma sweep_untouched:
  assumes "\<And>x. x \<in> set pre \<Longrightarrow> po ! x \<noteq> Some p"
  shows "sweep po (pre @ suf) ro ! p = sweep po suf ro ! p"
  using assms
proof (induction pre)
  case (Cons x pre)
  have "po ! x \<noteq> Some p" using Cons.prems by simp
  then show ?case using Cons by (cases "po ! x") (auto simp: sweep_Cons Let_def)
qed simp

section \<open>The sweep, field by field\<close>

text \<open>A field of a rollup that a child adds to its parent's, with \<open>own\<close> for the child itself.\<close>

locale rollup_field =
  fixes add :: "'m \<Rightarrow> 'm \<Rightarrow> 'm" and zero :: 'm and fld :: "dir_rollup \<Rightarrow> 'm" and own :: 'm
  assumes add_assoc: "add (add a b) c = add a (add b c)"
    and add_commute: "add a b = add b a"
    and add_zero: "add zero a = a"
    and fld_add_child: "fld (add_child child parent) = add (fld parent) (add (fld child) own)"
begin

definition total :: "'m list \<Rightarrow> 'm" where "total xs = foldr add xs zero"

lemma total_simps: "total [] = zero" "total (x # xs) = add x (total xs)"
  by (simp_all add: total_def)

lemma add_left_commute: "add a (add b c) = add b (add a c)"
  by (metis add_assoc add_commute)

lemma total_filter_disjoint:
  "(\<And>x. x \<in> set xs \<Longrightarrow> \<not> (P x \<and> Q x)) \<Longrightarrow>
    total (map g (filter (\<lambda>x. P x \<or> Q x) xs)) = add (total (map g (filter P xs))) (total (map g (filter Q xs)))"
proof (induction xs)
  case (Cons x xs)
  then show ?case
    by (auto simp: total_simps add_assoc add_left_commute)
qed (simp add: total_simps add_zero)

lemma total_append: "total (xs @ ys) = add (total xs) (total ys)"
  by (induction xs) (simp_all add: total_simps add_zero add_assoc)

text \<open>What a directory holds once the directories of \<open>suf\<close> are swept: the values of the files that climb
  to it and \<open>own\<close> for every swept directory that does.\<close>

definition swept :: "nat option list \<Rightarrow> ('f \<Rightarrow> nat option) \<Rightarrow> ('f \<Rightarrow> 'm) \<Rightarrow> 'f list
    \<Rightarrow> nat list \<Rightarrow> nat \<Rightarrow> 'm" where
  "swept parents fp val files suf p =
    add (total (map val (filter (\<lambda>f. \<exists>q. fp f = Some q \<and> climbs parents (set suf) q p) files)))
        (total (map (\<lambda>_. own) (filter (\<lambda>d. climbs parents (set suf) d p) suf)))"

lemma swept_Cons:
  assumes "x \<notin> set suf" "\<And>y. parents ! x = Some y \<Longrightarrow> y \<notin> set (x # suf)" "p \<notin> set (x # suf)"
  shows "swept parents fp val files (x # suf) p =
    (if parents ! x = Some p then add (swept parents fp val files suf p) (add (swept parents fp val files suf x) own)
     else swept parents fp val files suf p)"
proof -
  have climb: "climbs parents (insert x (set suf)) q p \<longleftrightarrow>
      climbs parents (set suf) q p \<or> parents ! x = Some p \<and> climbs parents (set suf) q x" for q
    using assms by (intro climbs_insert) auto
  have px: "p \<noteq> x" using assms(3) by simp
  have self: "climbs parents (set suf) x x" using assms(1) by (rule climbs.stop)
  have notp: "\<not> climbs parents (set suf) x p" using self px climbs_unique by blast
  show ?thesis
  proof (cases "parents ! x = Some p")
    case True
    let ?F = "\<lambda>z f. \<exists>q. fp f = Some q \<and> climbs parents (set suf) q z"
    have files: "(\<lambda>f. \<exists>q. fp f = Some q \<and> climbs parents (insert x (set suf)) q p) = (\<lambda>f. ?F p f \<or> ?F x f)"
      using climb True by auto
    have "total (map val (filter (\<lambda>f. \<exists>q. fp f = Some q \<and> climbs parents (insert x (set suf)) q p) files)) =
        add (total (map val (filter (?F p) files))) (total (map val (filter (?F x) files)))"
      unfolding files by (rule total_filter_disjoint) (use px climbs_unique in fastforce)
    moreover have "total (map (\<lambda>_. own) (filter (\<lambda>d. climbs parents (insert x (set suf)) d p) (x # suf))) =
        add own (add (total (map (\<lambda>_. own) (filter (\<lambda>d. climbs parents (set suf) d p) suf)))
            (total (map (\<lambda>_. own) (filter (\<lambda>d. climbs parents (set suf) d x) suf))))"
    proof -
      have "total (map (\<lambda>_. own) (filter (\<lambda>d. climbs parents (set suf) d p \<or> climbs parents (set suf) d x) suf)) =
          add (total (map (\<lambda>_. own) (filter (\<lambda>d. climbs parents (set suf) d p) suf)))
              (total (map (\<lambda>_. own) (filter (\<lambda>d. climbs parents (set suf) d x) suf)))"
        by (rule total_filter_disjoint) (use px climbs_unique in fastforce)
      then show ?thesis using True self by (simp add: climb total_simps)
    qed
    ultimately show ?thesis
      unfolding swept_def list.set if_P [OF True] by (simp only: add_assoc add_commute add_left_commute)
  next
    case False
    then show ?thesis using notp by (simp add: swept_def climb)
  qed
qed

lemma sweep_swept:
  assumes base: "\<And>p. p < n \<Longrightarrow> fld (ro ! p) = total (map val (filter (\<lambda>f. fp f = Some p) files))"
    and "length ro = n" and po: "\<And>x. x \<in> set suf \<Longrightarrow> po ! x = parents ! x"
    and order: "\<And>k y. k < length suf \<Longrightarrow> parents ! (suf ! k) = Some y \<Longrightarrow> y < n \<and> y \<notin> set (drop k suf)"
    and "distinct suf" "set suf \<subseteq> {..<n}" "p < n" "p \<notin> set suf"
  shows "fld (sweep po suf ro ! p) = swept parents fp val files suf p"
  using po order assms(5-)
proof (induction suf arbitrary: p)
  case Nil
  then show ?case
    by (simp add: sweep_def swept_def total_simps climbs_empty base add_commute add_zero)
next
  case (Cons x suf)
  have ord: "y < n \<and> y \<notin> set (drop k suf)" if "k < length suf" "parents ! (suf ! k) = Some y" for k y
    using Cons.prems(2) [of "Suc k" y] that by simp
  have IH: "fld (sweep po suf ro ! p) = swept parents fp val files suf p" if "p < n" "p \<notin> set suf" for p
    using Cons.IH [of p] Cons.prems ord that by simp
  have top: "y < n \<and> y \<notin> set (x # suf)" if "parents ! x = Some y" for y
    using Cons.prems(2) [of 0 y] that by simp
  have step: "swept parents fp val files (x # suf) p =
    (if parents ! x = Some p then add (swept parents fp val files suf p) (add (swept parents fp val files suf x) own)
     else swept parents fp val files suf p)"
    using Cons.prems top by (intro swept_Cons) simp_all
  show ?case
  proof (cases "parents ! x")
    case None
    then show ?thesis using Cons.prems IH step by (simp add: sweep_Cons Let_def)
  next
    case (Some y)
    show ?thesis
    proof (cases "y = p")
      case True
      then show ?thesis using Some Cons.prems IH step top assms(2)
        by (simp add: sweep_Cons Let_def length_sweep fld_add_child)
    next
      case False
      then show ?thesis using Some Cons.prems IH step by (simp add: sweep_Cons Let_def)
    qed
  qed
qed

text \<open>The whole sweep: a directory reached from the root gets everything below it, any other one keeps
  what its own files gave it.\<close>

lemma sweep_reached:
  assumes st: "bfs_state parents root (length order) order po" and root: "parents ! root = None"
    and base: "\<And>p. p < n \<Longrightarrow> fld (ro ! p) = total (map val (filter (\<lambda>f. fp f = Some p) files))"
    and n: "length ro = n" "length parents = n" and "p \<in> set order"
  shows "fld (sweep po order ro ! p) =
    add (total (map val (filter (\<lambda>f. \<exists>q. fp f = Some q \<and> ancestor parents q p) files)))
        (total (map (\<lambda>_. own) (filter (\<lambda>d. ancestor parents d p \<and> d \<noteq> p) order)))"
proof -
  obtain pre suf where split: "order = pre @ p # suf" using split_list [OF assms(6)] by blast
  have dist: "distinct order" and mem: "set order \<subseteq> {..<n}" and
    po: "\<And>x. x \<in> set order \<Longrightarrow> po ! x = parents ! x"
    using st n by (auto simp: bfs_state_def)
  have early: "y \<in> set (take j order) \<and> y \<notin> set (drop j order) \<and> y < n"
    if "j < length order" "parents ! (order ! j) = Some y" for j y
    using bfs_parent_earlier [OF st root that] n by simp
  have pre: "po ! x \<noteq> Some p" if x: "x \<in> set pre" for x
  proof
    assume "po ! x = Some p"
    then have par: "parents ! x = Some p" using po x split by simp
    obtain j where j: "j < length pre" "pre ! j = x" using x by (auto simp: in_set_conv_nth)
    then have "p \<in> set (take j order)" using early [of j p] par split by (simp add: nth_append)
    then show False using j split dist by (auto dest: in_set_takeD)
  qed
  have swept: "fld (sweep po (p # suf) ro ! p) = fld (sweep po suf ro ! p)"
  proof -
    have "parents ! p \<noteq> Some p" using early [of "length pre" p] split by (auto simp: nth_append)
    then have "po ! p \<noteq> Some p" using po split by simp
    then show ?thesis using sweep_untouched [of "[p]" po p suf ro] by simp
  qed
  have later: "y < n \<and> y \<notin> set (drop k suf)" if "k < length suf" "parents ! (suf ! k) = Some y" for k y
    using early [of "length pre + Suc k" y] that split by (simp add: nth_append)
  have "fld (sweep po suf ro ! p) = swept parents fp val files suf p"
    using dist mem po later split by (intro sweep_swept [of n] base n(1)) auto
  moreover have "swept parents fp val files suf p =
    add (total (map val (filter (\<lambda>f. \<exists>q. fp f = Some q \<and> ancestor parents q p) files)))
        (total (map (\<lambda>_. own) (filter (\<lambda>d. ancestor parents d p \<and> d \<noteq> p) order)))"
  proof -
    have "filter (\<lambda>d. ancestor parents d p \<and> d \<noteq> p) order = filter (\<lambda>d. ancestor parents d p) suf"
    proof -
      have later: "d \<in> set suf" if "ancestor parents d p" "d \<noteq> p" for d
        using below_later [OF st root split that] .
      have "filter (\<lambda>d. ancestor parents d p \<and> d \<noteq> p) pre = []"
        using later dist split by (auto simp: filter_empty_conv)
      moreover have "filter (\<lambda>d. ancestor parents d p \<and> d \<noteq> p) suf = filter (\<lambda>d. ancestor parents d p) suf"
        using dist split by (intro filter_cong) auto
      ultimately show ?thesis using split by simp
    qed
    then show ?thesis by (simp add: swept_def climbs_iff_ancestor [OF st root split])
  qed
  ultimately show ?thesis using sweep_untouched [of pre po p "p # suf" ro] pre swept split by simp
qed

end

lemma sweep_unreached:
  assumes st: "bfs_state parents root (length order) order po" and "p \<notin> set order"
    and root: "parents ! root = None"
  shows "sweep po order ro ! p = ro ! p"
proof -
  have "po ! x \<noteq> Some p" if x: "x \<in> set order" for x
  proof
    assume "po ! x = Some p"
    moreover have "po ! x = parents ! x" using st x by (auto simp: bfs_state_def)
    moreover obtain j where "j < length order" "order ! j = x" using x by (auto simp: in_set_conv_nth)
    ultimately have "p \<in> set (take j order)" using bfs_parent_earlier [OF st root] by metis
    then show False using assms(2) by (auto dest: in_set_takeD)
  qed
  then show ?thesis using sweep_untouched [of order po p "[]" ro] by (simp add: sweep_def)
qed

section \<open>The fields of a rollup\<close>

lemma unat_foldr_sat_add:
  "unat (foldr sat_add xs 0) = min (sum_list (map unat xs)) (2 ^ LENGTH('a) - 1)" for xs :: "'a::len word list"
proof (induction xs)
  case (Cons x xs)
  have "min (u + min v m) m = min (u + v) m" for u v m :: nat by (simp add: min_def)
  with Cons show ?case by (simp add: unat_sat_add)
qed simp

lemma max_option_monoid:
  "max_option (max_option a b) c = max_option a (max_option b c)" "max_option a b = max_option b a" "max_option None a = a"
proof -
  show "max_option (max_option a b) c = max_option a (max_option b c)"
    by (cases a; cases b; cases c) auto
  show "max_option a b = max_option b a"
    by (cases a; cases b) (auto intro: signed_word_eqI [symmetric] simp: word_eq_iff_signed)
  show "max_option None a = a" by (cases a) auto
qed

interpretation logical: rollup_field sat_add 0 ru_logical_bytes 0
  by unfold_locales (rule sat_add_assoc sat_add_commute | simp add: add_child_def)+

interpretation physical: rollup_field sat_add 0 ru_physical_bytes 0
  by unfold_locales (rule sat_add_assoc sat_add_commute | simp add: add_child_def)+

interpretation file_count: rollup_field sat_add 0 ru_file_count 0
  by unfold_locales (rule sat_add_assoc sat_add_commute | simp add: add_child_def)+

interpretation item_count: rollup_field sat_add 0 ru_item_count 1
  by unfold_locales (rule sat_add_assoc sat_add_commute | simp add: add_child_def)+

interpretation modified: rollup_field max_option None ru_modified_utc_max None
  by unfold_locales (rule max_option_monoid | simp add: add_child_def max_option_monoid(2) [of _ None])+

text \<open>The direct contributions, for a field to which a file adds \<open>val f\<close>.\<close>

definition add_direct :: "(file_record \<Rightarrow> nat option) \<Rightarrow> dir_rollup list \<Rightarrow> file_record \<Rightarrow> dir_rollup list" where
  "add_direct fp rollups f =
    (case fp f of Some index \<Rightarrow> rollups[index := add_file f (rollups ! index)] | None \<Rightarrow> rollups)"

lemma direct_rollups_eq: "direct_rollups lookup root n files =
    foldl (add_direct (file_parent lookup root)) (replicate n rollup_default) files"
  by (simp add: direct_rollups_def add_direct_def [abs_def])

lemma length_add_direct [simp]: "length (foldl (add_direct fp) ro files) = length ro"
  by (induction files arbitrary: ro) (auto simp: add_direct_def split: option.splits)

lemma length_direct_rollups: "length (direct_rollups lookup root n files) = n"
  by (simp add: direct_rollups_eq)

lemma add_direct_nth:
  "p < length ro \<Longrightarrow> foldl (add_direct fp) ro files ! p = foldl (\<lambda>r f. add_file f r) (ro ! p) (filter (\<lambda>f. fp f = Some p) files)"
  by (induction files arbitrary: ro) (auto simp: add_direct_def nth_list_update split: option.splits)

lemma direct_rollups_nth:
  "p < n \<Longrightarrow> direct_rollups lookup root n files ! p =
    foldl (\<lambda>r f. add_file f r) rollup_default (filter (\<lambda>f. file_parent lookup root f = Some p) files)"
  by (simp add: direct_rollups_eq add_direct_nth)

lemma add_files_fields:
  "ru_logical_bytes (foldl (\<lambda>r f. add_file f r) r fs) = sat_add (ru_logical_bytes r) (foldr sat_add (map f_size_bytes fs) 0)"
  "ru_physical_bytes (foldl (\<lambda>r f. add_file f r) r fs) = sat_add (ru_physical_bytes r) (foldr sat_add (map f_allocation_bytes fs) 0)"
  "ru_file_count (foldl (\<lambda>r f. add_file f r) r fs) = ru_file_count r + word_of_nat (length fs)"
  "ru_item_count (foldl (\<lambda>r f. add_file f r) r fs) = ru_item_count r + word_of_nat (length fs)"
  "ru_modified_utc_max (foldl (\<lambda>r f. add_file f r) r fs) = max_option (ru_modified_utc_max r) (foldr max_option (map f_modified_utc fs) None)"
  by (induction fs arbitrary: r)
    (simp_all add: add_file_def sat_add_assoc max_option_monoid(1) max_option_monoid(2) [of _ None])

lemma foldr_sat_add_ones:
  assumes "length fs < 2 ^ 64"
  shows "foldr sat_add (map (\<lambda>_. 1) fs) (0 :: u64) = word_of_nat (length fs)"
proof -
  have "sum_list (map (\<lambda>_. 1) fs) = length fs" for fs :: "'a list" by (induction fs) auto
  then have "unat (foldr sat_add (map (\<lambda>_. 1) fs) (0 :: u64)) = unat (word_of_nat (length fs) :: u64)"
    using assms by (simp add: unat_foldr_sat_add comp_def unat_of_nat min_def)
  then show ?thesis by (rule unsigned_word_eqI)
qed

section \<open>The rollups of the tree\<close>

lemma directory_lookup_bound:
  assumes "directory_lookup_get (directory_lookup_new directories) i = Some k"
  shows "k < length directories"
proof -
  have sparse: "foldl (\<lambda>m i. m(d_id (directories ! i) \<mapsto> i)) m0 ks i = Some k \<Longrightarrow> k \<in> set ks \<or> m0 i = Some k"
    for m0 and ks :: "nat list"
    by (induction ks arbitrary: m0) (fastforce split: if_splits)+
  show ?thesis
    using assms sparse [of Map.empty "[0..<length directories]"]
    by (auto simp: directory_lookup_new_def Let_def bind_eq_Some_conv split: if_splits)
qed

lemma lookup_of_member:
  assumes "i < length directories"
  shows "directory_lookup_get (directory_lookup_new directories) (d_id (directories ! i)) \<noteq> None"
proof -
  have dom: "dom (foldl (\<lambda>m i. m(d_id (directories ! i) \<mapsto> i)) m0 ks) = dom m0 \<union> (\<lambda>i. d_id (directories ! i)) ` set ks"
    for m0 and ks :: "nat list"
    by (induction ks arbitrary: m0) auto
  show ?thesis
  proof (cases "directory_lookup_new directories")
    case (SparseIds m)
    then have "m = foldl (\<lambda>m i. m(d_id (directories ! i) \<mapsto> i)) Map.empty [0..<length directories]"
      by (simp add: directory_lookup_new_def Let_def split: if_splits)
    then have "d_id (directories ! i) \<in> dom m" using assms by (simp add: dom)
    then show ?thesis using SparseIds by (simp add: domIff)
  next
    case (DenseIds first len)
    then have len: "len = length directories" and short: "length directories \<le> 2 ^ 32 - 1"
      and add: "checked_add first (word_of_nat i) = Some (d_id (directories ! i))"
      using assms by (auto simp: directory_lookup_new_def Let_def list_all_iff split: if_splits)
    have i: "unat (word_of_nat i :: u64) = i"
      using assms short by (simp add: unat_of_nat)
    let ?d = "d_id (directories ! i)"
    have "?d = first + word_of_nat i" "unat first + i < 2 ^ 64"
      using add i by (auto simp: checked_add_def split: if_splits)
    moreover from this have "unat ?d = unat first + i" using i by (simp add: unat_word_ariths)
    ultimately have "\<not> ?d < first" "unat (?d - first) = i"
      using i by (simp_all add: word_less_nat_alt)
    then show ?thesis using DenseIds len assms(1) by (simp add: checked_sub_def)
  qed
qed

lemma lookup_key:
  assumes "directory_lookup_get (directory_lookup_new directories) i = Some k"
  shows "d_id (directories ! k) = i"
proof (cases "directory_lookup_new directories")
  case (SparseIds m)
  have "foldl (\<lambda>m i. m(d_id (directories ! i) \<mapsto> i)) m0 ks i = Some k \<Longrightarrow> d_id (directories ! k) = i \<or> m0 i = Some k"
    for m0 and ks :: "nat list"
    by (induction ks arbitrary: m0) (fastforce split: if_splits)+
  from this [of Map.empty "[0..<length directories]"] show ?thesis
    using SparseIds assms by (simp add: directory_lookup_new_def Let_def split: if_splits)
next
  case (DenseIds first len)
  then have k: "k < len" "\<not> i < first" "k = unat (i - first)"
    using assms by (auto simp: checked_sub_def split: if_splits)
  moreover from DenseIds have "\<forall>i<len. checked_add first (word_of_nat i) = Some (d_id (directories ! i))"
    by (auto simp: directory_lookup_new_def Let_def list_all_iff split: if_splits)
  ultimately have "checked_add first (i - first) = Some (d_id (directories ! k))"
    using spec [of "\<lambda>i. i < len \<longrightarrow> checked_add first (word_of_nat i) = Some (d_id (directories ! i))" k] by simp
  then show ?thesis by (auto simp: checked_add_def split: if_splits)
qed

lemma choose_root_bound:
  "choose_root directories (directory_lookup_new directories) = Some r \<Longrightarrow> r < length directories"
  by (auto simp: choose_root_def find_Some_iff dest: directory_lookup_bound split: option.splits if_splits)

lemma length_dir_parents [simp]: "length (dir_parents directories lookup root) = length directories"
  by (simp add: dir_parents_def)

lemma dir_parents_bound:
  assumes "c < length directories" "dir_parents directories (directory_lookup_new directories) root ! c = Some q"
    and "\<And>r. root = Some r \<Longrightarrow> r < length directories"
  shows "q < length directories"
  using assms by (auto simp: dir_parents_def structural_parent_def option_or_def option_filter_def bind_eq_Some_conv Let_def
    dest: directory_lookup_bound split: option.splits if_splits)

lemma dir_parents_root: "r < length directories \<Longrightarrow> dir_parents directories lookup (Some r) ! r = None"
  by (simp add: dir_parents_def structural_parent_def)

text \<open>The rollup of a directory with these files and this many directories below it.\<close>

definition rollup_of :: "file_record list \<Rightarrow> nat \<Rightarrow> dir_rollup" where
  "rollup_of files dirs =
    \<lparr>ru_logical_bytes = sat_sum (map f_size_bytes files),
     ru_physical_bytes = sat_sum (map f_allocation_bytes files),
     ru_file_count = word_of_nat (length files),
     ru_item_count = word_of_nat (min (length files + dirs) (2 ^ 64 - 1)),
     ru_modified_utc_max = foldr max_option (map f_modified_utc files) None\<rparr>"

lemma foldr_sat_sum: "foldr sat_add xs 0 = sat_sum xs" for xs :: "u64 list"
proof -
  have "unat (foldr sat_add xs 0) = unat (sat_sum xs)" by (simp add: unat_foldr_sat_add unat_sat_sum_min)
  then show ?thesis by (rule unsigned_word_eqI)
qed

lemma sat_add_counts: "length xs < 2 ^ 64 \<Longrightarrow>
    sat_add (word_of_nat (length xs)) (foldr sat_add (map (\<lambda>_. 1) ys) 0) = (word_of_nat (min (length xs + length ys) (2 ^ 64 - 1)) :: u64)"
proof -
  assume a: "length xs < 2 ^ 64"
  have cut: "min (m + min k M) M = min (m + k) M" for m k M :: nat by (simp add: min_def)
  have "unat (word_of_nat (length xs) :: u64) = length xs" using a by (simp add: unat_of_nat)
  moreover have "unat (foldr sat_add (map (\<lambda>_. 1) ys) (0 :: u64)) = min (length ys) (2 ^ 64 - 1)"
    by (simp add: unat_foldr_sat_add comp_def sum_list_triv)
  moreover have "unat (word_of_nat (min (length xs + length ys) (2 ^ 64 - 1)) :: u64) = min (length xs + length ys) (2 ^ 64 - 1)"
    by (subst unat_of_nat) simp
  ultimately have "unat (sat_add (word_of_nat (length xs)) (foldr sat_add (map (\<lambda>_. 1) ys) (0 :: u64))) =
      unat (word_of_nat (min (length xs + length ys) (2 ^ 64 - 1)) :: u64)"
    by (simp only: unat_sat_add cut len_of_numeral_defs) simp
  then show ?thesis by (rule unsigned_word_eqI)
qed

lemma direct_rollups_of:
  assumes "p < n" "length files < 2 ^ 64"
  shows "direct_rollups lookup root n files ! p = rollup_of (filter (\<lambda>f. file_parent lookup root f = Some p) files) 0"
proof -
  let ?fs = "filter (\<lambda>f. file_parent lookup root f = Some p) files"
  have "length ?fs < 2 ^ 64" using assms(2) length_filter_le [of _ files] by (metis order_le_less_trans)
  then show ?thesis
    unfolding direct_rollups_nth [OF assms(1)]
    by (intro dir_rollup.equality)
      (simp_all add: add_files_fields rollup_default_def rollup_of_def foldr_sat_sum max_option_monoid(3) min_def)
qed

text \<open>The files and the directories below a directory.\<close>

definition files_below :: "nat option list \<Rightarrow> (file_record \<Rightarrow> nat option) \<Rightarrow> nat \<Rightarrow> file_record list \<Rightarrow> file_record list" where
  "files_below parents fp p = filter (\<lambda>f. case fp f of Some q \<Rightarrow> ancestor parents q p | None \<Rightarrow> False)"

definition dirs_below :: "nat option list \<Rightarrow> nat \<Rightarrow> nat list" where
  "dirs_below parents p = filter (\<lambda>d. ancestor parents d p \<and> d \<noteq> p) [0..<length parents]"

lemma bfs_order_iff:
  assumes st: "bfs_state parents root (length order) order po" and "parents ! root = None"
  shows "p \<in> set order \<longleftrightarrow> ancestor parents p root"
proof
  have ord: "set order \<subseteq> {..<length parents}" using st by (simp add: bfs_state_def)
  have "ancestor parents (order ! j) root" if "j < length order" for j
    using that
  proof (induction j rule: less_induct)
    case (less j)
    show ?case
    proof (cases "j = 0")
      case True
      then show ?thesis using bfs_state_root [OF st] by (simp add: ancestor.self)
    next
      case False
      then obtain i where i: "i < j" "parents ! (order ! j) = Some (order ! i)"
        using bfs_state_parent [OF st less.prems] by auto
      moreover have "order ! j < length parents" using ord less.prems by (meson lessThan_iff nth_mem subsetD)
      ultimately show ?thesis using less.IH [of i] less.prems by (auto intro: ancestor.up)
    qed
  qed
  then show "p \<in> set order \<Longrightarrow> ancestor parents p root" by (auto simp: in_set_conv_nth)
  show "ancestor parents p root \<Longrightarrow> p \<in> set order"
    using bfs_ancestor_mem [OF st] bfs_state_root [OF st] by blast
qed

lemma dirs_below_order:
  assumes st: "bfs_state parents root (length order) order po" and "parents ! root = None" "p \<in> set order"
  shows "length (filter (\<lambda>d. ancestor parents d p \<and> d \<noteq> p) order) = length (dirs_below parents p)"
proof -
  have "set (filter (\<lambda>d. ancestor parents d p \<and> d \<noteq> p) order) = set (dirs_below parents p)"
    using bfs_ancestor_mem [OF st _ assms(3)] st by (auto simp: dirs_below_def bfs_state_def)
  moreover have "distinct (filter (\<lambda>d. ancestor parents d p \<and> d \<noteq> p) order)" "distinct (dirs_below parents p)"
    using st by (simp_all add: bfs_state_def dirs_below_def)
  ultimately show ?thesis by (metis distinct_card)
qed

text \<open>The sweep on the whole record.\<close>

lemma sweep_rollup_of:
  assumes st: "bfs_state parents root (length order) order po" and root: "parents ! root = None"
    and n: "length parents = n" and len: "length files < 2 ^ 64" and p: "p \<in> set order"
  shows "sweep po order (direct_rollups lookup r n files) ! p =
    rollup_of (files_below parents (file_parent lookup r) p files) (length (dirs_below parents p))"
proof -
  let ?fp = "file_parent lookup r" and ?ro = "direct_rollups lookup r n files"
  let ?fs = "files_below parents ?fp p files"
  have fs: "filter (\<lambda>f. \<exists>q. ?fp f = Some q \<and> ancestor parents q p) files = ?fs"
    unfolding files_below_def by (intro filter_cong) (auto split: option.splits)
  have lro: "length ?ro = n" by (rule length_direct_rollups)
  have short: "length (filter P files) < 2 ^ 64" for P
    using length_filter_le len by (rule order_le_less_trans)
  have lfs: "length ?fs < 2 ^ 64" unfolding files_below_def by (rule short)
  have lb: "ru_logical_bytes (?ro ! p) = logical.total (map f_size_bytes (filter (\<lambda>f. ?fp f = Some p) files))" if "p < n" for p
    using that len by (simp add: direct_rollups_of rollup_of_def logical.total_def foldr_sat_sum)
  have pb: "ru_physical_bytes (?ro ! p) = physical.total (map f_allocation_bytes (filter (\<lambda>f. ?fp f = Some p) files))" if "p < n" for p
    using that len by (simp add: direct_rollups_of rollup_of_def physical.total_def foldr_sat_sum)
  have fc: "ru_file_count (?ro ! p) = file_count.total (map (\<lambda>_. 1) (filter (\<lambda>f. ?fp f = Some p) files))" if "p < n" for p
    using that len by (simp add: direct_rollups_of rollup_of_def file_count.total_def foldr_sat_add_ones [OF short])
  have ic: "ru_item_count (?ro ! p) = item_count.total (map (\<lambda>_. 1) (filter (\<lambda>f. ?fp f = Some p) files))" if "p < n" for p
    using that len short by (simp add: direct_rollups_nth add_files_fields rollup_default_def item_count.total_def foldr_sat_add_ones [OF short])
  have mu: "ru_modified_utc_max (?ro ! p) = modified.total (map f_modified_utc (filter (\<lambda>f. ?fp f = Some p) files))" if "p < n" for p
    using that len by (simp add: direct_rollups_of rollup_of_def modified.total_def)
  have zeros: "foldr sat_add (map (\<lambda>_. 0) ds) (0 :: u64) = 0" for ds :: "nat list" by (induction ds) auto
  have sums: "sat_sum (map (\<lambda>_. 0) ds) = (0 :: u64)" for ds :: "nat list"
    using zeros [of ds] by (simp add: foldr_sat_sum)
  have nones: "foldr max_option (map (\<lambda>_. None) ds) None = None" for ds :: "nat list" by (induction ds) auto
  show ?thesis
  proof (rule dir_rollup.equality, goal_cases)
    case 1
    show ?case using logical.sweep_reached [OF st root lb lro n p]
      by (simp add: rollup_of_def fs logical.total_def foldr_sat_sum sums)
  next
    case 2
    show ?case using physical.sweep_reached [OF st root pb lro n p]
      by (simp add: rollup_of_def fs physical.total_def foldr_sat_sum sums)
  next
    case 3
    show ?case using file_count.sweep_reached [OF st root fc lro n p]
      by (simp add: rollup_of_def fs file_count.total_def zeros foldr_sat_add_ones [OF lfs])
  next
    case 4
    show ?case using item_count.sweep_reached [OF st root ic lro n p] dirs_below_order [OF st root p]
      by (simp add: rollup_of_def fs item_count.total_def foldr_sat_add_ones [OF lfs] sat_add_counts [OF lfs] del: of_nat_min)
  next
    case 5
    show ?case using modified.sweep_reached [OF st root mu lro n p]
      by (simp add: rollup_of_def fs modified.total_def nones max_option_monoid(2) [of _ None])
  qed simp
qed

section \<open>The tree is built, and its rollups are exact\<close>

definition tree_parents :: "directory_record list \<Rightarrow> nat option list" where
  "tree_parents directories =
    (let lookup = directory_lookup_new directories in dir_parents directories lookup (choose_root directories lookup))"

definition tree_file_parent :: "directory_record list \<Rightarrow> file_record \<Rightarrow> nat option" where
  "tree_file_parent directories =
    (let lookup = directory_lookup_new directories in file_parent lookup (choose_root directories lookup))"

definition under_root :: "directory_record list \<Rightarrow> nat \<Rightarrow> bool" where
  "under_root directories p =
    (case choose_root directories (directory_lookup_new directories) of
       None \<Rightarrow> False | Some r \<Rightarrow> ancestor (tree_parents directories) p r)"

lemma tree_bfs:
  assumes "choose_root directories (directory_lookup_new directories) = Some r"
  defines "parents \<equiv> tree_parents directories" and "n \<equiv> length directories"
  defines "ranges \<equiv> child_ranges 0 (count_children n parents)"
  shows "\<exists>order po. bfs (\<lambda>p. slice (fill_children ranges (if ranges = [] then 0 else snd (last ranges)) parents) (ranges ! p))
      0 [r] (replicate n None) = Some (order, po)
    \<and> bfs_state parents r (length order) order po \<and> parents ! r = None \<and> length parents = n"
proof -
  have r: "r < n" using choose_root_bound [OF assms(1)] by (simp add: n_def)
  have par: "parents = dir_parents directories (directory_lookup_new directories) (Some r)"
    by (simp add: parents_def tree_parents_def assms(1))
  have len: "length parents = n" by (simp add: par n_def)
  have root: "parents ! r = None" using r by (simp add: par n_def dir_parents_root)
  have bound: "q < n" if "c < length parents" "parents ! c = Some q" for c q
    using that dir_parents_bound [of c directories "Some r" q] r by (simp add: par n_def)
  have kids: "slice (fill_children ranges (if ranges = [] then 0 else snd (last ranges)) parents) (ranges ! p) = kids_of parents p"
    if "p < length parents" for p
    using slice_fill_children [of parents n p] bound that len unfolding ranges_def by simp
  show ?thesis
    using bfs_returns [OF kids root bfs_state_init [OF _ root]] r root len by auto
qed

lemma tree_of_sorted_rollups:
  assumes "length files < 2 ^ 64"
  shows "\<exists>t. tree_of_sorted volumes directories files = Some t
    \<and> tr_directories t = directories \<and> tr_files t = files \<and> length (tr_rollups t) = length directories
    \<and> (\<forall>p<length directories. tr_rollups t ! p =
        (if under_root directories p
         then rollup_of (files_below (tree_parents directories) (tree_file_parent directories) p files)
           (length (dirs_below (tree_parents directories) p))
         else rollup_of (filter (\<lambda>f. tree_file_parent directories f = Some p) files) 0))"
proof (cases "choose_root directories (directory_lookup_new directories)")
  case None
  then show ?thesis
    using assms by (simp add: tree_of_sorted_def Let_def compute_rollups_def under_root_def tree_file_parent_def
      direct_rollups_of length_direct_rollups)
next
  case (Some r)
  let ?parents = "tree_parents directories" and ?n = "length directories"
  let ?fp = "file_parent (directory_lookup_new directories) (Some r)"
  let ?ro = "direct_rollups (directory_lookup_new directories) (Some r) ?n files"
  obtain order po where bfs: "bfs (\<lambda>p. slice (fill_children (child_ranges 0 (count_children ?n ?parents))
        (if child_ranges 0 (count_children ?n ?parents) = [] then 0 else snd (last (child_ranges 0 (count_children ?n ?parents))))
        ?parents) (child_ranges 0 (count_children ?n ?parents) ! p)) 0 [r] (replicate ?n None) = Some (order, po)"
    and st: "bfs_state ?parents r (length order) order po" and root: "?parents ! r = None" and n: "length ?parents = ?n"
    using tree_bfs [OF Some] by blast
  have fp: "tree_file_parent directories = ?fp" by (simp add: tree_file_parent_def Some)
  have par: "dir_parents directories (directory_lookup_new directories) (Some r) = ?parents"
    by (simp add: tree_parents_def Some)
  have under: "under_root directories p \<longleftrightarrow> p \<in> set order" for p
    by (simp add: under_root_def Some bfs_order_iff [OF st root])
  have "sweep po order ?ro ! p = (if under_root directories p
      then rollup_of (files_below ?parents ?fp p files) (length (dirs_below ?parents p))
      else rollup_of (filter (\<lambda>f. ?fp f = Some p) files) 0)" if "p < ?n" for p
    using that assms sweep_rollup_of [OF st root n assms] sweep_unreached [OF st _ root]
    by (simp add: under direct_rollups_of)
  moreover have "length (sweep po order ?ro) = ?n" by (simp add: length_sweep length_direct_rollups)
  moreover have "tree_of_sorted volumes directories files = Some \<lparr>tr_export_metadata = Map.empty, tr_volumes = volumes, tr_directories = directories,
      tr_files = files, tr_dir_ranges = child_ranges 0 (count_children ?n ?parents),
      tr_file_ranges = child_ranges 0 (count_children ?n (map ?fp files)), tr_rollups = sweep po order ?ro,
      tr_pending_dir_children = fill_children (child_ranges 0 (count_children ?n ?parents))
        (if child_ranges 0 (count_children ?n ?parents) = [] then 0 else snd (last (child_ranges 0 (count_children ?n ?parents)))) ?parents,
      tr_lookup = directory_lookup_new directories, tr_root = Some r\<rparr>"
    unfolding tree_of_sorted_def Let_def Some par compute_rollups_def by (simp add: bfs)
  ultimately show ?thesis unfolding fp by simp
qed

lemma tree_of_sorted_Some:
  "length files < 2 ^ 64 \<Longrightarrow> tree_of_sorted volumes directories files = Some (the (tree_of_sorted volumes directories files))"
  using tree_of_sorted_rollups [of files volumes directories] by auto

text \<open>
  C29. Building the display tree from a transaction always returns (the breadth-first walk ends on any parent
  links, cyclic ones included). The tree holds the transaction's directories and files, sorted by id, and the
  rollup of every directory under the root is exact: the saturating totals, the file count, the item count and
  the newest timestamp over all the files and directories below it, orphans attached to the root included. A
  directory that only a cycle of parent links reaches keeps the totals of its own files alone.
\<close>

theorem display_tree_rollups:
  assumes "shuffles f" "shuffles g" "into_record_vecs transaction = (volumes, dirs, files)" "length files < 2 ^ 64"
  shows "\<exists>t. tree_build f g transaction = Some t
    \<and> mset (tr_directories t) = mset dirs \<and> sorted (map d_id (tr_directories t))
    \<and> mset (tr_files t) = mset files \<and> sorted (map f_id (tr_files t))
    \<and> (\<forall>p<length dirs. tr_rollups t ! p =
        (if under_root (tr_directories t) p
         then rollup_of (files_below (tree_parents (tr_directories t)) (tree_file_parent (tr_directories t)) p (tr_files t))
           (length (dirs_below (tree_parents (tr_directories t)) p))
         else rollup_of (filter (\<lambda>f. tree_file_parent (tr_directories t) f = Some p) (tr_files t)) 0))"
proof -
  obtain ds where ds: "sort_records_by_id f d_id dirs = Some ds" "mset ds = mset dirs" "sorted (map d_id ds)"
    using sort_records_by_id_sorts [OF assms(1)] by blast
  obtain fs where fs: "sort_records_by_id g f_id files = Some fs" "mset fs = mset files" "sorted (map f_id fs)"
    using sort_records_by_id_sorts [OF assms(2)] by blast
  have "length fs < 2 ^ 64" "length ds = length dirs"
    using fs(2) ds(2) assms(4) mset_eq_length by metis+
  with tree_of_sorted_rollups [of fs volumes ds] ds fs assms(3) show ?thesis
    by (auto simp: tree_build_def)
qed

lemma display_tree_rollups_witness:
  "\<exists>t. tree_build rev rev (transaction_default\<lparr>t_directories := dirs_insert 10 (tree_sample_dir 10 (Some 5) ''sub'')
        (dirs_insert 5 (tree_sample_dir 5 None ''C:'') dirs_with_capacity)\<rparr>) = Some t
    \<and> length (tr_directories t) = 2"
proof -
  let ?tr = "transaction_default\<lparr>t_directories := dirs_insert 10 (tree_sample_dir 10 (Some 5) ''sub'')
        (dirs_insert 5 (tree_sample_dir 5 None ''C:'') dirs_with_capacity)\<rparr>"
  have vecs: "into_record_vecs ?tr = ([], [tree_sample_dir 5 None ''C:'', tree_sample_dir 10 (Some 5) ''sub''], [])"
    by code_simp
  show ?thesis
    using display_tree_rollups [OF shuffles_id(2) shuffles_id(2) vecs]
    by (auto dest!: arg_cong [of "mset _" _ size])
qed

end
