(* ===== verification/Tree_Views.thy ===== *)
theory Tree_Views
  imports Tree_Rollups
begin

text \<open>
  The views of the display tree: the root and the rollup of a directory, its children in pages of
  descending size, the largest files of the volume and the display path of a file. The orders that
  \<open>ordered_directories\<close>, \<open>ordered_files\<close> and the largest-file cache compute once are functions of the tree
  and of the choices the unstable sorts make on ties.
\<close>

section \<open>Ordering every range of children\<close>

definition sort_range :: "('a list \<Rightarrow> 'a list) \<Rightarrow> ('a \<Rightarrow> 'a \<Rightarrow> bool) \<Rightarrow> nat \<times> nat \<Rightarrow> 'a list \<Rightarrow> 'a list" where
  "sort_range f le r xs =
    take (fst r) xs @ sort_unstable_by f le (take (snd r - fst r) (drop (fst r) xs)) @ drop (snd r) xs"

definition dir_physical :: "tree_index \<Rightarrow> nat \<Rightarrow> u64" where
  "dir_physical t child = ru_physical_bytes (tr_rollups t ! child)"

definition file_physical :: "tree_index \<Rightarrow> nat \<Rightarrow> u64" where
  "file_physical t child = f_allocation_bytes (tr_files t ! child)"

definition ordered_directories :: "(nat list \<Rightarrow> nat list) \<Rightarrow> tree_index \<Rightarrow> nat list" where
  "ordered_directories f t =
    fold (sort_range f (\<lambda>a b. dir_physical t b \<le> dir_physical t a)) (tr_dir_ranges t) (tr_pending_dir_children t)"

definition ordered_files :: "(nat list \<Rightarrow> nat list) \<Rightarrow> tree_index \<Rightarrow> nat list" where
  "ordered_files g t =
    (let count = (if tr_file_ranges t = [] then 0 else snd (last (tr_file_ranges t)));
         children = fill_children (tr_file_ranges t) count (map (file_parent (tr_lookup t) (tr_root t)) (tr_files t))
     in fold (sort_range g (\<lambda>a b. file_physical t b \<le> file_physical t a)) (tr_file_ranges t) children)"

section \<open>The root and the rollups\<close>

definition tree_root :: "tree_index \<Rightarrow> (directory_record \<times> dir_rollup) option" where
  "tree_root t = map_option (\<lambda>r. (tr_directories t ! r, tr_rollups t ! r)) (tr_root t)"

definition rollup_for :: "tree_index \<Rightarrow> u64 \<Rightarrow> dir_rollup option" where
  "rollup_for t directory_id = map_option (\<lambda>i. tr_rollups t ! i) (directory_lookup_get (tr_lookup t) directory_id)"

section \<open>Pages of children\<close>

datatype tree_entry = DirectoryEntry directory_record dir_rollup | FileEntry file_record

fun physical_bytes :: "tree_entry \<Rightarrow> u64" where
  "physical_bytes (DirectoryEntry d r) = ru_physical_bytes r"
| "physical_bytes (FileEntry f) = f_allocation_bytes f"

definition child_count :: "tree_index \<Rightarrow> u64 \<Rightarrow> nat option" where
  "child_count t directory_id = map_option (\<lambda>i.
     (snd (tr_dir_ranges t ! i) - fst (tr_dir_ranges t ! i)) + (snd (tr_file_ranges t ! i) - fst (tr_file_ranges t ! i)))
     (directory_lookup_get (tr_lookup t) directory_id)"

text \<open>The merge loop; the result is the visited entries and their number.\<close>

function child_loop :: "tree_index \<Rightarrow> nat list \<Rightarrow> nat list \<Rightarrow> nat \<Rightarrow> nat \<Rightarrow> nat \<Rightarrow> nat \<Rightarrow> nat \<Rightarrow> nat \<Rightarrow> nat \<Rightarrow> nat
    \<Rightarrow> tree_entry list \<times> nat" where
  "child_loop t dir_children file_children dir_end file_end offset limit dir_cursor file_cursor skipped emitted =
    (if emitted < limit \<and> (dir_cursor < dir_end \<or> file_cursor < file_end) then
       let next_dir_physical = (if dir_cursor < dir_end then Some (dir_physical t (dir_children ! dir_cursor)) else None);
           next_file_physical = (if file_cursor < file_end then Some (file_physical t (file_children ! file_cursor)) else None);
           take_dir = (case (next_dir_physical, next_file_physical) of
               (Some dir_bytes, Some file_bytes) \<Rightarrow> dir_bytes \<ge> file_bytes
             | (Some _, None) \<Rightarrow> True
             | (None, _) \<Rightarrow> False)
       in if take_dir then
            if skipped < offset
            then child_loop t dir_children file_children dir_end file_end offset limit (dir_cursor + 1) file_cursor (skipped + 1) emitted
            else let child = dir_children ! dir_cursor;
                     (visited, n) = child_loop t dir_children file_children dir_end file_end offset limit (dir_cursor + 1) file_cursor skipped (emitted + 1)
                 in (DirectoryEntry (tr_directories t ! child) (tr_rollups t ! child) # visited, n)
          else
            if skipped < offset
            then child_loop t dir_children file_children dir_end file_end offset limit dir_cursor (file_cursor + 1) (skipped + 1) emitted
            else let child = file_children ! file_cursor;
                     (visited, n) = child_loop t dir_children file_children dir_end file_end offset limit dir_cursor (file_cursor + 1) skipped (emitted + 1)
                 in (FileEntry (tr_files t ! child) # visited, n)
     else ([], emitted))"
  by pat_completeness auto
termination
  by (relation "measure (\<lambda>(t, ds, fs, dir_end, file_end, offset, limit, dir_cursor, file_cursor, skipped, emitted).
      (dir_end - dir_cursor) + (file_end - file_cursor))") (auto split: option.splits if_splits)

declare child_loop.simps [simp del]

definition for_each_child ::
  "(nat list \<Rightarrow> nat list) \<Rightarrow> (nat list \<Rightarrow> nat list) \<Rightarrow> tree_index \<Rightarrow> u64 \<Rightarrow> nat \<Rightarrow> nat \<Rightarrow> (tree_entry list \<times> nat) option" where
  "for_each_child f g t directory_id offset limit =
    (case directory_lookup_get (tr_lookup t) directory_id of
       None \<Rightarrow> None
     | Some index \<Rightarrow>
         let dirs = tr_dir_ranges t ! index; files = tr_file_ranges t ! index
         in if limit = 0 then Some ([], 0)
            else
              let dir_children = (if fst dirs = snd dirs then [] else ordered_directories f t);
                  file_children = (if fst files = snd files then [] else ordered_files g t)
              in Some (child_loop t dir_children file_children (snd dirs) (snd files) offset limit (fst dirs) (fst files) 0 0))"

section \<open>The largest files\<close>

definition LARGEST_FILE_CACHE_CAP :: nat where
  "LARGEST_FILE_CACHE_CAP = 10000"

definition compare_files :: "tree_index \<Rightarrow> nat \<Rightarrow> nat \<Rightarrow> ordering" where
  "compare_files t a b =
    then_with (cmp (file_physical t b) (file_physical t a)) (cmp (f_id (tr_files t ! a)) (f_id (tr_files t ! b)))"

definition largest_order ::
  "(nat list \<Rightarrow> nat list) \<Rightarrow> (nat list \<Rightarrow> nat list) \<Rightarrow> (nat list \<Rightarrow> nat list) \<Rightarrow> tree_index \<Rightarrow> nat \<Rightarrow> nat list option" where
  "largest_order smaller larger order_of t wanted =
    (let le = (\<lambda>a b. compare_files t a b \<noteq> Greater); order = [0..<length (tr_files t)] in
     map_option (sort_unstable_by order_of le)
       (if wanted < length order then map_option (take wanted) (select_nth_unstable_by smaller larger (wanted - 1) le order)
        else Some order))"

text \<open>The visited files; \<open>None\<close> is a panic of the selection.\<close>

definition for_each_largest_file ::
  "(nat list \<Rightarrow> nat list) \<Rightarrow> (nat list \<Rightarrow> nat list) \<Rightarrow> (nat list \<Rightarrow> nat list) \<Rightarrow> tree_index \<Rightarrow> nat \<Rightarrow> file_record list option" where
  "for_each_largest_file smaller larger order_of t limit =
    (let count = min limit (length (tr_files t)) in
     if count = 0 then Some []
     else if count \<le> LARGEST_FILE_CACHE_CAP then
       map_option (\<lambda>cached. map (\<lambda>i. tr_files t ! i) (take count cached))
         (largest_order smaller larger order_of t (min LARGEST_FILE_CACHE_CAP (length (tr_files t))))
     else map_option (map (\<lambda>i. tr_files t ! i)) (largest_order smaller larger order_of t count))"

definition for_each_largest_file_page ::
  "(nat list \<Rightarrow> nat list) \<Rightarrow> (nat list \<Rightarrow> nat list) \<Rightarrow> (nat list \<Rightarrow> nat list) \<Rightarrow> tree_index \<Rightarrow> nat \<Rightarrow> nat \<Rightarrow> file_record list option" where
  "for_each_largest_file_page smaller larger order_of t offset limit =
    (if offset \<ge> length (tr_files t) \<or> limit = 0 then Some []
     else map_option (\<lambda>visited. map snd (filter (\<lambda>(position, file). position \<ge> offset) (enumerate 0 visited)))
       (for_each_largest_file smaller larger order_of t (min (offset + limit) (2 ^ 64 - 1))))"

section \<open>Sorting the ranges leaves every range sorted in place\<close>

fun segments :: "nat list \<Rightarrow> 'a list \<Rightarrow> 'a list list" where
  "segments [] xs = []"
| "segments (c # cs) xs = take c xs # segments cs (drop c xs)"

lemma concat_segments: "length xs = sum_list cs \<Longrightarrow> concat (segments cs xs) = xs"
  by (induction cs arbitrary: xs) auto

lemma length_segments [simp]: "length (segments cs xs) = length cs"
  by (induction cs arbitrary: xs) auto

lemma segments_nth: "i < length cs \<Longrightarrow> segments cs xs ! i = take (cs ! i) (drop (sum_list (take i cs)) xs)"
proof (induction cs arbitrary: xs i)
  case (Cons c cs)
  then show ?case by (cases i) (simp_all add: add.commute)
qed simp

lemma length_sort_unstable_by: "shuffles f \<Longrightarrow> length (sort_unstable_by f le xs) = length xs"
  by (simp add: sort_unstable_by_def mset_eq_length [OF shufflesD])

lemma mset_sort_unstable_by: "shuffles f \<Longrightarrow> mset (sort_unstable_by f le xs) = mset xs"
  by (simp add: sort_unstable_by_def shufflesD)

lemma sort_ranges:
  assumes "shuffles f"
  shows "length xs = sum_list cs \<Longrightarrow> fold (sort_range f le) (child_ranges (length pre) cs) (pre @ xs) =
    pre @ concat (map (sort_unstable_by f le) (segments cs xs))"
proof (induction cs arbitrary: pre xs)
  case (Cons c cs)
  let ?s = "sort_unstable_by f le (take c xs)"
  have "length (pre @ ?s) = length pre + c"
    using Cons.prems by (simp add: length_sort_unstable_by [OF assms])
  moreover have "fold (sort_range f le) (child_ranges (length (pre @ ?s)) cs) ((pre @ ?s) @ drop c xs) =
      (pre @ ?s) @ concat (map (sort_unstable_by f le) (segments cs (drop c xs)))"
    by (rule Cons.IH) (use Cons.prems in simp)
  moreover have "sort_range f le (length pre, length pre + c) (pre @ xs) = (pre @ ?s) @ drop c xs"
    by (simp add: sort_range_def)
  ultimately show ?case by simp
qed simp

lemma slice_concat:
  "i < length yss \<Longrightarrow> take (length (yss ! i)) (drop (sum_list (map length (take i yss))) (concat yss)) = yss ! i"
proof (induction yss arbitrary: i)
  case (Cons ys yss)
  then show ?case by (cases i) auto
qed simp

lemma slice_sorted:
  assumes "shuffles f" "length xs = sum_list cs" "i < length cs"
  defines "ranges \<equiv> child_ranges 0 cs"
  shows "slice (fold (sort_range f le) ranges xs) (ranges ! i) = sort_unstable_by f le (slice xs (ranges ! i))"
proof -
  let ?yss = "map (sort_unstable_by f le) (segments cs xs)"
  have lens: "map length ?yss = cs"
    using assms(2)
  proof (induction cs arbitrary: xs)
    case (Cons c cs)
    then show ?case by (simp add: length_sort_unstable_by [OF assms(1)])
  qed simp
  have "fold (sort_range f le) ranges xs = concat ?yss"
    using sort_ranges [OF assms(1), of xs cs le "[]"] assms(2) by (simp add: ranges_def)
  moreover have "take (cs ! i) (drop (sum_list (take i cs)) (concat ?yss)) = ?yss ! i"
    using slice_concat [of i ?yss] assms(3) lens nth_map [of i ?yss length] by (simp only: length_map length_segments flip: take_map)
  ultimately show ?thesis
    using assms(3) by (simp add: slice_def ranges_def child_ranges_nth segments_nth)
qed

section \<open>Pages of children\<close>

text \<open>The whole sequence of children: directories before files of the same size.\<close>

fun merged :: "tree_index \<Rightarrow> nat list \<Rightarrow> nat list \<Rightarrow> tree_entry list" where
  "merged t [] [] = []"
| "merged t (d # ds) [] = DirectoryEntry (tr_directories t ! d) (tr_rollups t ! d) # merged t ds []"
| "merged t [] (f # fs) = FileEntry (tr_files t ! f) # merged t [] fs"
| "merged t (d # ds) (f # fs) =
    (if file_physical t f \<le> dir_physical t d
     then DirectoryEntry (tr_directories t ! d) (tr_rollups t ! d) # merged t ds (f # fs)
     else FileEntry (tr_files t ! f) # merged t (d # ds) fs)"

definition dir_entry :: "tree_index \<Rightarrow> nat \<Rightarrow> tree_entry" where
  "dir_entry t d = DirectoryEntry (tr_directories t ! d) (tr_rollups t ! d)"

definition file_entry :: "tree_index \<Rightarrow> nat \<Rightarrow> tree_entry" where
  "file_entry t f = FileEntry (tr_files t ! f)"

lemma mset_merged: "mset (merged t ds fs) = mset (map (dir_entry t) ds) + mset (map (file_entry t) fs)"
  by (induction t ds fs rule: merged.induct) (simp_all add: dir_entry_def file_entry_def)

lemma length_merged [simp]: "length (merged t ds fs) = length ds + length fs"
  by (induction t ds fs rule: merged.induct) simp_all

lemma physical_entries: "physical_bytes (dir_entry t d) = dir_physical t d" "physical_bytes (file_entry t f) = file_physical t f"
  by (simp_all add: dir_entry_def file_entry_def dir_physical_def file_physical_def)

lemma set_merged: "set (merged t ds fs) = dir_entry t ` set ds \<union> file_entry t ` set fs"
  using arg_cong [OF mset_merged [of t ds fs], of set_mset] by simp

lemma sorted_merged:
  "sorted_wrt (\<lambda>a b. dir_physical t b \<le> dir_physical t a) ds \<Longrightarrow> sorted_wrt (\<lambda>a b. file_physical t b \<le> file_physical t a) fs \<Longrightarrow>
    sorted_wrt (\<lambda>a b. physical_bytes b \<le> physical_bytes a) (merged t ds fs)"
proof (induction t ds fs rule: merged.induct)
  case (4 t d ds f fs)
  then show ?case
    by (auto simp: set_merged physical_entries simp flip: dir_entry_def file_entry_def)
qed (auto simp: set_merged physical_entries simp flip: dir_entry_def file_entry_def)

text \<open>The loop visits the part of the merged sequence that the offset and the limit cut out.\<close>

lemma child_loop_end:
  "\<not> (emitted < limit \<and> (dc < de \<or> fc < fe)) \<Longrightarrow> child_loop t ds fs de fe offset limit dc fc skipped emitted = ([], emitted)"
  by (subst child_loop.simps) (rule if_not_P)

lemma child_loop_dir:
  "emitted < limit \<Longrightarrow> dc < de \<Longrightarrow> (fc < fe \<Longrightarrow> file_physical t (fs ! fc) \<le> dir_physical t (ds ! dc)) \<Longrightarrow>
    child_loop t ds fs de fe offset limit dc fc skipped emitted =
    (if skipped < offset then child_loop t ds fs de fe offset limit (dc + 1) fc (skipped + 1) emitted
     else apfst (Cons (dir_entry t (ds ! dc))) (child_loop t ds fs de fe offset limit (dc + 1) fc skipped (emitted + 1)))"
  by (subst child_loop.simps) (simp add: Let_def dir_entry_def case_prod_unfold apfst_def map_prod_def)

lemma child_loop_file:
  "emitted < limit \<Longrightarrow> fc < fe \<Longrightarrow> (dc < de \<Longrightarrow> \<not> file_physical t (fs ! fc) \<le> dir_physical t (ds ! dc)) \<Longrightarrow>
    child_loop t ds fs de fe offset limit dc fc skipped emitted =
    (if skipped < offset then child_loop t ds fs de fe offset limit dc (fc + 1) (skipped + 1) emitted
     else apfst (Cons (file_entry t (fs ! fc))) (child_loop t ds fs de fe offset limit dc (fc + 1) skipped (emitted + 1)))"
  by (subst child_loop.simps) (simp add: Let_def file_entry_def case_prod_unfold apfst_def map_prod_def)

lemma drop_take_step: "k < e \<Longrightarrow> e \<le> length xs \<Longrightarrow> drop k (take e xs) = xs ! k # drop (Suc k) (take e xs)"
  by (subst Cons_nth_drop_Suc [symmetric]) simp_all

definition remaining :: "tree_index \<Rightarrow> nat list \<Rightarrow> nat list \<Rightarrow> nat \<Rightarrow> nat \<Rightarrow> nat \<Rightarrow> nat \<Rightarrow> tree_entry list" where
  "remaining t ds fs de fe dc fc = merged t (drop dc (take de ds)) (drop fc (take fe fs))"

lemma remaining_dir:
  assumes "dc < de" "dc < de \<Longrightarrow> de \<le> length ds" "fc < fe \<Longrightarrow> fe \<le> length fs" "fc < fe \<Longrightarrow> file_physical t (fs ! fc) \<le> dir_physical t (ds ! dc)"
  shows "remaining t ds fs de fe dc fc = dir_entry t (ds ! dc) # remaining t ds fs de fe (dc + 1) fc"
proof (cases "fc < fe")
  case True
  then show ?thesis using assms drop_take_step [of dc de ds] drop_take_step [of fc fe fs]
    by (simp add: remaining_def dir_entry_def)
next
  case False
  then show ?thesis using assms(1,2) drop_take_step [of dc de ds] by (simp add: remaining_def dir_entry_def)
qed

lemma remaining_file:
  assumes "fc < fe" "dc < de \<Longrightarrow> de \<le> length ds" "fc < fe \<Longrightarrow> fe \<le> length fs" "dc < de \<Longrightarrow> \<not> file_physical t (fs ! fc) \<le> dir_physical t (ds ! dc)"
  shows "remaining t ds fs de fe dc fc = file_entry t (fs ! fc) # remaining t ds fs de fe dc (fc + 1)"
proof (cases "dc < de")
  case True
  then show ?thesis using assms drop_take_step [of dc de ds] drop_take_step [of fc fe fs]
    by (simp add: remaining_def file_entry_def)
next
  case False
  then show ?thesis using assms(1,3) drop_take_step [of fc fe fs] by (simp add: remaining_def file_entry_def)
qed

lemma child_loop_page:
  "skipped \<le> offset \<Longrightarrow> emitted \<le> limit \<Longrightarrow> (dc < de \<Longrightarrow> de \<le> length ds) \<Longrightarrow> (fc < fe \<Longrightarrow> fe \<le> length fs) \<Longrightarrow>
    child_loop t ds fs de fe offset limit dc fc skipped emitted =
    (let page = take (limit - emitted) (drop (offset - skipped) (remaining t ds fs de fe dc fc))
     in (page, emitted + length page))"
proof (induction "(de - dc) + (fe - fc)" arbitrary: dc fc skipped emitted rule: less_induct)
  case less
  consider (ends) "\<not> (emitted < limit \<and> (dc < de \<or> fc < fe))"
    | (subdir) "emitted < limit" "dc < de" "fc < fe \<Longrightarrow> file_physical t (fs ! fc) \<le> dir_physical t (ds ! dc)"
    | (leaf) "emitted < limit" "fc < fe" "dc < de \<Longrightarrow> \<not> file_physical t (fs ! fc) \<le> dir_physical t (ds ! dc)"
    by blast
  then show ?case
  proof cases
    case ends
    then show ?thesis using less.prems by (auto simp: child_loop_end remaining_def Let_def)
  next
    case subdir
    have "(de - (dc + 1)) + (fe - fc) < (de - dc) + (fe - fc)" using subdir(2) by simp
    note IH = less.hyps [OF this]
    show ?thesis
    proof (cases "skipped < offset")
      case True
      then have "offset - skipped = Suc (offset - (skipped + 1))" by simp
      then show ?thesis
        using True less.prems IH [of "skipped + 1" emitted]
        by (simp add: child_loop_dir [OF subdir] remaining_dir [OF subdir(2) less.prems(3,4) subdir(3)])
    next
      case False
      moreover have "limit - emitted = Suc (limit - (emitted + 1))" using subdir(1) by simp
      ultimately show ?thesis
        using less.prems subdir(1) IH [of skipped "emitted + 1"]
        by (simp add: child_loop_dir [OF subdir] remaining_dir [OF subdir(2) less.prems(3,4) subdir(3)] Let_def)
    qed
  next
    case leaf
    have "(de - dc) + (fe - (fc + 1)) < (de - dc) + (fe - fc)" using leaf(2) by simp
    note IH = less.hyps [OF this]
    show ?thesis
    proof (cases "skipped < offset")
      case True
      then have "offset - skipped = Suc (offset - (skipped + 1))" by simp
      then show ?thesis
        using True less.prems IH [of "skipped + 1" emitted]
        by (simp add: child_loop_file [OF leaf] remaining_file [OF leaf(2) less.prems(3,4) leaf(3)])
    next
      case False
      moreover have "limit - emitted = Suc (limit - (emitted + 1))" using leaf(1) by simp
      ultimately show ?thesis
        using less.prems leaf(1) IH [of skipped "emitted + 1"]
        by (simp add: child_loop_file [OF leaf] remaining_file [OF leaf(2) less.prems(3,4) leaf(3)] Let_def)
    qed
  qed
qed

section \<open>The children of a directory of the built tree\<close>

lemma tree_of_sorted_fields:
  assumes "tree_of_sorted volumes directories files = Some t"
  defines "parents \<equiv> tree_parents directories" and "n \<equiv> length directories"
    and "fp \<equiv> map (tree_file_parent directories) files"
  shows "tr_directories t = directories" "tr_files t = files" "tr_volumes t = volumes"
    "tr_lookup t = directory_lookup_new directories" "tr_root t = choose_root directories (tr_lookup t)"
    "tr_dir_ranges t = child_ranges 0 (count_children n parents)"
    "tr_file_ranges t = child_ranges 0 (count_children n fp)"
    "tr_pending_dir_children t = fill_children (tr_dir_ranges t) (if tr_dir_ranges t = [] then 0 else snd (last (tr_dir_ranges t))) parents"
  using assms(1) unfolding tree_of_sorted_def Let_def parents_def n_def fp_def tree_parents_def tree_file_parent_def
  by (auto simp: map_option_case split: option.splits)

lemma tree_parents_bound:
  "c < length (tree_parents directories) \<Longrightarrow> tree_parents directories ! c = Some q \<Longrightarrow> q < length directories"
  by (auto simp: tree_parents_def Let_def dest: dir_parents_bound choose_root_bound)

lemma tree_file_parent_bound: "tree_file_parent directories f = Some q \<Longrightarrow> q < length directories"
  by (auto simp: tree_file_parent_def Let_def file_parent_def option_or_def dest: directory_lookup_bound choose_root_bound
      split: option.splits)

lemma length_kids_sum:
  "length (fill_children (child_ranges 0 cs) (if child_ranges 0 cs = [] then 0 else snd (last (child_ranges 0 cs))) parents) = sum_list cs"
proof -
  have len: "length (snd (fold (fill_child parents) ks (cu, xs))) = length xs" for ks cu and xs :: "nat list"
    by (induction ks arbitrary: cu xs) (auto simp: fill_child_def split: option.splits)
  show ?thesis
  proof (cases cs)
    case (Cons c cs')
    then show ?thesis using child_ranges_last [of cs 0] by (simp add: fill_children_def len)
  qed (simp add: fill_children_def len)
qed

text \<open>One of the two ordered vectors, and the part of it a directory has.\<close>

lemma ordered_part:
  fixes le :: "nat \<Rightarrow> nat \<Rightarrow> bool"
  assumes "shuffles f" "\<And>c q. c < length parents \<Longrightarrow> parents ! c = Some q \<Longrightarrow> q < n" "p < n"
  defines "ranges \<equiv> child_ranges 0 (count_children n parents)"
  defines "vec \<equiv> fold (sort_range f le) ranges (fill_children ranges (if ranges = [] then 0 else snd (last ranges)) parents)"
  shows "drop (fst (ranges ! p)) (take (snd (ranges ! p)) vec) = sort_unstable_by f le (kids_of parents p)"
    "snd (ranges ! p) - fst (ranges ! p) = length (kids_of parents p)"
    "fst (ranges ! p) < snd (ranges ! p) \<Longrightarrow> snd (ranges ! p) \<le> length vec"
proof -
  have "slice vec (ranges ! p) = sort_unstable_by f le (kids_of parents p)"
    unfolding vec_def ranges_def
    using slice_sorted [OF assms(1) length_kids_sum [of "count_children n parents" parents], of p le]
      slice_fill_children [of parents n p] assms(2,3) by simp
  then show part: "drop (fst (ranges ! p)) (take (snd (ranges ! p)) vec) = sort_unstable_by f le (kids_of parents p)"
    by (simp add: slice_def drop_take)
  show size: "snd (ranges ! p) - fst (ranges ! p) = length (kids_of parents p)"
    using assms(3) by (simp add: ranges_def child_ranges_nth count_children_nth)
  show "snd (ranges ! p) \<le> length vec" if "fst (ranges ! p) < snd (ranges ! p)"
    using arg_cong [OF part, of length] that size by (simp add: length_sort_unstable_by [OF assms(1)])
qed

interpretation by_size: total_comparison "\<lambda>a b. (size_of b :: u64) \<le> size_of a" UNIV
  by unfold_locales auto

text \<open>The loop only reads the part of a vector between its cursor and its end.\<close>

lemma for_each_child_page:
  assumes "shuffles f" "shuffles g" and tree: "tree_of_sorted volumes directories files = Some t"
    and dir: "directory_lookup_get (tr_lookup t) directory_id = Some p"
  defines "entries \<equiv> merged t
      (sort_unstable_by f (\<lambda>a b. dir_physical t b \<le> dir_physical t a) (kids_of (tree_parents directories) p))
      (sort_unstable_by g (\<lambda>a b. file_physical t b \<le> file_physical t a) (kids_of (map (tree_file_parent directories) files) p))"
  shows "for_each_child f g t directory_id offset limit =
    Some (take limit (drop offset entries), length (take limit (drop offset entries)))"
    and "child_count t directory_id = Some (length entries)"
proof -
  note flds = tree_of_sorted_fields [OF tree]
  have p: "p < length directories" using dir flds(4) directory_lookup_bound by metis
  have fp: "map (file_parent (tr_lookup t) (tr_root t)) (tr_files t) = map (tree_file_parent directories) files"
    by (simp add: flds(2,4,5) tree_file_parent_def Let_def)
  have bound: "q < length directories"
    if "c < length (map (tree_file_parent directories) files)" "map (tree_file_parent directories) files ! c = Some q" for c q
    using that by (auto dest: tree_file_parent_bound)
  let ?dr = "tr_dir_ranges t ! p" and ?fr = "tr_file_ranges t ! p"
  have dirs: "drop (fst ?dr) (take (snd ?dr) (ordered_directories f t)) =
      sort_unstable_by f (\<lambda>a b. dir_physical t b \<le> dir_physical t a) (kids_of (tree_parents directories) p)"
    unfolding ordered_directories_def flds(8) unfolding flds(6)
    by (rule ordered_part(1) [OF assms(1) _ p]) (rule tree_parents_bound)
  have dirs_end: "snd ?dr \<le> length (ordered_directories f t)" if "fst ?dr < snd ?dr"
    using that unfolding ordered_directories_def flds(8) unfolding flds(6)
    by (rule ordered_part(3) [OF assms(1) _ p, rotated]) (rule tree_parents_bound)
  have fils: "drop (fst ?fr) (take (snd ?fr) (ordered_files g t)) =
      sort_unstable_by g (\<lambda>a b. file_physical t b \<le> file_physical t a) (kids_of (map (tree_file_parent directories) files) p)"
    unfolding ordered_files_def Let_def fp unfolding flds(7)
    by (rule ordered_part(1) [OF assms(2) _ p]) (rule bound)
  have fils_end: "snd ?fr \<le> length (ordered_files g t)" if "fst ?fr < snd ?fr"
    using that unfolding ordered_files_def Let_def fp unfolding flds(7)
    by (rule ordered_part(3) [OF assms(2) _ p, rotated]) (rule bound)
  show "child_count t directory_id = Some (length entries)"
    using p
    by (simp add: flds(6,7) child_ranges_nth count_children_nth child_count_def dir entries_def length_sort_unstable_by assms(1,2))
  show "for_each_child f g t directory_id offset limit =
    Some (take limit (drop offset entries), length (take limit (drop offset entries)))"
  proof (cases "limit = 0")
    case False
    let ?ds = "if fst ?dr = snd ?dr then [] else ordered_directories f t"
    let ?fs = "if fst ?fr = snd ?fr then [] else ordered_files g t"
    have "remaining t ?ds ?fs (snd ?dr) (snd ?fr) (fst ?dr) (fst ?fr) = entries"
      using dirs fils by (cases "fst ?dr = snd ?dr"; cases "fst ?fr = snd ?fr") (simp_all add: remaining_def entries_def)
    then have "child_loop t ?ds ?fs (snd ?dr) (snd ?fr) offset limit (fst ?dr) (fst ?fr) 0 0 =
        (take limit (drop offset entries), length (take limit (drop offset entries)))"
      using child_loop_page [of 0 offset 0 limit "fst ?dr" "snd ?dr" ?ds "fst ?fr" "snd ?fr" ?fs t] dirs_end fils_end
      by (simp add: Let_def)
    then show ?thesis using False by (simp add: for_each_child_def dir Let_def)
  qed (simp add: for_each_child_def dir)
qed

text \<open>
  C30. Paging over a directory of the display tree: there is one sequence of entries, all direct child
  directories with their rollups and all files whose parent it is, ordered by descending physical size, such
  that every call of for_each_child visits exactly its part from the offset on, cut at the limit, and returns
  the number visited. So consecutive pages show every child once; child_count is the length of the sequence.
\<close>

theorem child_pages:
  assumes "shuffles f" "shuffles g" "tree_of_sorted volumes directories files = Some t"
    and "directory_lookup_get (tr_lookup t) directory_id = Some p"
  shows "\<exists>entries. child_count t directory_id = Some (length entries)
    \<and> (\<forall>offset limit. for_each_child f g t directory_id offset limit =
         Some (take limit (drop offset entries), length (take limit (drop offset entries))))
    \<and> sorted_wrt (\<lambda>a b. physical_bytes b \<le> physical_bytes a) entries
    \<and> mset entries =
        mset (map (\<lambda>d. DirectoryEntry (directories ! d) (tr_rollups t ! d)) (kids_of (tree_parents directories) p))
        + mset (map FileEntry (filter (\<lambda>f. tree_file_parent directories f = Some p) files))"
proof -
  let ?ds = "sort_unstable_by f (\<lambda>a b. dir_physical t b \<le> dir_physical t a) (kids_of (tree_parents directories) p)"
  let ?fs = "sort_unstable_by g (\<lambda>a b. file_physical t b \<le> file_physical t a) (kids_of (map (tree_file_parent directories) files) p)"
  note flds = tree_of_sorted_fields [OF assms(3)]
  have "map (file_entry t) (kids_of (map (tree_file_parent directories) files) p) =
      map FileEntry (filter (\<lambda>f. tree_file_parent directories f = Some p) (map (\<lambda>i. files ! i) [0..<length files]))"
    unfolding filter_map comp_def map_map by (auto simp: kids_of_def file_entry_def [abs_def] flds(2) intro!: map_cong filter_cong)
  then have "mset (map (file_entry t) ?fs) = mset (map FileEntry (filter (\<lambda>f. tree_file_parent directories f = Some p) files))"
    unfolding map_nth mset_map mset_sort_unstable_by [OF assms(2)] by (metis mset_map)
  moreover have "mset (map (dir_entry t) ?ds) =
      mset (map (\<lambda>d. DirectoryEntry (directories ! d) (tr_rollups t ! d)) (kids_of (tree_parents directories) p))"
    by (simp add: mset_sort_unstable_by [OF assms(1)] dir_entry_def [abs_def] flds(1))
  moreover have "sorted_wrt (\<lambda>a b. dir_physical t b \<le> dir_physical t a) ?ds"
    using assms(1) by (rule by_size.sorted_sort_unstable_by) simp
  moreover have "sorted_wrt (\<lambda>a b. file_physical t b \<le> file_physical t a) ?fs"
    using assms(2) by (rule by_size.sorted_sort_unstable_by) simp
  ultimately show ?thesis
    using for_each_child_page [OF assms] by (intro exI [of _ "merged t ?ds ?fs"]) (simp add: mset_merged sorted_merged)
qed

section \<open>The largest files\<close>

lemma compare_files_le: "compare_files t a b \<noteq> Greater \<longleftrightarrow>
    file_physical t b < file_physical t a \<or> file_physical t a = file_physical t b \<and> f_id (tr_files t ! a) \<le> f_id (tr_files t ! b)"
  by (auto simp: compare_files_def then_with_Less then_with_Greater not_less not_le intro: antisym)

text \<open>The order is determined on the files whose id no other file has.\<close>

definition sole_ids :: "tree_index \<Rightarrow> nat set" where
  "sole_ids t = {i. i < length (tr_files t) \<and> (\<forall>j<length (tr_files t). f_id (tr_files t ! j) = f_id (tr_files t ! i) \<longrightarrow> j = i)}"

interpretation compare_files: comparison "\<lambda>a b. compare_files t a b \<noteq> Greater" "sole_ids t"
proof (unfold_locales, goal_cases)
  case (1 a b)
  show ?case unfolding compare_files_le by auto
next
  case (2 a b c)
  from 2(4,5) show ?case unfolding compare_files_le by auto
next
  case (3 a b)
  then have "f_id (tr_files t ! a) = f_id (tr_files t ! b)" unfolding compare_files_le by auto
  moreover have "b < length (tr_files t)"
    and "\<forall>j<length (tr_files t). f_id (tr_files t ! j) = f_id (tr_files t ! a) \<longrightarrow> j = a"
    using 3(1,2) by (simp_all add: sole_ids_def)
  ultimately show ?case by metis
qed

definition file_ranking :: "tree_index \<Rightarrow> nat list" where
  "file_ranking t = sort_by (\<lambda>a b. compare_files t a b \<noteq> Greater) [0..<length (tr_files t)]"

lemma distinct_sole_ids: "distinct (map f_id (tr_files t)) \<Longrightarrow> set [0..<length (tr_files t)] \<subseteq> sole_ids t"
  by (auto simp: sole_ids_def distinct_conv_nth) blast

lemma largest_order_eq:
  assumes "shuffles smaller" "shuffles larger" "shuffles order_of" "distinct (map f_id (tr_files t))"
    and "0 < wanted" "wanted \<le> length (tr_files t)"
  shows "largest_order smaller larger order_of t wanted = Some (take wanted (file_ranking t))"
proof (cases "wanted < length (tr_files t)")
  case True
  then show ?thesis
    using compare_files.select_truncate_sort [OF assms(1-3) distinct_sole_ids [OF assms(4)] assms(5)]
    by (simp add: largest_order_def Let_def file_ranking_def option.map_comp comp_def)
next
  case False
  then have "wanted = length (tr_files t)" using assms(6) by simp
  then show ?thesis
    using compare_files.sort_unstable_by_eq [OF assms(3) distinct_sole_ids [OF assms(4)]]
    by (simp add: largest_order_def Let_def file_ranking_def)
qed

lemma for_each_largest_file_eq:
  assumes "shuffles smaller" "shuffles larger" "shuffles order_of" "distinct (map f_id (tr_files t))"
  shows "for_each_largest_file smaller larger order_of t limit = Some (take limit (map (\<lambda>i. tr_files t ! i) (file_ranking t)))"
proof -
  have len: "length (file_ranking t) = length (tr_files t)" by (simp add: file_ranking_def)
  let ?n = "min limit (length (tr_files t))"
  have cut: "take ?n (file_ranking t) = take limit (file_ranking t)" by (simp add: len min_def)
  consider "?n = 0" | "0 < ?n" "?n \<le> LARGEST_FILE_CACHE_CAP" | "0 < ?n" "\<not> ?n \<le> LARGEST_FILE_CACHE_CAP" by linarith
  then show ?thesis
  proof cases
    case 1
    moreover from 1 have "take limit (file_ranking t) = []" using len by (auto simp: min_def split: if_splits)
    ultimately show ?thesis by (simp add: for_each_largest_file_def Let_def take_map)
  next
    case 2
    let ?cap = "min LARGEST_FILE_CACHE_CAP (length (tr_files t))"
    have "0 < ?cap" "?cap \<le> length (tr_files t)" and cap: "min ?n ?cap = ?n"
      using 2 by (auto simp: LARGEST_FILE_CACHE_CAP_def)
    then have "largest_order smaller larger order_of t ?cap = Some (take ?cap (file_ranking t))"
      using largest_order_eq [OF assms] by blast
    moreover have "take ?n (take ?cap (file_ranking t)) = take limit (file_ranking t)"
      by (simp only: take_take cap cut)
    ultimately show ?thesis
      unfolding for_each_largest_file_def Let_def take_map if_not_P [OF 2(1) [THEN less_not_refl2]] if_P [OF 2(2)] by simp
  next
    case 3
    moreover have "largest_order smaller larger order_of t ?n = Some (take ?n (file_ranking t))"
      using largest_order_eq [OF assms 3(1)] by simp
    ultimately show ?thesis
      unfolding for_each_largest_file_def Let_def take_map if_not_P [OF 3(1) [THEN less_not_refl2]] if_not_P [OF 3(2)]
      by (simp add: cut)
  qed
qed

lemma positions_from: "map snd (filter (\<lambda>(position, file). position \<ge> offset) (enumerate k xs)) = drop (offset - k) xs"
proof (induction xs arbitrary: k)
  case (Cons x xs)
  show ?case
  proof (cases "offset \<le> k")
    case True
    then show ?thesis using Cons [of "Suc k"] by simp
  next
    case False
    then have "offset - k = Suc (offset - Suc k)" by simp
    then show ?thesis using False Cons [of "Suc k"] by simp
  qed
qed simp

text \<open>
  C31. The largest-file pages of a tree with distinct file ids: one ranking of all files, by descending
  allocation size and then by id, such that for_each_largest_file_page visits its part from the offset on, cut
  at the limit, for every offset and limit; whether the request is served by the capped cache or by a sort of
  its own makes no difference, nor do the choices of the unstable operations.
\<close>

theorem largest_file_pages:
  assumes "distinct (map f_id (tr_files t))" "length (tr_files t) < 2 ^ 64"
  shows "\<exists>ranking. mset ranking = mset (tr_files t)
    \<and> sorted_wrt (\<lambda>a b. f_allocation_bytes b < f_allocation_bytes a
          \<or> f_allocation_bytes a = f_allocation_bytes b \<and> f_id a \<le> f_id b) ranking
    \<and> (\<forall>smaller larger order_of offset limit. shuffles smaller \<longrightarrow> shuffles larger \<longrightarrow> shuffles order_of \<longrightarrow>
         for_each_largest_file_page smaller larger order_of t offset limit = Some (take limit (drop offset ranking)))"
proof -
  let ?ranking = "map (\<lambda>i. tr_files t ! i) (file_ranking t)"
  have len: "length ?ranking = length (tr_files t)" by (simp add: file_ranking_def)
  have "for_each_largest_file_page smaller larger order_of t offset limit = Some (take limit (drop offset ?ranking))"
    if "shuffles smaller" "shuffles larger" "shuffles order_of" for smaller larger order_of offset limit
  proof (cases "offset \<ge> length (tr_files t) \<or> limit = 0")
    case True
    then show ?thesis using len by (auto simp: for_each_largest_file_page_def)
  next
    case False
    have "take (min (offset + limit) (2 ^ 64 - 1)) ?ranking = take (offset + limit) ?ranking"
      using len assms(2) by (cases "offset + limit \<le> 2 ^ 64 - 1") simp_all
    then show ?thesis
      using False by (simp add: for_each_largest_file_page_def for_each_largest_file_eq [OF that assms(1)] positions_from
          drop_take)
  qed
  moreover have "mset ?ranking = mset (tr_files t)"
  proof -
    have "mset ?ranking = mset (map (\<lambda>i. tr_files t ! i) [0..<length (tr_files t)])"
      by (simp only: mset_map file_ranking_def mset_sort_by)
    then show ?thesis by (simp only: map_nth)
  qed
  moreover have "sorted_wrt (\<lambda>a b. f_allocation_bytes b < f_allocation_bytes a
          \<or> f_allocation_bytes a = f_allocation_bytes b \<and> f_id a \<le> f_id b) ?ranking"
  proof -
    have "sorted_wrt (\<lambda>a b. compare_files t a b \<noteq> Greater) (file_ranking t)"
      unfolding file_ranking_def using distinct_sole_ids [OF assms(1)] by (rule compare_files.sorted_sort_by)
    then show ?thesis by (simp add: sorted_wrt_map compare_files_le file_physical_def)
  qed
  ultimately show ?thesis by (intro exI [of _ ?ranking]) simp
qed

text \<open>A tree with one subdirectory and two files under the root.\<close>

definition sample_tree :: "tree_index" where
  "sample_tree = the (tree_of_sorted [] [tree_sample_dir 5 None ''C:'', tree_sample_dir 6 (Some 5) ''C:/sub'']
     [tree_sample_file 1 5 ''a'' 10, tree_sample_file 2 5 ''b'' 30, tree_sample_file 3 6 ''c'' 20])"

lemma sample_tree: "tree_of_sorted [] [tree_sample_dir 5 None ''C:'', tree_sample_dir 6 (Some 5) ''C:/sub'']
     [tree_sample_file 1 5 ''a'' 10, tree_sample_file 2 5 ''b'' 30, tree_sample_file 3 6 ''c'' 20] = Some sample_tree"
  unfolding sample_tree_def by (rule tree_of_sorted_Some) simp

lemma sample_lookup:
  "directory_lookup_new [tree_sample_dir 5 None ''C:'', tree_sample_dir 6 (Some 5) ''C:/sub''] = DenseIds 5 2"
  by (simp add: directory_lookup_new_def tree_sample_dir_def checked_add_def Let_def upt_rec)

lemma sample_root: "choose_root [tree_sample_dir 5 None ''C:'', tree_sample_dir 6 (Some 5) ''C:/sub''] (DenseIds 5 2) = Some 0"
  by (simp add: choose_root_def checked_sub_def is_root_like_def tree_sample_dir_def)

lemma sample_tree_root: "directory_lookup_get (tr_lookup sample_tree) 5 = Some 0"
  unfolding tree_of_sorted_fields(4) [OF sample_tree] sample_lookup by (simp add: checked_sub_def)

lemma sample_kids:
  "kids_of (tree_parents [tree_sample_dir 5 None ''C:'', tree_sample_dir 6 (Some 5) ''C:/sub'']) 0 = [1]"
  "filter (\<lambda>f. tree_file_parent [tree_sample_dir 5 None ''C:'', tree_sample_dir 6 (Some 5) ''C:/sub''] f = Some 0)
    [tree_sample_file 1 5 ''a'' 10, tree_sample_file 2 5 ''b'' 30, tree_sample_file 3 6 ''c'' 20]
    = [tree_sample_file 1 5 ''a'' 10, tree_sample_file 2 5 ''b'' 30]"
  unfolding tree_parents_def tree_file_parent_def Let_def sample_lookup sample_root
  by (simp_all add: kids_of_def dir_parents_def structural_parent_def file_parent_def option_or_def option_filter_def
      checked_sub_def tree_sample_dir_def tree_sample_file_def Let_def upt_rec)

lemma child_pages_witness:
  "\<exists>entries. child_count sample_tree 5 = Some (length entries) \<and> length entries = 3
    \<and> for_each_child rev rev sample_tree 5 1 1 = Some (take 1 (drop 1 entries), 1)"
  using child_pages [OF shuffles_id(2) shuffles_id(2) sample_tree sample_tree_root] unfolding sample_kids
  by (auto dest!: arg_cong [of "mset _" _ size])

lemma largest_file_pages_witness:
  "\<exists>ranking. mset ranking = mset (tr_files sample_tree) \<and>
    for_each_largest_file_page rev rev rev sample_tree 1 1 = Some (take 1 (drop 1 ranking))"
proof -
  have "distinct (map f_id (tr_files sample_tree))" "length (tr_files sample_tree) < 2 ^ 64"
    unfolding tree_of_sorted_fields(2) [OF sample_tree] by (simp_all add: tree_sample_file_def)
  from largest_file_pages [OF this] shuffles_id(2) show ?thesis by blast
qed

end
