(* ===== verification/Tree_Paths.thy ===== *)
theory Tree_Paths
  imports Tree_Views
begin

text \<open>
  The display paths of the tree's files and \<open>contains_file_display_path\<close>, the test of an export's
  destination against them, which compares ASCII paths in fragments.
\<close>

section \<open>Display paths\<close>

definition directory_full_path :: "tree_index \<Rightarrow> u64 \<Rightarrow> string option" where
  "directory_full_path t directory_id =
    map_option (\<lambda>i. d_full_path (tr_directories t ! i)) (directory_lookup_get (tr_lookup t) directory_id)"

definition file_display_path :: "tree_index \<Rightarrow> file_record \<Rightarrow> string" where
  "file_display_path t file =
    (if f_full_path file \<noteq> [] then f_full_path file
     else case directory_full_path t (f_parent_directory_id file) of
       Some parent \<Rightarrow> join_path parent (f_name file)
     | None \<Rightarrow> f_name file)"

text \<open>\<open>trim_start_matches\<close> strips the prefix as often as it stands; \<open>lowercase\<close> is \<open>str::to_lowercase\<close>, whose
  Unicode tables are a parameter.\<close>

definition verbatim_prefix :: string where
  "verbatim_prefix = [backslash, backslash, CHR ''?'', backslash]"

function trim_verbatim :: "string \<Rightarrow> string" where
  "trim_verbatim s = (if take 4 s = verbatim_prefix then trim_verbatim (drop 4 s) else s)"
  by pat_completeness auto
termination
proof (relation "measure length")
  fix s assume "take 4 s = verbatim_prefix"
  then have "s \<noteq> []" by (auto simp: verbatim_prefix_def)
  then show "(drop 4 s, s) \<in> measure length" by simp
qed simp

declare trim_verbatim.simps [simp del]

definition is_ascii :: "string \<Rightarrow> bool" where
  "is_ascii s \<longleftrightarrow> list_all (\<lambda>c. (of_char c :: nat) < 128) s"

definition file_has_display_path :: "(string \<Rightarrow> string) \<Rightarrow> tree_index \<Rightarrow> string \<Rightarrow> file_record \<Rightarrow> bool" where
  "file_has_display_path lowercase t target file =
    (let slow = lowercase (trim_verbatim (file_display_path t file)) = target in
     if f_full_path file \<noteq> [] then
       let source = trim_verbatim (f_full_path file)
       in if is_ascii source \<and> is_ascii target then eq_ignore_ascii_case source target else slow
     else
       let raw_parent = (case directory_full_path t (f_parent_directory_id file) of Some p \<Rightarrow> p | None \<Rightarrow> []);
           parent = trim_verbatim raw_parent
       in if is_ascii parent \<and> is_ascii (f_name file) \<and> is_ascii target \<and> backslash \<notin> set (f_name file)
          then
            let separator = raw_parent \<noteq> [] \<and> \<not> ends_with_char raw_parent backslash;
                sep = (if separator then 1 else 0)
            in length target = length parent + sep + length (f_name file)
               \<and> eq_ignore_ascii_case (take (length parent) target) parent
               \<and> (separator \<longrightarrow> target ! length parent = backslash)
               \<and> eq_ignore_ascii_case (drop (length parent + sep) target) (f_name file)
          else slow)"

definition contains_file_display_path :: "(string \<Rightarrow> string) \<Rightarrow> tree_index \<Rightarrow> string \<Rightarrow> bool" where
  "contains_file_display_path lowercase t path =
    (let target = lowercase (trim_verbatim path) in list_ex (file_has_display_path lowercase t target) (tr_files t))"

section \<open>Comparing in fragments\<close>

definition separator :: "string \<Rightarrow> string" where
  "separator raw = (if raw \<noteq> [] \<and> \<not> ends_with_char raw backslash then [backslash] else [])"

lemma join_path_separator: "join_path raw name = raw @ separator raw @ name"
  by (simp add: join_path_def separator_def Let_def)

text \<open>Three characters that a separator would turn into the prefix.\<close>

definition torn_prefix :: string where
  "torn_prefix = [backslash, backslash, CHR ''?'']"

lemma trim_verbatim_joined:
  assumes "backslash \<notin> set name"
  shows "trim_verbatim raw \<noteq> torn_prefix \<Longrightarrow> trim_verbatim (raw @ separator raw @ name) = trim_verbatim raw @ separator raw @ name"
proof (induction raw rule: trim_verbatim.induct)
  case (1 raw)
  show ?case
  proof (cases "take 4 raw = verbatim_prefix")
    case True
    then obtain r where raw: "raw = verbatim_prefix @ r" by (metis append_take_drop_id)
    have sep: "separator raw = separator r"
      by (cases "r = []") (simp_all add: raw separator_def ends_with_char_def verbatim_prefix_def)
    have r: "drop 4 raw = r" by (simp add: raw verbatim_prefix_def)
    have trim: "trim_verbatim raw = trim_verbatim r" using True r trim_verbatim.simps [of raw] by simp
    have "trim_verbatim (raw @ separator raw @ name) = trim_verbatim (r @ separator r @ name)"
    proof -
      have "take 4 (raw @ x) = verbatim_prefix" "drop 4 (raw @ x) = r @ x" for x
        by (simp_all add: raw verbatim_prefix_def)
      then show ?thesis using trim_verbatim.simps [of "raw @ separator raw @ name"] sep by metis
    qed
    also have "\<dots> = trim_verbatim r @ separator r @ name"
      using 1 True r trim by simp
    finally show ?thesis by (simp add: trim sep)
  next
    case False
    then have trim: "trim_verbatim raw = raw" by (simp add: trim_verbatim.simps [of raw])
    have "take 4 (raw @ separator raw @ name) \<noteq> verbatim_prefix"
    proof
      assume pre: "take 4 (raw @ separator raw @ name) = verbatim_prefix"
      have "length raw < 4" using False pre by (cases "4 \<le> length raw") auto
      then consider "raw = []" | a where "raw = [a]" | a b where "raw = [a, b]" | a b c where "raw = [a, b, c]"
        by (cases raw rule: list.exhaust; cases "tl raw"; cases "tl (tl raw)"; cases "tl (tl (tl raw))") auto
      then show False
      proof cases
        case 1
        then show ?thesis using pre assms by (cases name) (auto simp: separator_def verbatim_prefix_def)
      next
        case (2 a)
        then show ?thesis using pre assms
          by (cases name) (auto simp: separator_def ends_with_char_def verbatim_prefix_def split: if_splits)
      next
        case (3 a b)
        then show ?thesis using pre assms
          by (cases name; cases "tl name") (auto simp: separator_def ends_with_char_def verbatim_prefix_def split: if_splits)
      next
        case (4 a b c)
        then show ?thesis using pre "1.prems" trim
          by (cases name) (auto simp: torn_prefix_def separator_def ends_with_char_def verbatim_prefix_def split: if_splits)
      qed
    qed
    then show ?thesis by (simp add: trim trim_verbatim.simps [of "raw @ separator raw @ name"])
  qed
qed

lemma lowercase_idem [simp]: "to_ascii_lowercase (to_ascii_lowercase s) = to_ascii_lowercase s"
  by (simp add: to_ascii_lowercase_def)

text \<open>Comparing in fragments is comparing the joined path.\<close>

lemma fragments_equal:
  assumes "to_ascii_lowercase target = target" "sep = [] \<or> sep = [backslash]"
  shows "length target = length parent + length sep + length name
      \<and> eq_ignore_ascii_case (take (length parent) target) parent
      \<and> (sep \<noteq> [] \<longrightarrow> target ! length parent = backslash)
      \<and> eq_ignore_ascii_case (drop (length parent + length sep) target) name
    \<longleftrightarrow> to_ascii_lowercase (parent @ sep @ name) = target"
proof -
  let ?lo = "to_ascii_lowercase"
  have sep: "?lo sep = sep" using assms(2) by (auto simp: to_ascii_lowercase_def ascii_lower_def)
  have parts: "?lo (take k target) = take k target" "?lo (drop k target) = drop k target" for k
    using assms(1) by (metis take_map drop_map to_ascii_lowercase_def)+
  let ?a = "take (length parent) target" and ?b = "take (length sep) (drop (length parent) target)"
  let ?c = "drop (length parent + length sep) target"
  have low: "?lo (parent @ sep @ name) = ?lo parent @ sep @ ?lo name"
    using sep by (simp add: to_ascii_lowercase_def)
  have len: "length (?lo parent) = length parent" "length (?lo name) = length name"
    by (simp_all add: to_ascii_lowercase_def)
  have glue: "target = ?a @ ?b @ ?c"
    by (metis append_take_drop_id drop_drop add.commute)
  have mid: "?b = sep \<longleftrightarrow> (sep \<noteq> [] \<longrightarrow> target ! length parent = backslash)"
    if "length target = length parent + length sep + length name"
    using assms(2)
  proof
    assume "sep = [backslash]"
    then have "drop (length parent) target = target ! length parent # drop (Suc (length parent)) target"
      using that by (intro Cons_nth_drop_Suc [symmetric]) simp
    then show ?thesis using \<open>sep = [backslash]\<close> by simp
  qed simp
  show ?thesis (is "?l \<longleftrightarrow> ?r")
  proof
    assume ?l
    then have "?a = ?lo parent" "?b = sep" "?c = ?lo name"
      using mid by (simp_all add: eq_ignore_ascii_case_iff parts)
    then show ?r using glue low by simp
  next
    assume ?r
    then have t: "target = ?lo parent @ sep @ ?lo name" using low by simp
    then have "length target = length parent + length sep + length name" using len by simp
    moreover have "?a = ?lo parent" "?b = sep" "?c = ?lo name"
      using t len by simp_all
    ultimately show ?l using mid by (simp add: eq_ignore_ascii_case_iff parts)
  qed
qed

lemma is_ascii_separated: "is_ascii (p @ separator raw @ n) \<longleftrightarrow> is_ascii p \<and> is_ascii n"
  by (simp add: is_ascii_def separator_def)

lemma file_has_display_path_iff:
  assumes ascii: "\<And>s. is_ascii s \<Longrightarrow> lowercase s = to_ascii_lowercase s"
    and target: "is_ascii target \<Longrightarrow> to_ascii_lowercase target = target"
    and parent: "\<And>raw. f_full_path file = [] \<Longrightarrow> directory_full_path t (f_parent_directory_id file) = Some raw \<Longrightarrow>
      trim_verbatim raw \<noteq> torn_prefix"
  shows "file_has_display_path lowercase t target file \<longleftrightarrow> lowercase (trim_verbatim (file_display_path t file)) = target"
proof (cases "f_full_path file = []")
  case False
  then show ?thesis
    using ascii [of "trim_verbatim (f_full_path file)"] target
    by (auto simp: file_has_display_path_def file_display_path_def Let_def eq_ignore_ascii_case_iff)
next
  case True
  define raw where "raw = (case directory_full_path t (f_parent_directory_id file) of Some p \<Rightarrow> p | None \<Rightarrow> [])"
  have path: "file_display_path t file = raw @ separator raw @ f_name file"
    using True by (simp add: file_display_path_def raw_def join_path_separator separator_def split: option.splits)
  have torn: "trim_verbatim raw \<noteq> torn_prefix"
  proof (cases "directory_full_path t (f_parent_directory_id file)")
    case None
    then show ?thesis by (simp add: raw_def torn_prefix_def verbatim_prefix_def trim_verbatim.simps [of "[]"])
  qed (use parent [OF True] in \<open>simp add: raw_def\<close>)
  show ?thesis
  proof (cases "is_ascii (trim_verbatim raw) \<and> is_ascii (f_name file) \<and> is_ascii target \<and> backslash \<notin> set (f_name file)")
    case fast: True
    have "lowercase (trim_verbatim (file_display_path t file)) =
        to_ascii_lowercase (trim_verbatim raw @ separator raw @ f_name file)"
      unfolding path using fast torn by (simp add: trim_verbatim_joined ascii is_ascii_separated)
    moreover have "separator raw = [] \<or> separator raw = [backslash]" by (simp add: separator_def)
    ultimately have frag: "(length target = length (trim_verbatim raw) + length (separator raw) + length (f_name file)
        \<and> eq_ignore_ascii_case (take (length (trim_verbatim raw)) target) (trim_verbatim raw)
        \<and> (separator raw \<noteq> [] \<longrightarrow> target ! length (trim_verbatim raw) = backslash)
        \<and> eq_ignore_ascii_case (drop (length (trim_verbatim raw) + length (separator raw)) target) (f_name file))
      \<longleftrightarrow> lowercase (trim_verbatim (file_display_path t file)) = target"
      using fragments_equal [OF target, of "separator raw" "trim_verbatim raw" "f_name file"] fast by metis
    have sep: "(raw \<noteq> [] \<and> \<not> ends_with_char raw backslash) = (separator raw \<noteq> [])"
      "(if separator raw \<noteq> [] then 1 else 0) = length (separator raw)"
      by (simp_all add: separator_def)
    show ?thesis
      unfolding file_has_display_path_def Let_def raw_def [symmetric] sep frag
      using fast True by simp
  next
    case False
    then show ?thesis using True by (auto simp: file_has_display_path_def Let_def simp flip: raw_def)
  qed
qed

text \<open>
  C32. contains_file_display_path, which compares ASCII paths in fragments without building them, answers
  whether some file's display path is the given one, both without verbatim prefix and in lower case. The
  lower-casing is str::to_lowercase, of which only its ASCII behaviour is used; no parent directory's path may
  end in the torn prefix that a separator would complete.
\<close>

theorem contains_display_path:
  assumes "\<And>s. is_ascii s \<Longrightarrow> lowercase s = to_ascii_lowercase s"
    and "\<And>s. is_ascii (lowercase s) \<Longrightarrow> to_ascii_lowercase (lowercase s) = lowercase s"
    and "\<And>file raw. file \<in> set (tr_files t) \<Longrightarrow> f_full_path file = [] \<Longrightarrow>
      directory_full_path t (f_parent_directory_id file) = Some raw \<Longrightarrow> trim_verbatim raw \<noteq> torn_prefix"
  shows "contains_file_display_path lowercase t path \<longleftrightarrow>
    (\<exists>file\<in>set (tr_files t). lowercase (trim_verbatim (file_display_path t file)) = lowercase (trim_verbatim path))"
  unfolding contains_file_display_path_def Let_def list_ex_iff
proof (rule bex_cong [OF refl])
  fix g assume "g \<in> set (tr_files t)"
  then show "file_has_display_path lowercase t (lowercase (trim_verbatim path)) g \<longleftrightarrow>
      lowercase (trim_verbatim (file_display_path t g)) = lowercase (trim_verbatim path)"
    by (intro file_has_display_path_iff assms)
qed

lemma contains_display_path_witness:
  "contains_file_display_path (\<lambda>s. if is_ascii s then to_ascii_lowercase s else s) sample_tree ''C:/A'' \<longleftrightarrow>
    (\<exists>g\<in>set (tr_files sample_tree). (if is_ascii (trim_verbatim (file_display_path sample_tree g))
       then to_ascii_lowercase (trim_verbatim (file_display_path sample_tree g))
       else trim_verbatim (file_display_path sample_tree g)) = to_ascii_lowercase ''C:/A'')"
proof -
  have plain: "trim_verbatim ''C:/A'' = ''C:/A''" "trim_verbatim ''C:'' \<noteq> torn_prefix" "trim_verbatim ''C:/sub'' \<noteq> torn_prefix"
    by (simp_all add: trim_verbatim.simps [of "''C:/A''"] trim_verbatim.simps [of "''C:''"]
        trim_verbatim.simps [of "''C:/sub''"] verbatim_prefix_def torn_prefix_def)
  have paths: "trim_verbatim raw \<noteq> torn_prefix" if path: "directory_full_path sample_tree i = Some raw" for i raw
  proof -
    from path obtain k where "directory_lookup_get (DenseIds 5 2) i = Some k"
      "raw = d_full_path ([tree_sample_dir 5 None ''C:'', tree_sample_dir 6 (Some 5) ''C:/sub''] ! k)"
      unfolding directory_full_path_def tree_of_sorted_fields(1,4) [OF sample_tree] sample_lookup by auto
    then have "raw = ''C:'' \<or> raw = ''C:/sub''"
      by (auto simp: bind_eq_Some_conv tree_sample_dir_def less_2_cases_iff split: if_splits)
    then show ?thesis using plain by auto
  qed
  show ?thesis
    by (subst contains_display_path) (use paths in \<open>auto simp: plain is_ascii_def\<close>)
qed

end
