(* ===== verification/Ntfs_Layout.thy ===== *)
theory Ntfs_Layout
  imports Wb_Text
begin

text \<open>
  The on-disk layout of NTFS as \<open>WinBlaze.Scanner/src/ntfs.rs\<close> reads it: checked and unchecked
  little-endian reads, the update-sequence fixups of file records, the data runs of a non-resident
  attribute and the trimming of the extents they denote. A Rust panic is the error \<open>Panicked\<close>; offsets
  are naturals, since every sum the code forms stays far below the 64 bits of \<open>usize\<close>.
\<close>

datatype ntfs_error = NtfsIo string | InvalidRecord string | Panicked

definition NTFS_RECORD_SIZE :: nat where "NTFS_RECORD_SIZE = 1024"

definition FILE_RECORD_SIGNATURE :: "byte list" where "FILE_RECORD_SIGNATURE = [0x46, 0x49, 0x4C, 0x45]"

section \<open>Indexing, slicing and little-endian reads\<close>

definition index_byte :: "byte list \<Rightarrow> nat \<Rightarrow> ntfs_error + byte" where
  "index_byte bytes i = (if i < length bytes then Inr (bytes ! i) else Inl Panicked)"

definition slice_bytes :: "byte list \<Rightarrow> nat \<Rightarrow> nat \<Rightarrow> ntfs_error + byte list" where
  "slice_bytes bytes a b = (if a \<le> b \<and> b \<le> length bytes then Inr (take (b - a) (drop a bytes)) else Inl Panicked)"

definition le_u16 :: "byte list \<Rightarrow> nat \<Rightarrow> ntfs_error + u16" where
  "le_u16 bytes offset = rbind (index_byte bytes offset) (\<lambda>a.
     rbind (index_byte bytes (offset + 1)) (\<lambda>b. Inr (from_le [a, b])))"

definition le_u32 :: "byte list \<Rightarrow> nat \<Rightarrow> ntfs_error + u32" where
  "le_u32 bytes offset = rbind (slice_bytes bytes offset (offset + 4)) (\<lambda>bs. Inr (from_le bs))"

definition le_u64 :: "byte list \<Rightarrow> nat \<Rightarrow> ntfs_error + u64" where
  "le_u64 bytes offset = rbind (slice_bytes bytes offset (offset + 8)) (\<lambda>bs. Inr (from_le bs))"

definition le_i64 :: "byte list \<Rightarrow> nat \<Rightarrow> ntfs_error + i64" where
  "le_i64 bytes offset = rbind (slice_bytes bytes offset (offset + 8)) (\<lambda>bs. Inr (from_le bs))"

definition try_read :: "nat \<Rightarrow> string \<Rightarrow> byte list \<Rightarrow> nat \<Rightarrow> ntfs_error + 'a::len word" where
  "try_read n message bytes offset =
     (if offset + n > length bytes then Inl (InvalidRecord message) else Inr (from_le (take n (drop offset bytes))))"

definition try_u16 :: "byte list \<Rightarrow> nat \<Rightarrow> ntfs_error + u16" where
  "try_u16 = try_read 2 ''u16 out of bounds''"

definition try_u32 :: "byte list \<Rightarrow> nat \<Rightarrow> ntfs_error + u32" where
  "try_u32 = try_read 4 ''u32 out of bounds''"

definition try_u64 :: "byte list \<Rightarrow> nat \<Rightarrow> ntfs_error + u64" where
  "try_u64 = try_read 8 ''u64 out of bounds''"

lemma le_u16_in_bounds: "offset + 2 \<le> length bytes \<Longrightarrow> le_u16 bytes offset = Inr (from_le [bytes ! offset, bytes ! Suc offset])"
  by (simp add: le_u16_def index_byte_def)

lemma le_slices_in_bounds:
  "offset + 4 \<le> length bytes \<Longrightarrow> le_u32 bytes offset = Inr (from_le (take 4 (drop offset bytes)))"
  "offset + 8 \<le> length bytes \<Longrightarrow> le_u64 bytes offset = Inr (from_le (take 8 (drop offset bytes)))"
  "offset + 8 \<le> length bytes \<Longrightarrow> le_i64 bytes offset = Inr (from_le (take 8 (drop offset bytes)))"
  by (simp_all add: le_u32_def le_u64_def le_i64_def slice_bytes_def)

section \<open>Update-sequence fixups\<close>

fun fixup_sectors :: "nat \<Rightarrow> nat \<Rightarrow> byte list \<Rightarrow> nat list \<Rightarrow> byte list \<Rightarrow> bool \<times> byte list" where
  "fixup_sectors bytes_per_sector usa_offset usn [] record = (True, record)"
| "fixup_sectors bytes_per_sector usa_offset usn (index # rest) record =
    (let sector_end = index * bytes_per_sector in
     if sector_end > length record then (False, record)
     else if [record ! (sector_end - 2), record ! (sector_end - 1)] \<noteq> usn then (False, record)
     else fixup_sectors bytes_per_sector usa_offset usn rest
       (record[sector_end - 2 := record ! (usa_offset + index * 2),
               sector_end - 1 := record ! (usa_offset + index * 2 + 1)]))"

text \<open>The record is fixed up in place, also when the answer is \<open>False\<close>.\<close>

definition apply_record_fixups :: "nat \<Rightarrow> byte list \<Rightarrow> bool \<times> byte list" where
  "apply_record_fixups bytes_per_sector record =
    (if length record < 8 \<or> bytes_per_sector < 2 then (False, record)
     else
       let usa_offset = unat (from_le [record ! 4, record ! 5] :: u16);
           usa_count = unat (from_le [record ! 6, record ! 7] :: u16)
       in if usa_count < 2 \<or> usa_offset + usa_count * 2 > length record then (False, record)
          else fixup_sectors bytes_per_sector usa_offset [record ! usa_offset, record ! (usa_offset + 1)]
                 [1..<usa_count] record)"

definition BAAD :: "byte list" where "BAAD = [0x42, 0x41, 0x41, 0x44]"

definition fixup_one :: "nat \<Rightarrow> byte list \<Rightarrow> byte list" where
  "fixup_one bytes_per_sector record =
    (if take 4 record = FILE_RECORD_SIGNATURE then
       (let (ok, record) = apply_record_fixups bytes_per_sector record
        in if ok then record else BAAD @ drop 4 record)
     else record)"

function apply_mft_fixups :: "nat \<Rightarrow> byte list \<Rightarrow> byte list" where
  "apply_mft_fixups bytes_per_sector batch =
    (if NTFS_RECORD_SIZE \<le> length batch then
       fixup_one bytes_per_sector (take NTFS_RECORD_SIZE batch)
       @ apply_mft_fixups bytes_per_sector (drop NTFS_RECORD_SIZE batch)
     else batch)"
  by auto
termination by (relation "measure (length \<circ> snd)") (auto simp: NTFS_RECORD_SIZE_def)

declare apply_mft_fixups.simps [simp del]

lemma length_fixup_sectors [simp]: "length (snd (fixup_sectors s u n is r)) = length r"
  by (induction s u n "is" r rule: fixup_sectors.induct) (auto simp: Let_def)

lemma length_apply_record_fixups [simp]: "length (snd (apply_record_fixups s r)) = length r"
  by (simp add: apply_record_fixups_def Let_def)

lemma length_fixup_one [simp]: "length r \<ge> 4 \<Longrightarrow> length (fixup_one s r) = length r"
proof -
  obtain ok r' where "apply_record_fixups s r = (ok, r')" by force
  moreover have "length BAAD = 4" by (simp add: BAAD_def)
  ultimately show "length r \<ge> 4 \<Longrightarrow> ?thesis"
    using length_apply_record_fixups [of s r] by (simp add: fixup_one_def Let_def)
qed

lemma length_apply_mft_fixups [simp]: "length (apply_mft_fixups s batch) = length batch"
proof (induction s batch rule: apply_mft_fixups.induct)
  case (1 s batch)
  then show ?case
    by (subst apply_mft_fixups.simps) (auto simp: NTFS_RECORD_SIZE_def)
qed


text \<open>
  What a file system writes: the two last bytes of every sector move to the update sequence array at \<open>u\<close>,
  whose first entry is the sequence number that replaces them. \<open>sector_slot\<close> is the place in the array of the
  byte at position \<open>i\<close>, if \<open>i\<close> is a sector tail.
\<close>

definition sector_slot :: "nat \<Rightarrow> nat \<Rightarrow> nat \<Rightarrow> nat \<Rightarrow> nat option" where
  "sector_slot bps k c i = (let j = i div bps + 1 in
     if k \<le> j \<and> j < c \<and> bps - 2 \<le> i mod bps then Some (2 * j + (i mod bps - (bps - 2))) else None)"

definition saved_record :: "nat \<Rightarrow> nat \<Rightarrow> nat \<Rightarrow> byte list \<Rightarrow> byte list \<Rightarrow> byte list" where
  "saved_record bps u c usn r = map (\<lambda>i.
     if u \<le> i \<and> i < u + 2 then usn ! (i - u)
     else if u + 2 \<le> i \<and> i < u + 2 * c then r ! ((i - u) div 2 * bps - 2 + (i - u) mod 2)
     else r ! i) [0..<length r]"

definition protect_record :: "nat \<Rightarrow> nat \<Rightarrow> nat \<Rightarrow> byte list \<Rightarrow> byte list \<Rightarrow> byte list" where
  "protect_record bps u c usn r = map (\<lambda>i.
     case sector_slot bps 1 c i of Some s \<Rightarrow> usn ! (s mod 2) | None \<Rightarrow> saved_record bps u c usn r ! i) [0..<length r]"

definition fixup_layout :: "nat \<Rightarrow> nat \<Rightarrow> nat \<Rightarrow> byte list \<Rightarrow> bool" where
  "fixup_layout bps u c r \<longleftrightarrow> 8 \<le> u \<and> 2 \<le> c \<and> u + 2 * c + 2 \<le> bps \<and> (c - 1) * bps \<le> length r
     \<and> unat (from_le [r ! 4, r ! 5] :: u16) = u \<and> unat (from_le [r ! 6, r ! 7] :: u16) = c"

definition sector_tail :: "nat \<Rightarrow> byte list \<Rightarrow> nat \<Rightarrow> byte list" where
  "sector_tail bps r k = [r ! (k * bps - 2), r ! (k * bps - 1)]"

lemma sector_slot_tail:
  assumes "2 \<le> bps" "1 \<le> k" "k < c"
  shows "sector_slot bps k c (k * bps - 2) = Some (2 * k)" "sector_slot bps k c (k * bps - 1) = Some (2 * k + 1)"
proof -
  obtain m where k: "k = Suc m" using assms(2) by (cases k) auto
  have split: "Suc m * bps - 2 = m * bps + (bps - 2)" "Suc m * bps - 1 = m * bps + (bps - 1)"
    using assms(1) by simp_all
  have "(Suc m * bps - 2) div bps = m" "(Suc m * bps - 2) mod bps = bps - 2"
    "(Suc m * bps - 1) div bps = m" "(Suc m * bps - 1) mod bps = bps - 1"
    unfolding split using assms(1) by (simp_all only: div_mult_self3 mod_mult_self3, simp_all)
  then show "sector_slot bps k c (k * bps - 2) = Some (2 * k)" "sector_slot bps k c (k * bps - 1) = Some (2 * k + 1)"
    using assms by (simp_all add: sector_slot_def k Let_def)
qed

lemma sector_slot_step:
  assumes "2 \<le> bps" "1 \<le> k" "k < c" "i \<noteq> k * bps - 2" "i \<noteq> k * bps - 1"
  shows "sector_slot bps k c i = sector_slot bps (Suc k) c i"
proof -
  have "\<not> (i div bps + 1 = k \<and> bps - 2 \<le> i mod bps)"
  proof
    assume a: "i div bps + 1 = k \<and> bps - 2 \<le> i mod bps"
    then have "i mod bps = bps - 2 \<or> i mod bps = bps - 1"
      using assms(1) mod_less_divisor [of bps i] by linarith
    moreover have "i = (k - 1) * bps + i mod bps" using a div_mult_mod_eq [of i bps] by force
    moreover have "k * bps = (k - 1) * bps + bps" using assms(2) by (cases k) auto
    ultimately show False using assms(1,4,5) by linarith
  qed
  then show ?thesis by (auto simp: sector_slot_def Let_def le_Suc_eq)
qed

lemma sector_slot_bounds:
  assumes "sector_slot bps k c i = Some s" "2 \<le> bps"
  shows "2 * k \<le> s \<and> s < 2 * c"
proof -
  have "i mod bps < bps" using assms(2) by simp
  then have "i mod bps - (bps - 2) < 2" using assms(2) by linarith
  with assms(1) show ?thesis by (auto simp: sector_slot_def Let_def split: if_splits)
qed

lemma sector_slot_position:
  assumes "sector_slot bps k c i = Some s" "2 \<le> bps"
  shows "i = s div 2 * bps - 2 + s mod 2" "bps - 2 \<le> i"
proof -
  define d where "d = i mod bps - (bps - 2)"
  have "i mod bps < bps" using assms(2) by simp
  moreover have "bps - 2 \<le> i mod bps" using assms(1) by (auto simp: sector_slot_def Let_def split: if_splits)
  ultimately have d: "d < 2" "i mod bps = bps - 2 + d" using assms(2) unfolding d_def by linarith+
  have s: "s = 2 * (i div bps + 1) + d" using assms by (auto simp: d_def sector_slot_def Let_def split: if_splits)
  then have "s div 2 = i div bps + 1" "s mod 2 = d" using d(1) by auto
  moreover have "i = i div bps * bps + (bps - 2 + d)" using div_mult_mod_eq [of i bps] d(2) by simp
  ultimately show "i = s div 2 * bps - 2 + s mod 2" "bps - 2 \<le> i" using assms(2) by (simp_all add: algebra_simps)
qed

lemma fixup_sectors_ok:
  assumes "u + 2 * c + 2 \<le> bps" "1 \<le> k" "k \<le> c" "(c - 1) * bps \<le> length r" "\<forall>j\<in>{k..<c}. sector_tail bps r j = usn"
  shows "fixup_sectors bps u usn [k..<c] r
    = (True, map (\<lambda>i. case sector_slot bps k c i of Some s \<Rightarrow> r ! (u + s) | None \<Rightarrow> r ! i) [0..<length r])"
  using assms(2-)
proof (induction "c - k" arbitrary: k r)
  case 0
  then have "k = c" by simp
  moreover have "sector_slot bps c c i = None" for i by (simp add: sector_slot_def Let_def)
  ultimately show ?case by (simp add: map_nth)
next
  case (Suc n)
  then have k: "k < c" by simp
  have se: "k * bps \<le> length r"
    using Suc.prems(3) mult_le_mono1 [of k "c - 1" bps] k by linarith
  have bk: "bps \<le> k * bps" using Suc.prems(1) by simp
  define r' where "r' = r[k * bps - 2 := r ! (u + k * 2), k * bps - 1 := r ! (u + k * 2 + 1)]"
  have usa: "r' ! (u + s) = r ! (u + s)" if "s < 2 * c" for s
  proof -
    have "u + s < k * bps - 2" using that assms(1) bk by linarith
    then show ?thesis by (simp add: r'_def nth_list_update)
  qed
  have tails: "\<forall>j\<in>{Suc k..<c}. sector_tail bps r' j = usn"
  proof
    fix j assume j: "j \<in> {Suc k..<c}"
    then have "k * bps + bps \<le> j * bps" using mult_le_mono1 [of "Suc k" j bps] by simp
    moreover have "sector_tail bps r j = usn" using Suc.prems(4) j by simp
    ultimately have "k * bps - 1 < j * bps - 2" "k * bps - 2 < j * bps - 2" "sector_tail bps r j = usn"
      using assms(1) bk by linarith+
    then show "sector_tail bps r' j = usn"
      by (simp add: sector_tail_def r'_def nth_list_update)
  qed
  have "fixup_sectors bps u usn [Suc k..<c] r'
    = (True, map (\<lambda>i. case sector_slot bps (Suc k) c i of Some s \<Rightarrow> r' ! (u + s) | None \<Rightarrow> r' ! i) [0..<length r'])"
    by (rule Suc.hyps(1)) (use Suc.hyps(2) Suc.prems k tails in \<open>auto simp: r'_def\<close>)
  moreover have "(case sector_slot bps (Suc k) c i of Some s \<Rightarrow> r' ! (u + s) | None \<Rightarrow> r' ! i)
      = (case sector_slot bps k c i of Some s \<Rightarrow> r ! (u + s) | None \<Rightarrow> r ! i)" if "i < length r" for i
  proof -
    have b: "2 \<le> bps" using assms(1) by simp
    consider "i = k * bps - 2" | "i = k * bps - 1" | "i \<noteq> k * bps - 2" "i \<noteq> k * bps - 1" by blast
    then show ?thesis
    proof cases
      case 1
      have "sector_slot bps (Suc k) c i = None"
        using sector_slot_tail(1) [OF b Suc.prems(1) k] by (auto simp: 1 sector_slot_def Let_def split: if_splits)
      moreover have "k * bps - 2 \<noteq> k * bps - 1" using bk b by linarith
      ultimately show ?thesis using that 1
        using sector_slot_tail(1) [OF b Suc.prems(1) k] bk b by (simp add: r'_def nth_list_update mult.commute)
    next
      case 2
      have "sector_slot bps (Suc k) c i = None"
        using sector_slot_tail(2) [OF b Suc.prems(1) k] by (auto simp: 2 sector_slot_def Let_def split: if_splits)
      with 2 that show ?thesis
        using sector_slot_tail(2) [OF b Suc.prems(1) k] bk b by (simp add: r'_def nth_list_update mult.commute)
    next
      case 3
      then have "r' ! i = r ! i" by (simp add: r'_def)
      with 3 show ?thesis
        using sector_slot_step [OF b Suc.prems(1) k 3] sector_slot_bounds [OF _ b] usa
        by (auto split: option.split)
    qed
  qed
  moreover have "sector_tail bps r k = usn" using Suc.prems(4) k by simp
  ultimately show ?case
    using se k by (simp add: upt_conv_Cons Let_def sector_tail_def r'_def)
qed

lemma fixup_sectors_torn:
  assumes "u + 2 * c + 2 \<le> bps" "1 \<le> k" "(c - 1) * bps \<le> length r" "j \<in> {k..<c}" "sector_tail bps r j \<noteq> usn"
  shows "\<not> fst (fixup_sectors bps u usn [k..<c] r)"
  using assms(2-)
proof (induction "j - k" arbitrary: k r)
  case 0
  then have "j = k" "k < c" by auto
  with 0 show ?case by (simp add: upt_conv_Cons Let_def sector_tail_def)
next
  case (Suc n)
  then have k: "Suc k \<le> j" "k < c" by auto
  have "k * bps \<le> (c - 1) * bps" using k by (intro mult_le_mono1) simp
  then have se: "k * bps \<le> length r" "bps \<le> k * bps" "k * bps + bps \<le> j * bps"
    using Suc.prems(1,2) k mult_le_mono1 [of "Suc k" j bps] by (linarith, simp, simp)
  define r' where "r' = r[k * bps - 2 := r ! (u + k * 2), k * bps - 1 := r ! (u + k * 2 + 1)]"
  have "k * bps - 1 < j * bps - 2" "k * bps - 2 < j * bps - 2" using assms(1) se by linarith+
  then have "sector_tail bps r' j = sector_tail bps r j"
    by (simp add: sector_tail_def r'_def nth_list_update)
  then have "\<not> fst (fixup_sectors bps u usn [Suc k..<c] r')"
    using Suc k by (intro Suc.hyps(1)) (auto simp: r'_def)
  then show ?case using k se(1) by (simp add: upt_conv_Cons Let_def r'_def)
qed


lemma apply_record_fixups_layout:
  assumes "fixup_layout bps u c r"
  shows "apply_record_fixups bps r = fixup_sectors bps u [r ! u, r ! (u + 1)] [1..<c] r"
proof -
  have "1 * bps \<le> (c - 1) * bps" using assms by (intro mult_le_mono1) (auto simp: fixup_layout_def)
  then have "8 \<le> length r" "2 \<le> bps" "u + c * 2 \<le> length r"
    using assms unfolding fixup_layout_def by linarith+
  with assms show ?thesis by (simp add: apply_record_fixups_def fixup_layout_def Let_def)
qed

text \<open>
  C19. The fixups succeed on a well-laid-out record exactly when the tail of every sector carries the update
  sequence number: a record with any sector from another write is refused.
\<close>

theorem torn_records_detected:
  assumes "fixup_layout bps u c r"
  shows "fst (apply_record_fixups bps r) \<longleftrightarrow> list_all (\<lambda>k. sector_tail bps r k = [r ! u, r ! (u + 1)]) [1..<c]"
proof -
  have l: "u + 2 * c + 2 \<le> bps" "(c - 1) * bps \<le> length r" "1 \<le> c" using assms by (auto simp: fixup_layout_def)
  show ?thesis
  proof (cases "\<forall>k\<in>{1..<c}. sector_tail bps r k = [r ! u, r ! (u + 1)]")
    case True
    then show ?thesis
      using fixup_sectors_ok [OF l(1) order_refl l(3,2) True] by (simp add: apply_record_fixups_layout [OF assms] list_all_iff)
  next
    case False
    then obtain j where "j \<in> {1..<c}" "sector_tail bps r j \<noteq> [r ! u, r ! (u + 1)]" by blast
    then show ?thesis
      using fixup_sectors_torn [OF l(1) order_refl l(2)] False
      by (simp add: apply_record_fixups_layout [OF assms] list_all_iff del: upt_Suc)
  qed
qed

text \<open>
  C18. Applying the fixups to a record protected by an update sequence restores the original sector tails.
\<close>

theorem record_fixups_roundtrip:
  assumes "fixup_layout bps u c r" "length usn = 2"
  shows "apply_record_fixups bps (protect_record bps u c usn r) = (True, saved_record bps u c usn r)"
proof -
  let ?p = "protect_record bps u c usn r" and ?s = "saved_record bps u c usn r"
  have l: "8 \<le> u" "u + 2 * c + 2 \<le> bps" "(c - 1) * bps \<le> length r" "1 \<le> c" "2 \<le> c" "2 \<le> bps"
    using assms by (auto simp: fixup_layout_def)
  have len: "length ?p = length r" "length ?s = length r" by (simp_all add: protect_record_def saved_record_def)
  have "1 * bps \<le> (c - 1) * bps" using l(5) by (intro mult_le_mono1) simp
  then have lr: "u + 2 * c + 2 \<le> length r" "bps \<le> length r" using l by linarith+
  have early: "sector_slot bps 1 c i = None" if "i < u + 2 * c" for i
    using that l by (simp add: sector_slot_def Let_def)
  have head: "?p ! i = r ! i" if "i < u" for i
    using that early lr by (simp add: protect_record_def saved_record_def)
  have usn: "[?p ! u, ?p ! (u + 1)] = usn"
    using early [of u] early [of "u + 1"] lr l assms(2)
    by (simp add: protect_record_def saved_record_def) (auto simp: numeral_2_eq_2 length_Suc_conv)
  have tails: "sector_tail bps ?p k = usn" if "k \<in> {1..<c}" for k
  proof -
    have k: "1 \<le> k" "k < c" using that by auto
    have "k * bps \<le> (c - 1) * bps" using k by (intro mult_le_mono1) simp
    then have "bps \<le> k * bps" "k * bps \<le> length r" using k l(3) by (simp, linarith)
    moreover have "sector_slot bps 1 c i = sector_slot bps k c i" if "sector_slot bps k c i \<noteq> None" for i
      using that k by (auto simp: sector_slot_def Let_def split: if_splits)
    ultimately show ?thesis
      using sector_slot_tail [OF l(6) k] lr l(6) assms(2)
      by (simp add: sector_tail_def protect_record_def) (auto simp: numeral_2_eq_2 length_Suc_conv)
  qed
  have "fixup_layout bps u c ?p" using assms(1) head l by (simp add: fixup_layout_def len)
  then have "apply_record_fixups bps ?p = fixup_sectors bps u usn [1..<c] ?p"
    by (simp only: apply_record_fixups_layout usn)
  also have "\<dots> = (True, map (\<lambda>i. case sector_slot bps 1 c i of Some s \<Rightarrow> ?p ! (u + s) | None \<Rightarrow> ?p ! i) [0..<length r])"
    using fixup_sectors_ok [OF l(2) order_refl l(4)] l(3) tails by (simp add: len)
  also have "map (\<lambda>i. case sector_slot bps 1 c i of Some s \<Rightarrow> ?p ! (u + s) | None \<Rightarrow> ?p ! i) [0..<length r] = ?s"
  proof (rule nth_equalityI)
    fix i assume "i < length (map (\<lambda>i. case sector_slot bps 1 c i of Some s \<Rightarrow> ?p ! (u + s) | None \<Rightarrow> ?p ! i) [0..<length r])"
    then have i: "i < length r" by simp
    show "map (\<lambda>i. case sector_slot bps 1 c i of Some s \<Rightarrow> ?p ! (u + s) | None \<Rightarrow> ?p ! i) [0..<length r] ! i = ?s ! i"
    proof (cases "sector_slot bps 1 c i")
      case None
      with i show ?thesis by (simp add: protect_record_def)
    next
      case (Some s)
      have s: "2 \<le> s" "s < 2 * c" "i = s div 2 * bps - 2 + s mod 2" "bps - 2 \<le> i"
        using sector_slot_bounds [OF Some l(6)] sector_slot_position [OF Some l(6)] by auto
      have "?p ! (u + s) = ?s ! (u + s)" using early [of "u + s"] s lr by (simp add: protect_record_def)
      also have "\<dots> = r ! i" using s lr by (simp add: saved_record_def)
      also have "u + 2 * c \<le> i" "u + 2 \<le> i" using s(4) l(2,5) by linarith+
      then have "r ! i = ?s ! i" using i by (simp add: saved_record_def)
      finally show ?thesis using Some i by simp
    qed
  qed (simp add: len)
  finally show ?thesis .
qed

definition sample_record :: "byte list" where
  "sample_record = [70, 73, 76, 69, 8, 0, 2, 0, 0, 0, 0, 0, 17, 34]"

lemma sample_record_layout: "fixup_layout 14 8 2 sample_record"
  by (simp add: fixup_layout_def sample_record_def from_le_def)

lemma torn_records_detected_witness:
  "\<not> fst (apply_record_fixups 14 sample_record)
   \<and> fixup_layout 14 8 2 sample_record"
  using torn_records_detected [OF sample_record_layout] sample_record_layout
  by (simp add: sector_tail_def) (simp add: sample_record_def upt_rec)

lemma record_fixups_roundtrip_witness:
  "protect_record 14 8 2 [5, 6] sample_record = [70, 73, 76, 69, 8, 0, 2, 0, 5, 6, 17, 34, 5, 6]
   \<and> apply_record_fixups 14 (protect_record 14 8 2 [5, 6] sample_record)
     = (True, [70, 73, 76, 69, 8, 0, 2, 0, 5, 6, 17, 34, 17, 34])"
proof
  show "protect_record 14 8 2 [5, 6] sample_record = [70, 73, 76, 69, 8, 0, 2, 0, 5, 6, 17, 34, 5, 6]"
    by (simp add: protect_record_def saved_record_def sample_record_def sector_slot_def Let_def upt_rec)
  show "apply_record_fixups 14 (protect_record 14 8 2 [5, 6] sample_record)
     = (True, [70, 73, 76, 69, 8, 0, 2, 0, 5, 6, 17, 34, 17, 34])"
    by (subst record_fixups_roundtrip [OF sample_record_layout])
      (simp_all add: saved_record_def sample_record_def upt_rec)
qed

end
