(* ===== verification/Ntfs_Extents.thy ===== *)
theory Ntfs_Extents
  imports Ntfs_Layout
begin

text \<open>
  Data runs and extents of \<open>WinBlaze.Scanner/src/ntfs.rs\<close>: decoding the run list of a non-resident
  attribute into byte extents of the volume, trimming extents to the valid data length, and locating a
  record of the file table in them.
\<close>

section \<open>Data runs\<close>

type_synonym extent = "u64 \<times> u64"

text \<open>The loops \<open>run_length |= (runs[cursor + i] as u64) << (8 * i)\<close>.\<close>

definition or_bytes :: "byte list \<Rightarrow> u64" where
  "or_bytes bs = fold (\<lambda>i acc. acc OR push_bit (8 * i) (ucast (bs ! i))) [0..<length bs] 0"

definition sign_extend_bytes :: "nat \<Rightarrow> i64 \<Rightarrow> i64" where
  "sign_extend_bytes offset_size offset_delta =
     (let shift = 64 - 8 * offset_size in signed_drop_bit shift (push_bit shift offset_delta))"

function decode_runs_from :: "u64 \<Rightarrow> i64 \<Rightarrow> byte list \<Rightarrow> ntfs_error + extent list" where
  "decode_runs_from bytes_per_cluster current_lcn [] = Inr []"
| "decode_runs_from bytes_per_cluster current_lcn (header # rest) =
    (if header = 0 then Inr []
     else
       let length_size = unat (header AND 0x0F); offset_size = unat (drop_bit 4 header) in
       if length_size = 0 \<or> length_size > 8 \<or> offset_size > 8 then Inl (NtfsIo ''invalid data run header'')
       else if length_size + offset_size > length rest then Inl (NtfsIo ''truncated data run'')
       else
         let run_length = or_bytes (take length_size rest) in
         if offset_size = 0 then Inl (NtfsIo ''sparse run in MFT data attribute'')
         else
           let offset_delta = sign_extend_bytes offset_size (or_bytes (take offset_size (drop length_size rest))) in
           case checked_sadd current_lcn offset_delta of
             None \<Rightarrow> Inl (NtfsIo ''data run offset overflow'')
           | Some current_lcn \<Rightarrow>
               if sint current_lcn < 0 \<or> run_length = 0 then Inl (NtfsIo ''data run points before volume start'')
               else
                 (case (checked_mul current_lcn bytes_per_cluster, checked_mul run_length bytes_per_cluster) of
                    (Some start, Some len) \<Rightarrow>
                      rbind (decode_runs_from bytes_per_cluster current_lcn (drop (length_size + offset_size) rest))
                        (\<lambda>extents. Inr ((start, len) # extents))
                  | _ \<Rightarrow> Inl (NtfsIo ''data run size overflow'')))"
  by pat_completeness auto
termination by (relation "measure (length \<circ> snd \<circ> snd)") auto

definition decode_data_runs :: "byte list \<Rightarrow> u64 \<Rightarrow> ntfs_error + extent list" where
  "decode_data_runs runs bytes_per_cluster =
     rbind (decode_runs_from bytes_per_cluster 0 runs) (\<lambda>extents.
       if extents = [] then Inl (NtfsIo ''MFT data attribute has no runs'') else Inr extents)"

text \<open>The byte positions of a list of extents, in the order of the data stream.\<close>

definition extent_positions :: "extent list \<Rightarrow> nat list" where
  "extent_positions extents = concat (map (\<lambda>(s, l). [unat s..<unat s + unat l]) extents)"

fun trim_loop :: "u64 \<Rightarrow> u64 \<Rightarrow> extent list \<Rightarrow> extent list" where
  "trim_loop cap cumulative [] = []"
| "trim_loop cap cumulative ((start, len) # rest) =
    (let remaining = sat_sub cap cumulative in
     if remaining = 0 then []
     else if len \<le> remaining then (start, len) # trim_loop cap (cumulative + len) rest
     else [(start, remaining)])"

definition div_ceil :: "u64 \<Rightarrow> u64 \<Rightarrow> u64" where
  "div_ceil a b = (if a mod b > 0 then a div b + 1 else a div b)"

definition trim_extents_to_valid_length :: "extent list \<Rightarrow> u64 \<Rightarrow> u64 \<Rightarrow> extent list" where
  "trim_extents_to_valid_length extents valid_len cluster =
    (if cluster = 0 \<or> valid_len = 0 \<or> valid_len = - 1 then extents
     else
       let kept = trim_loop (sat_mul (div_ceil valid_len cluster) cluster) 0 extents
       in if kept \<noteq> [] then kept else extents)"

text \<open>How NTFS writes a run: a header with the byte counts, the length, and the signed distance to the
  previous start.\<close>

fun encode_runs :: "int \<Rightarrow> (nat \<times> nat \<times> nat \<times> nat) list \<Rightarrow> byte list" where
  "encode_runs previous [] = []"
| "encode_runs previous ((length_size, offset_size, lcn, len) # rest) =
    word_of_nat (length_size + 16 * offset_size) # nat_le length_size len
    @ nat_le offset_size (nat ((int lcn - previous) mod 2 ^ (8 * offset_size))) @ encode_runs (int lcn) rest"

fun runs_fit :: "nat \<Rightarrow> int \<Rightarrow> (nat \<times> nat \<times> nat \<times> nat) list \<Rightarrow> bool" where
  "runs_fit bpc previous [] \<longleftrightarrow> True"
| "runs_fit bpc previous ((length_size, offset_size, lcn, len) # rest) \<longleftrightarrow>
    1 \<le> length_size \<and> length_size \<le> 8 \<and> 1 \<le> offset_size \<and> offset_size \<le> 8
    \<and> 0 < len \<and> len < 256 ^ length_size \<and> len * bpc < 2 ^ 64 \<and> lcn < 2 ^ 63 \<and> lcn * bpc < 2 ^ 64
    \<and> - (2 ^ (8 * offset_size - 1)) \<le> int lcn - previous \<and> int lcn - previous < 2 ^ (8 * offset_size - 1)
    \<and> runs_fit bpc (int lcn) rest"

lemma or_bytes_le_nat:
  assumes "length bs \<le> 8"
  shows "or_bytes bs = word_of_nat (le_nat bs)"
proof -
  have "fold (\<lambda>i acc. acc OR push_bit (8 * i) (ucast (bs ! i))) [0..<n] 0 = (word_of_nat (le_nat (take n bs)) :: u64)"
    if "n \<le> length bs" for n
    using that
  proof (induction n)
    case (Suc n)
    have app: "le_nat (xs @ [b]) = le_nat xs + 256 ^ length xs * unat b" for xs and b :: byte
      by (induction xs) (auto simp: algebra_simps)
    have small: "le_nat (take n bs) < 2 ^ (8 * n)"
      using le_nat_less [of "take n bs"] Suc.prems by (simp add: power_mult)
    have n: "8 * n + 8 \<le> 64" using Suc.prems assms by simp
    have "(word_of_nat (le_nat (take n bs)) :: u64) OR push_bit (8 * n) (ucast (bs ! n))
        = word_of_nat (le_nat (take n bs)) + push_bit (8 * n) (ucast (bs ! n))"
    proof (rule disjunctive_add_eq_or [symmetric], rule bit_word_eqI)
      fix k assume "k < LENGTH(64)"
      have "bit (le_nat (take n bs)) k \<Longrightarrow> k < 8 * n"
        using small by (metis bit_take_bit_iff take_bit_nat_eq_self)
      then show "bit ((word_of_nat (le_nat (take n bs)) :: u64) AND push_bit (8 * n) (ucast (bs ! n))) k = bit (0 :: u64) k"
        by (auto simp: bit_simps)
    qed
    also have pb: "push_bit (8 * n) (ucast (bs ! n) :: u64) = word_of_nat (256 ^ n * unat (bs ! n))"
    proof -
      have "(2 :: u64) ^ (8 * n) = 256 ^ n" by (simp add: power_mult)
      then show ?thesis by (simp add: push_bit_eq_mult mult.commute)
    qed
    also have "word_of_nat (le_nat (take n bs)) + word_of_nat (256 ^ n * unat (bs ! n))
        = (word_of_nat (le_nat (take n bs @ [bs ! n])) :: u64)"
      using Suc.prems by (simp add: app)
    finally have step: "(word_of_nat (le_nat (take n bs)) :: u64) OR push_bit (8 * n) (ucast (bs ! n))
        = word_of_nat (le_nat (take n bs @ [bs ! n]))" by (simp only: pb)
    show ?case
      using Suc.IH Suc.prems by (simp only: upt_Suc_append fold_append le0 fold.simps comp_def id_def step
          take_Suc_conv_app_nth Suc_le_eq less_imp_le)
  qed simp
  from this [of "length bs"] show ?thesis by (simp add: or_bytes_def)
qed


lemma sign_extend_bytes_sint:
  assumes "1 \<le> k" "k \<le> 8" "- (2 ^ (8 * k - 1)) \<le> d" "d < 2 ^ (8 * k - 1)"
  shows "sint (sign_extend_bytes k (word_of_nat (nat (d mod 2 ^ (8 * k))))) = d"
proof -
  define s where "s = 64 - 8 * k"
  have s: "8 * k + s = 64" "8 * k - 1 + s = 63" using assms(1,2) by (simp_all add: s_def)
  have "push_bit s (word_of_nat (nat (d mod 2 ^ (8 * k))) :: u64) = word_of_int (d mod 2 ^ (8 * k) * 2 ^ s)"
    by (simp add: push_bit_eq_mult)
  also have "d mod 2 ^ (8 * k) * 2 ^ s = (d * 2 ^ s) mod 2 ^ 64"
    using s(1) by (metis mult_mod_left power_add)
  also have "(word_of_int ((d * 2 ^ s) mod 2 ^ 64) :: u64) = word_of_int (d * 2 ^ s)"
    using word_of_int_eq_iff [where ?'a = 64, of "(d * 2 ^ s) mod 2 ^ 64" "d * 2 ^ s"] by (simp add: take_bit_eq_mod)
  finally have push: "push_bit s (word_of_nat (nat (d mod 2 ^ (8 * k))) :: u64) = word_of_int (d * 2 ^ s)" .
  have "- (2 ^ (8 * k - 1)) * 2 ^ s \<le> d * 2 ^ s" "d * 2 ^ s < 2 ^ (8 * k - 1) * (2 :: int) ^ s"
    using assms(3,4) by (intro mult_right_mono mult_strict_right_mono; simp)+
  then have "- (2 ^ 63) \<le> d * 2 ^ s" "d * 2 ^ s < (2 :: int) ^ 63"
    using s(2) by (simp_all flip: power_add)
  then have "sint (word_of_int (d * 2 ^ s) :: u64) = d * 2 ^ s"
    by (simp only: signed_of_int) (simp add: signed_take_bit_int_eq_self)
  then have "sint (push_bit s (word_of_nat (nat (d mod 2 ^ (8 * k))) :: u64)) = d * 2 ^ s"
    by (simp only: push)
  then show ?thesis
    by (simp only: sign_extend_bytes_def Let_def sint_signed_drop_bit_eq drop_bit_eq_div flip: s_def) simp
qed

lemma run_header_fields:
  assumes "1 \<le> l" "l \<le> 8" "1 \<le> k" "k \<le> (8 :: nat)"
  shows "(word_of_nat (l + 16 * k) :: byte) \<noteq> 0" "unat ((word_of_nat (l + 16 * k) :: byte) AND 0x0F) = l"
    "unat (drop_bit 4 (word_of_nat (l + 16 * k) :: byte)) = k"
proof -
  define h :: byte where "h = word_of_nat (l + 16 * k)"
  have u: "unat h = l + 16 * k"
    using assms unfolding h_def by (simp only: unat_of_nat len_num0 len_bit0) simp
  have "h \<noteq> 0" using u assms(1) by (metis unat_0 add_is_0 not_one_le_zero)
  then show "(word_of_nat (l + 16 * k) :: byte) \<noteq> 0" by (simp only: h_def not_False_eq_True)
  have "h AND 0x0F = take_bit 4 h" by (simp add: take_bit_eq_mask mask_eq_exp_minus_1)
  then have "unat (h AND 0x0F) = take_bit 4 (l + 16 * k)" by (simp only: unsigned_take_bit_eq u)
  also have "\<dots> = l" using assms by (simp add: take_bit_eq_mod)
  finally show "unat ((word_of_nat (l + 16 * k) :: byte) AND 0x0F) = l" by (simp only: h_def)
  have "unat (drop_bit 4 h) = drop_bit 4 (l + 16 * k)"
    using assms by (simp only: unsigned_drop_bit_eq u) (simp add: take_bit_eq_mod)
  also have "\<dots> = k" using assms by (simp add: drop_bit_eq_div)
  finally show "unat (drop_bit 4 (word_of_nat (l + 16 * k) :: byte)) = k" by (simp only: h_def)
qed

lemma nonneg_unat: "0 \<le> sint w \<Longrightarrow> int (unat w) = sint w" for w :: i64
  using uint_sint [of w] sint_less [of w] by (simp add: take_bit_int_eq_self)

lemma checked_sadd_Some:
  assumes "- (2 ^ 63) \<le> sint a + sint b" "sint a + sint b < 2 ^ 63"
  shows "checked_sadd a b = Some (a + b) \<and> sint (a + b) = sint a + sint (b :: i64)"
proof -
  have "sint (word_of_int (sint a + sint b) :: i64) = sint a + sint b"
    using assms by (simp only: signed_of_int) (simp add: signed_take_bit_int_eq_self)
  with assms show ?thesis by (simp add: checked_sadd_def)
qed

lemma checked_mul_of_nat:
  assumes "a * b < 2 ^ 64" "unat x = a" "unat y = b"
  shows "checked_mul x y = Some (word_of_nat (a * b) :: u64)"
  using assms by (auto simp: checked_mul_def)

lemma decode_encode_runs_from:
  assumes "runs_fit (unat bpc) (sint lcn) runs" "0 \<le> sint lcn"
  shows "decode_runs_from bpc lcn (encode_runs (sint lcn) runs @ 0 # rest)
    = Inr (map (\<lambda>(_, _, l, n). (word_of_nat (l * unat bpc), word_of_nat (n * unat bpc))) runs)"
  using assms
proof (induction "unat bpc" "sint lcn" runs arbitrary: lcn rule: runs_fit.induct)
  case (2 ls os l n runs)
  have fit: "1 \<le> ls" "ls \<le> 8" "1 \<le> os" "os \<le> 8" "0 < n" "n < 256 ^ ls" "n * unat bpc < 2 ^ 64" "l < 2 ^ 63"
    "l * unat bpc < 2 ^ 64" "- (2 ^ (8 * os - 1)) \<le> int l - sint lcn" "int l - sint lcn < 2 ^ (8 * os - 1)"
    "runs_fit (unat bpc) (int l) runs" using "2.prems"(1) by auto
  let ?d = "int l - sint lcn"
  let ?db = "nat_le os (nat (?d mod 2 ^ (8 * os)))"
  let ?tail = "encode_runs (int l) runs @ 0 # rest"
  define next_lcn :: i64 where "next_lcn = lcn + sign_extend_bytes os (or_bytes ?db)"
  have n64: "n < 2 ^ 64"
    using fit(2,6) power_increasing [of ls 8 "256 :: nat"] by simp
  have run_len: "or_bytes (nat_le ls n) = word_of_nat n"
    using fit(2,6) by (simp add: or_bytes_le_nat le_nat_nat_le)
  have "nat (?d mod 2 ^ (8 * os)) < 256 ^ os"
    by (simp add: nat_less_iff power_mult)
  then have "or_bytes ?db = word_of_nat (nat (?d mod 2 ^ (8 * os)))"
    using fit(4) by (simp add: or_bytes_le_nat le_nat_nat_le)
  then have delta: "sint (sign_extend_bytes os (or_bytes ?db)) = ?d"
    using sign_extend_bytes_sint [OF fit(3,4,10,11)] by simp
  have add: "checked_sadd lcn (sign_extend_bytes os (or_bytes ?db)) = Some next_lcn" "sint next_lcn = int l"
    using checked_sadd_Some [of lcn "sign_extend_bytes os (or_bytes ?db)"] fit(8) by (simp_all add: delta next_lcn_def)
  have next_nat: "unat next_lcn = l"
    using nonneg_unat [of next_lcn] add(2) by (metis of_nat_0_le_iff of_nat_eq_iff)
  have n_nat: "unat (word_of_nat n :: u64) = n" using n64 by (simp add: unat_of_nat)
  have nz: "(word_of_nat n :: u64) \<noteq> 0" using n_nat fit(5) by (metis unat_0 less_irrefl)
  have IH: "decode_runs_from bpc next_lcn ?tail
    = Inr (map (\<lambda>(_, _, l, n). (word_of_nat (l * unat bpc), word_of_nat (n * unat bpc))) runs)"
    using "2.hyps" [of next_lcn] fit(12) add(2) by simp
  show ?case
    using run_header_fields [OF fit(1-4)] fit nz add IH run_len
      checked_mul_of_nat [OF fit(9) next_nat refl] checked_mul_of_nat [OF fit(7) n_nat refl]
    by (simp add: Let_def)
qed simp


text \<open>
  C17. Decoding an encoded run list returns its extents in bytes, for all field widths from one to eight and
  for forward and backward cluster offsets.
\<close>

theorem data_runs_roundtrip:
  assumes "runs_fit (unat bpc) 0 runs" "runs \<noteq> []"
  shows "decode_data_runs (encode_runs 0 runs @ 0 # rest) bpc
    = Inr (map (\<lambda>(_, _, lcn, len). (word_of_nat (lcn * unat bpc), word_of_nat (len * unat bpc))) runs)"
  using decode_encode_runs_from [of bpc 0 runs rest] assms by (simp add: decode_data_runs_def)

lemma decode_runs_cons:
  assumes "decode_runs_from bpc lcn (header # rest) = Inr extents" "extents \<noteq> []"
  shows "\<exists>nl rl st ln es runs. length runs \<le> length rest \<and> rl \<noteq> 0 \<and> 0 \<le> sint nl \<and> checked_mul nl bpc = Some st
    \<and> checked_mul rl bpc = Some ln \<and> decode_runs_from bpc nl runs = Inr es \<and> extents = (st, ln) # es"
proof -
  let ?ls = "unat (header AND 0x0F)" and ?os = "unat (drop_bit 4 header)"
  let ?rl = "or_bytes (take ?ls rest)"
  from assms obtain nl st ln es where "?rl \<noteq> 0" "\<not> sint nl < 0" "checked_mul nl bpc = Some st"
    "checked_mul ?rl bpc = Some ln" "decode_runs_from bpc nl (drop (?ls + ?os) rest) = Inr es" "extents = (st, ln) # es"
    by (auto simp: Let_def rbind_eq_Inr split: if_splits option.splits)
  then show ?thesis
    by (intro exI [of _ nl] exI [of _ ?rl] exI [of _ st] exI [of _ ln] exI [of _ es] exI [of _ "drop (?ls + ?os) rest"]) auto
qed

lemma decode_runs_from_bounds:
  "decode_runs_from bpc lcn runs = Inr extents \<Longrightarrow> 0 < bpc \<Longrightarrow>
   list_all (\<lambda>(s, l). unat bpc dvd unat s \<and> unat bpc dvd unat l \<and> 0 < unat l) extents"
proof (induction "length runs" arbitrary: lcn runs extents rule: less_induct)
  case less
  have mul: "unat p = unat x * unat bpc" if "checked_mul x bpc = Some p" for x p :: u64
    using that by (auto simp: checked_mul_def unat_word_ariths split: if_splits)
  have b: "0 < unat bpc" using less.prems(2) by (simp add: word_less_nat_alt)
  show ?case
  proof (cases "runs = [] \<or> extents = []")
    case True
    with less.prems show ?thesis by auto
  next
    case False
    then obtain header rest where "runs = header # rest" by (cases runs) auto
    then obtain nl rl st ln es runs' where f: "length runs' < length runs" "rl \<noteq> 0" "checked_mul nl bpc = Some st"
      "checked_mul rl bpc = Some ln" "decode_runs_from bpc nl runs' = Inr es" "extents = (st, ln) # es"
      using decode_runs_cons [of bpc lcn header rest extents] less.prems(1) False
      by (auto simp: less_Suc_eq_le simp del: decode_runs_from.simps)
    have "0 < unat ln" using mul [OF f(4)] b f(2) by (simp add: unat_gt_0)
    with f less.hyps [of runs' nl es] less.prems(2) mul [OF f(3)] mul [OF f(4)] show ?thesis by simp
  qed
qed

lemma extent_positions_simps [simp]:
  "extent_positions [] = []"
  "extent_positions ((s, l) # es) = [unat s..<unat s + unat l] @ extent_positions es"
  "extent_positions (es @ fs) = extent_positions es @ extent_positions fs"
  by (simp_all add: extent_positions_def)

lemma length_extent_positions: "length (extent_positions es) = sum_list (map (unat \<circ> snd) es)"
  by (induction es) auto

lemma trim_loop_take:
  "cumulative \<le> cap \<Longrightarrow> extent_positions (trim_loop cap cumulative es) = take (unat cap - unat cumulative) (extent_positions es)"
proof (induction cap cumulative es rule: trim_loop.induct)
  case (2 cap cumulative s l es)
  have rem: "unat (sat_sub cap cumulative) = unat cap - unat cumulative" by (rule unat_sat_sub)
  show ?case
  proof (cases "sat_sub cap cumulative = 0")
    case True
    then show ?thesis using rem by simp
  next
    case nz: False
    show ?thesis
    proof (cases "l \<le> sat_sub cap cumulative")
      case True
      have l: "unat l \<le> unat cap - unat cumulative" using True rem by (simp add: word_le_nat_alt)
      have "unat cumulative + unat l < 2 ^ 64"
        using l "2.prems" unat_less_power [of cap] by (simp add: word_le_nat_alt)
      then have sum: "unat (cumulative + l) = unat cumulative + unat l" by (simp add: unat_word_ariths)
      have "cumulative + l \<le> cap" using l "2.prems" by (simp add: word_le_nat_alt sum)
      then have "extent_positions (trim_loop cap (cumulative + l) es) = take (unat cap - unat (cumulative + l)) (extent_positions es)"
        using "2.IH" [OF refl nz True] by simp
      then show ?thesis using nz True l by (simp add: Let_def sum take_append)
    next
      case False
      then have "unat cap - unat cumulative \<le> unat l" using rem by (simp add: word_le_nat_alt)
      with nz False show ?thesis by (simp add: Let_def rem take_append)
    qed
  qed
qed simp

lemma unat_div_ceil:
  assumes "b \<noteq> 0"
  shows "unat (div_ceil a b) = (unat a + unat b - 1) div unat b"
proof -
  have b: "0 < unat b" using assms by (simp add: unat_gt_0)
  have q: "unat a div unat b \<le> unat a" by simp
  have nat: "(x + y - 1) div y = (if x mod y = 0 then x div y else x div y + 1)" if "0 < y" for x y :: nat
  proof (cases "x mod y = 0")
    case True
    then obtain k where "x = y * k" by auto
    with that show ?thesis by (cases k) (simp_all add: div_nat_eqI algebra_simps)
  next
    case False
    have "x + y - 1 = (x mod y - 1) + (x div y + 1) * y" using False div_mult_mod_eq [of x y] by simp
    moreover have "x mod y - 1 < y" using that mod_less_divisor [of y x] by linarith
    ultimately have "(x + y - 1) div y = x div y + 1" using that by (simp only: div_mult_self1) simp
    with False show ?thesis by simp
  qed
  show ?thesis
  proof (cases "unat a mod unat b = 0")
    case True
    then have "a mod b = 0" by (simp add: word_unat_eq_iff unat_mod)
    with True nat [OF b, of "unat a"] show ?thesis by (simp add: div_ceil_def unat_div)
  next
    case False
    then have "0 < a mod b" by (simp add: word_less_nat_alt unat_mod)
    moreover have "unat a div unat b + 1 < 2 ^ 64"
      using False b unat_less_power [of a] div_le_mono2 [of 2 "unat b" "unat a"] by (cases "unat b = 1") (auto simp: )
    ultimately show ?thesis
      using False nat [OF b, of "unat a"] by (simp add: div_ceil_def unat_word_ariths unat_div)
  qed
qed


text \<open>
  C23. Whatever the bytes, an accepted run list gives a non-empty list of extents, each of positive length,
  whose starts and lengths are multiples of the cluster size.
\<close>

theorem data_runs_bounds:
  assumes "decode_data_runs runs bpc = Inr extents" "0 < bpc"
  shows "extents \<noteq> [] \<and> list_all (\<lambda>(s, l). unat bpc dvd unat s \<and> unat bpc dvd unat l \<and> 0 < unat l) extents"
  using assms decode_runs_from_bounds [of bpc 0 runs extents]
  by (auto simp: decode_data_runs_def rbind_eq_Inr split: if_splits)

text \<open>
  Trimming the extents to the valid data length keeps a prefix of the stream: as many bytes as the length
  rounded up to clusters, or all of them, in the same order at the same places.
\<close>

theorem trim_extents_prefix:
  "extent_positions (trim_extents_to_valid_length extents valid_len cluster) =
    (if cluster = 0 \<or> valid_len = 0 \<or> valid_len = - 1 then extent_positions extents
     else take (min ((unat valid_len + unat cluster - 1) div unat cluster * unat cluster) (2 ^ 64 - 1))
            (extent_positions extents))"
proof (cases "cluster = 0 \<or> valid_len = 0 \<or> valid_len = - 1")
  case False
  define cap where "cap = sat_mul (div_ceil valid_len cluster) cluster"
  have cap: "unat cap = min ((unat valid_len + unat cluster - 1) div unat cluster * unat cluster) (2 ^ 64 - 1)"
    using False by (simp add: cap_def unat_sat_mul unat_div_ceil)
  have "0 < unat valid_len" "0 < unat cluster" using False by (simp_all add: unat_gt_0)
  then have "1 \<le> (unat valid_len + unat cluster - 1) div unat cluster"
    by (simp add: less_eq_div_iff_mult_less_eq)
  then have pos: "0 < unat cap" using \<open>0 < unat cluster\<close> by (simp add: cap)
  have "extent_positions (trim_loop cap 0 extents) = take (unat cap) (extent_positions extents)"
    using trim_loop_take [of 0 cap extents] by simp
  moreover have "extents = []" if "trim_loop cap 0 extents = []"
    using that pos by (cases extents) (auto simp: Let_def sat_sub_def unat_gt_0 split: if_splits prod.splits)
  ultimately show ?thesis
    using False by (auto simp: trim_extents_to_valid_length_def Let_def cap simp flip: cap_def)
qed (simp add: trim_extents_to_valid_length_def)

section \<open>Locating a record\<close>

fun physical_offset_from :: "extent list \<Rightarrow> u64 \<Rightarrow> u64 \<Rightarrow> u64 option" where
  "physical_offset_from [] target logical = None"
| "physical_offset_from ((start, len) # rest) target logical =
    (if target < logical + len then Some (start + (target - logical))
     else physical_offset_from rest target (logical + len))"

definition mft_record_physical_offset :: "extent list \<Rightarrow> u64 \<Rightarrow> u64 option" where
  "mft_record_physical_offset data_extents number =
     physical_offset_from data_extents (number * word_of_nat NTFS_RECORD_SIZE) 0"

definition extents_fit :: "extent list \<Rightarrow> bool" where
  "extents_fit es \<longleftrightarrow> list_all (\<lambda>(s, l). unat s + unat l < 2 ^ 64) es \<and> sum_list (map (unat \<circ> snd) es) < 2 ^ 64"

lemma extents_fit_Cons:
  "extents_fit ((s, l) # es) \<Longrightarrow> extents_fit es \<and> unat s + unat l < 2 ^ 64
    \<and> unat l + length (extent_positions es) < 2 ^ 64"
  by (simp add: extents_fit_def length_extent_positions)

lemma physical_offset_from_nth:
  assumes "extents_fit es" "unat logical + length (extent_positions es) < 2 ^ 64" "logical \<le> target"
  shows "map_option unat (physical_offset_from es target logical) =
    (if unat target - unat logical < length (extent_positions es)
     then Some (extent_positions es ! (unat target - unat logical)) else None)"
  using assms
proof (induction es target logical rule: physical_offset_from.induct)
  case (2 s l es target logical)
  have fit: "unat s + unat l < 2 ^ 64" "extents_fit es" using extents_fit_Cons [OF "2.prems"(1)] by auto
  have sum: "unat (logical + l) = unat logical + unat l"
    using "2.prems"(2) by (simp add: unat_word_ariths)
  have le: "unat logical \<le> unat target" using "2.prems"(3) by (simp add: word_le_nat_alt)
  have sub: "unat (target - logical) = unat target - unat logical" using "2.prems"(3) by (simp add: unat_sub)
  show ?case
  proof (cases "target < logical + l")
    case True
    then have lt: "unat target < unat logical + unat l" by (simp add: word_less_nat_alt sum)
    then have "unat (s + (target - logical)) = unat s + (unat target - unat logical)"
      using le fit(1) by (simp add: unat_word_ariths sub)
    moreover have "unat target - unat logical < unat l" using lt le by linarith
    ultimately show ?thesis using True by (simp add: nth_append)
  next
    case False
    then have ge: "logical + l \<le> target" "unat logical + unat l \<le> unat target"
      by (simp_all add: word_le_nat_alt not_less flip: sum)
    have "map_option unat (physical_offset_from es target (logical + l)) =
      (if unat target - (unat logical + unat l) < length (extent_positions es)
       then Some (extent_positions es ! (unat target - (unat logical + unat l))) else None)"
      using "2.IH" [OF False fit(2) _ ge(1)] "2.prems"(2) by (simp add: sum)
    with False ge show ?thesis by (simp add: nth_append) (auto simp: diff_diff_add)
  qed
qed simp

text \<open>
  The physical offset computed for a record number is the place of the record's first byte in the stream
  of the extents, and there is none exactly when the record lies beyond their end.
\<close>

theorem record_offset_in_stream:
  assumes "extents_fit es" "unat number * 1024 < 2 ^ 64"
  shows "map_option unat (mft_record_physical_offset es number) =
    (if unat number * 1024 < length (extent_positions es)
     then Some (extent_positions es ! (unat number * 1024)) else None)"
proof -
  have "unat (number * 1024) = unat number * 1024" using assms(2) by (simp add: unat_word_ariths)
  then show ?thesis
    using physical_offset_from_nth [of es 0 "number * 1024"] assms(1)
    by (simp add: mft_record_physical_offset_def NTFS_RECORD_SIZE_def extents_fit_def length_extent_positions)
qed

definition sample_runs :: "(nat \<times> nat \<times> nat \<times> nat) list" where
  "sample_runs = [(1, 2, 500, 8), (1, 1, 400, 4)]"

lemma data_runs_roundtrip_witness:
  "decode_data_runs (encode_runs 0 sample_runs @ 0 # [9]) 4096 = Inr [(2048000, 32768), (1638400, 16384)]"
  by (subst data_runs_roundtrip) (simp_all add: sample_runs_def)

lemma data_runs_bounds_witness:
  "list_all (\<lambda>(s, l). unat (4096 :: u64) dvd unat s \<and> unat (4096 :: u64) dvd unat l \<and> 0 < unat l)
     ([(2048000, 32768), (1638400, 16384)] :: extent list)
   \<and> decode_data_runs (encode_runs 0 sample_runs @ [0]) 4096 = Inr [(2048000, 32768), (1638400, 16384)]"
proof -
  have d: "decode_data_runs (encode_runs 0 sample_runs @ [0]) 4096 = Inr [(2048000, 32768), (1638400, 16384)]"
    using decode_encode_runs_from [of 4096 0 sample_runs "[]"] by (simp add: decode_data_runs_def sample_runs_def)
  from data_runs_bounds [OF d] d show ?thesis by simp
qed

lemma record_offset_in_stream_witness:
  "map_option unat (mft_record_physical_offset [(4096, 2048), (1024, 1024)] 2) = Some 1024"
  by (subst record_offset_in_stream) (simp_all add: extents_fit_def upt_rec nth_append)

end
