(* ===== verification/Ntfs_Volume.thy ===== *)
theory Ntfs_Volume
  imports Ntfs_Extents
begin

text \<open>
  Raw-volume access of \<open>WinBlaze.Scanner/src/ntfs.rs\<close>: the boot sector's geometry, the extents of the file
  table from its own record, single records, and the table's allocation bitmap, found in record 0 or in
  the extension record its attribute list names. A volume is a function from byte positions to the byte
  stored there, or to nothing where the device does not answer.
\<close>

type_synonym volume = "nat \<Rightarrow> byte option"

text \<open>\<open>seek\<close> and \<open>read_exact\<close>.\<close>

definition read_at :: "volume \<Rightarrow> nat \<Rightarrow> nat \<Rightarrow> ntfs_error + byte list" where
  "read_at vol offset n = (case those (map vol [offset..<offset + n]) of
     Some bytes \<Rightarrow> Inr bytes | None \<Rightarrow> Inl (NtfsIo ''read failed''))"

lemma length_those: "those xs = Some ys \<Longrightarrow> length ys = length xs"
  by (induction xs arbitrary: ys) (auto split: option.splits)

lemma those_map_Some: "those xs = Some ys \<longleftrightarrow> xs = map Some ys"
  by (induction xs arbitrary: ys) (auto split: option.splits simp: Cons_eq_map_conv)

lemma read_at_Inr: "read_at vol offset n = Inr bytes \<longleftrightarrow> map vol [offset..<offset + n] = map Some bytes"
  by (auto simp: read_at_def those_map_Some split: option.splits) (metis option.distinct(1) those_map_Some)

lemma length_read_at: "read_at vol offset n = Inr bytes \<Longrightarrow> length bytes = n"
  by (metis add_diff_cancel_left' length_map length_upt read_at_Inr)

section \<open>Geometry\<close>

record mft_geometry =
  geo_bytes_per_sector :: u16
  geo_bytes_per_cluster :: u64
  geo_mft_start_offset :: u64
  geo_record_size :: u32

text \<open>\<open>1u32 << n\<close> in a release build shifts by \<open>n\<close> modulo 32.\<close>

definition shl_one :: "nat \<Rightarrow> u32" where
  "shl_one n = push_bit (n mod 32) 1"

definition read_volume_geometry :: "volume \<Rightarrow> ntfs_error + mft_geometry" where
  "read_volume_geometry vol = rbind (read_at vol 0 512) (\<lambda>boot.
     if take 4 (drop 3 boot) \<noteq> [0x4E, 0x54, 0x46, 0x53] then Inl (NtfsIo ''volume is not NTFS'')
     else
       let sector = (from_le [boot ! 11, boot ! 12] :: u16);
           sectors_per_cluster = (ucast (boot ! 13) :: u64);
           mft_lcn = (from_le (take 8 (drop 48 boot)) :: u64);
           clusters_per_record = boot ! 64
       in if sector = 0 \<or> sectors_per_cluster = 0 then Inl (NtfsIo ''invalid NTFS boot sector geometry'')
          else
            let cluster = ucast sector * sectors_per_cluster;
                size = (if sint clusters_per_record > 0 then ucast clusters_per_record * ucast cluster
                        else shl_one (nat (- sint clusters_per_record)))
            in Inr \<lparr>geo_bytes_per_sector = sector, geo_bytes_per_cluster = cluster,
                    geo_mft_start_offset = mft_lcn * cluster, geo_record_size = size\<rparr>)"

section \<open>Walking the attributes of a record\<close>

definition ATTRIBUTE_LIST :: u32 where "ATTRIBUTE_LIST = 0x20"
definition ATTRIBUTE_FILE_NAME :: u32 where "ATTRIBUTE_FILE_NAME = 0x30"
definition ATTRIBUTE_DATA :: u32 where "ATTRIBUTE_DATA = 0x80"
definition ATTRIBUTE_BITMAP :: u32 where "ATTRIBUTE_BITMAP = 0xB0"

text \<open>
  The loop the readers below share: \<open>f\<close> sees the type, the offset and the length of each attribute and
  answers with what the code returns there, or with nothing to go on.
\<close>

function walk_attributes ::
  "(u32 \<Rightarrow> nat \<Rightarrow> nat \<Rightarrow> ntfs_error + 'r option) \<Rightarrow> byte list \<Rightarrow> nat \<Rightarrow> ntfs_error + 'r option" where
  "walk_attributes f record cursor =
    (if cursor + 8 \<le> length record then
       rbind (le_u32 record cursor) (\<lambda>attribute_type.
       if attribute_type = - 1 then Inr None
       else rbind (le_u32 record (cursor + 4)) (\<lambda>len.
         let attribute_length = unat len in
         if attribute_length = 0 \<or> cursor + attribute_length > length record then Inr None
         else rbind (f attribute_type cursor attribute_length) (\<lambda>r.
           case r of Some x \<Rightarrow> Inr (Some x)
           | None \<Rightarrow> walk_attributes f record (cursor + attribute_length))))
     else Inr None)"
  by auto
termination by (relation "measure (\<lambda>(f, record, cursor). length record - cursor)") auto

declare walk_attributes.simps [simp del]

definition get_or_0 :: "byte list \<Rightarrow> nat \<Rightarrow> byte" where
  "get_or_0 bytes i = (if i < length bytes then bytes ! i else 0)"

definition read_mft_extents :: "volume \<Rightarrow> mft_geometry \<Rightarrow> ntfs_error + extent list" where
  "read_mft_extents vol geometry =
    (let read_len = max (max (unat (geo_record_size geometry)) (unat (geo_bytes_per_cluster geometry)))
           (unat (geo_bytes_per_sector geometry))
     in rbind (read_at vol (unat (geo_mft_start_offset geometry)) read_len) (\<lambda>buffer.
        let record = take (unat (geo_record_size geometry)) buffer in
        rbind (slice_bytes record 0 4) (\<lambda>signature.
        if signature \<noteq> FILE_RECORD_SIGNATURE then Inl (NtfsIo ''MFT record 0 has no FILE signature'')
        else
          let (ok, record) = apply_record_fixups (unat (geo_bytes_per_sector geometry)) record in
          if \<not> ok then Inl (NtfsIo ''MFT record 0 fixup mismatch'')
          else
            rbind (le_u16 record 20) (\<lambda>first_attribute.
            rbind (walk_attributes (\<lambda>attribute_type cursor attribute_length.
              if attribute_type = ATTRIBUTE_DATA then
                if get_or_0 record (cursor + 8) = 0
                then Inl (NtfsIo ''MFT $DATA attribute unexpectedly resident'')
                else
                  rbind (if attribute_length \<ge> 64 then le_u64 record (cursor + 56) else Inr (- 1)) (\<lambda>valid_data_length.
                  rbind (le_u16 record (cursor + 32)) (\<lambda>run_offset.
                  if unat run_offset \<ge> attribute_length
                  then Inl (NtfsIo ''MFT $DATA run offset out of bounds'')
                  else
                    rbind (slice_bytes record (cursor + unat run_offset) (cursor + attribute_length)) (\<lambda>runs.
                    rbind (decode_data_runs runs (geo_bytes_per_cluster geometry)) (\<lambda>extents.
                    Inr (Some (trim_extents_to_valid_length extents valid_data_length (geo_bytes_per_cluster geometry)))))))
              else Inr None) record (unat first_attribute)) (\<lambda>found.
            case found of Some extents \<Rightarrow> Inr extents
            | None \<Rightarrow> Inl (NtfsIo ''MFT record 0 has no non-resident $DATA attribute''))))))"

definition read_mft_record_at :: "volume \<Rightarrow> mft_geometry \<Rightarrow> u64 \<Rightarrow> ntfs_error + byte list" where
  "read_mft_record_at vol geometry physical =
    (let cluster = max (max (geo_bytes_per_cluster geometry) (ucast (geo_bytes_per_sector geometry)))
           (word_of_nat NTFS_RECORD_SIZE);
         base = (physical div cluster) * cluster;
         within = unat (physical - base)
     in rbind (read_at vol (unat base) (unat cluster)) (\<lambda>buffer.
        if within + NTFS_RECORD_SIZE > length buffer then Inl (NtfsIo ''record spans cluster'')
        else
          let record = take NTFS_RECORD_SIZE (drop within buffer) in
          if take 4 record \<noteq> FILE_RECORD_SIGNATURE then Inl (NtfsIo ''MFT record has no valid FILE signature'')
          else
            let (ok, record) = apply_record_fixups (unat (geo_bytes_per_sector geometry)) record in
            if \<not> ok then Inl (NtfsIo ''MFT record has no valid FILE signature'') else Inr record))"

section \<open>The bitmap\<close>

definition VOLUME_READ_CHUNK :: nat where "VOLUME_READ_CHUNK = 4 * 1024 * 1024"

function read_extent_chunks :: "volume \<Rightarrow> u64 \<Rightarrow> nat \<Rightarrow> nat \<Rightarrow> ntfs_error + byte list" where
  "read_extent_chunks vol start len offset =
    (if offset < len then
       let to_read = min (len - offset) VOLUME_READ_CHUNK in
       rbind (read_at vol (unat (start + word_of_nat offset)) to_read) (\<lambda>bytes.
       rbind (read_extent_chunks vol start len (offset + to_read)) (\<lambda>rest. Inr (bytes @ rest)))
     else Inr [])"
  by auto
termination
  by (relation "measure (\<lambda>(vol, start, len, offset). len - offset)") (auto simp: VOLUME_READ_CHUNK_def)

declare read_extent_chunks.simps [simp del]

fun read_extents :: "volume \<Rightarrow> extent list \<Rightarrow> ntfs_error + byte list" where
  "read_extents vol [] = Inr []"
| "read_extents vol ((start, len) # rest) =
    rbind (read_extent_chunks vol start (unat len) 0) (\<lambda>bytes.
    rbind (read_extents vol rest) (\<lambda>more. Inr (bytes @ more)))"

definition usize_limit :: u64 where "usize_limit = - 1"

definition extract_bitmap_from_record :: "byte list \<Rightarrow> volume \<Rightarrow> mft_geometry \<Rightarrow> ntfs_error + byte list option" where
  "extract_bitmap_from_record record vol geometry =
    rbind (le_u16 record 20) (\<lambda>first.
    walk_attributes (\<lambda>attribute_type cursor attribute_length.
      if attribute_type \<noteq> ATTRIBUTE_BITMAP then Inr None
      else if get_or_0 record (cursor + 8) = 0 then
        rbind (le_u16 record (cursor + 20)) (\<lambda>value_offset.
        rbind (le_u32 record (cursor + 16)) (\<lambda>value_length.
        let start = cursor + unat value_offset; stop = start + unat value_length in
        if stop \<le> length record then rbind (slice_bytes record start stop) (\<lambda>value. Inr (Some value))
        else Inl (NtfsIo ''resident $BITMAP out of bounds'')))
      else
        rbind (if attribute_length \<ge> 56 then le_u64 record (cursor + 48) else Inr usize_limit) (\<lambda>real_size.
        rbind (le_u16 record (cursor + 32)) (\<lambda>run_offset.
        if unat run_offset \<ge> attribute_length then Inl (NtfsIo ''$BITMAP run offset out of bounds'')
        else
          rbind (slice_bytes record (cursor + unat run_offset) (cursor + attribute_length)) (\<lambda>runs.
          rbind (decode_data_runs runs (geo_bytes_per_cluster geometry)) (\<lambda>extents.
          rbind (read_extents vol extents) (\<lambda>bitmap. Inr (Some (take (unat real_size) bitmap))))))))
      record (unat first))"

text \<open>Here a bad run offset ends the function with nothing, without going on to the next attribute.\<close>

definition read_attribute_list_value :: "byte list \<Rightarrow> volume \<Rightarrow> mft_geometry \<Rightarrow> ntfs_error + byte list option" where
  "read_attribute_list_value record vol geometry =
    rbind (le_u16 record 20) (\<lambda>first.
    rbind (walk_attributes (\<lambda>attribute_type cursor attribute_length.
      if attribute_type \<noteq> ATTRIBUTE_LIST then Inr None
      else if get_or_0 record (cursor + 8) = 0 then
        rbind (le_u16 record (cursor + 20)) (\<lambda>value_offset.
        rbind (le_u32 record (cursor + 16)) (\<lambda>value_length.
        let start = cursor + unat value_offset in
        rbind (slice_bytes record start (min (start + unat value_length) (length record))) (\<lambda>value.
        Inr (Some (Some value)))))
      else
        rbind (if attribute_length \<ge> 56 then le_u64 record (cursor + 48) else Inr usize_limit) (\<lambda>real_size.
        rbind (le_u16 record (cursor + 32)) (\<lambda>run_offset.
        if unat run_offset \<ge> attribute_length then Inr (Some None)
        else
          rbind (slice_bytes record (cursor + unat run_offset) (cursor + attribute_length)) (\<lambda>runs.
          rbind (decode_data_runs runs (geo_bytes_per_cluster geometry)) (\<lambda>extents.
          rbind (read_extents vol extents) (\<lambda>value. Inr (Some (Some (take (unat real_size) value)))))))))
      record (unat first)) (\<lambda>r. Inr (case r of Some value \<Rightarrow> value | None \<Rightarrow> None)))"

function attribute_list_entry :: "byte list \<Rightarrow> nat \<Rightarrow> ntfs_error + u64 option" where
  "attribute_list_entry list pos =
    (if pos + 0x18 \<le> length list then
       rbind (le_u32 list pos) (\<lambda>entry_type.
       rbind (le_u16 list (pos + 4)) (\<lambda>len.
       let entry_len = unat len in
       if entry_len < 0x18 \<or> pos + entry_len > length list then Inr None
       else
         rbind (le_u64 list (pos + 8)) (\<lambda>starting_vcn.
         if entry_type = ATTRIBUTE_BITMAP \<and> starting_vcn = 0
         then rbind (le_u64 list (pos + 16)) (\<lambda>reference. Inr (Some (reference AND 0x0000FFFFFFFFFFFF)))
         else attribute_list_entry list (pos + entry_len))))
     else Inr None)"
  by auto
termination by (relation "measure (\<lambda>(list, pos). length list - pos)") auto

declare attribute_list_entry.simps [simp del]

definition attribute_list_bitmap_record :: "byte list \<Rightarrow> ntfs_error + u64 option" where
  "attribute_list_bitmap_record list = attribute_list_entry list 0"

definition no_bitmap :: "ntfs_error + byte list" where
  "no_bitmap = Inl (NtfsIo ''MFT record 0 has no $BITMAP attribute'')"

definition read_mft_bitmap :: "volume \<Rightarrow> mft_geometry \<Rightarrow> extent list \<Rightarrow> ntfs_error + byte list" where
  "read_mft_bitmap vol geometry data_extents =
    rbind (read_mft_record_at vol geometry (geo_mft_start_offset geometry)) (\<lambda>record0.
    rbind (extract_bitmap_from_record record0 vol geometry) (\<lambda>found.
    case found of Some bitmap \<Rightarrow> Inr bitmap
    | None \<Rightarrow>
      rbind (read_attribute_list_value record0 vol geometry) (\<lambda>found.
      case found of None \<Rightarrow> no_bitmap
      | Some list \<Rightarrow>
        rbind (attribute_list_bitmap_record list) (\<lambda>found.
        case found of None \<Rightarrow> no_bitmap
        | Some number \<Rightarrow>
          (case mft_record_physical_offset data_extents number of None \<Rightarrow> no_bitmap
           | Some physical \<Rightarrow>
             rbind (read_mft_record_at vol geometry physical) (\<lambda>extension.
             rbind (extract_bitmap_from_record extension vol geometry) (\<lambda>found.
             case found of Some bitmap \<Rightarrow> Inr bitmap | None \<Rightarrow> no_bitmap)))))))"

end
