(* ===== verification/Ntfs_Sparse.thy ===== *)
theory Ntfs_Sparse
  imports Ntfs_Volume
begin

text \<open>
  The sparse read of \<open>WinBlaze.Scanner/src/ntfs.rs\<close>: \<open>mft_keep_extents\<close> cuts the runs of free records out of
  the extents of the file table, guided by its allocation bitmap, and \<open>open_mft_stream\<close> decides when to
  use the result. The main fact is that the byte stream that is left consists of whole records, in order,
  among them every record the bitmap marks in use.
\<close>

section \<open>The filter\<close>

text \<open>Is record \<open>n\<close> marked in use?\<close>

definition bitmap_bit :: "byte list \<Rightarrow> u64 \<Rightarrow> bool" where
  "bitmap_bit bitmap record =
    (let i = unat (record div 8) in i < length bitmap \<and> bitmap ! i AND push_bit (unat (record mod 8)) 1 \<noteq> 0)"

definition cluster_occupied :: "byte list \<Rightarrow> nat \<Rightarrow> u64 \<Rightarrow> bool" where
  "cluster_occupied bitmap records_per_cluster cluster =
    (let first_record = cluster * word_of_nat records_per_cluster
     in list_ex (\<lambda>offset. bitmap_bit bitmap (first_record + word_of_nat offset)) [0..<records_per_cluster])"

text \<open>The inner loop: the end of the free run that starts at \<open>c\<close>.\<close>

function free_run_end :: "(nat \<Rightarrow> bool) \<Rightarrow> nat \<Rightarrow> nat \<Rightarrow> nat" where
  "free_run_end occupied clusters c = (if c < clusters \<and> \<not> occupied c then free_run_end occupied clusters (c + 1) else c)"
  by auto
termination by (relation "measure (\<lambda>(occupied, clusters, c). clusters - c)") auto

declare free_run_end.simps [simp del]

lemma free_run_end_ge: "c \<le> free_run_end occupied clusters c"
  by (induction occupied clusters c rule: free_run_end.induct) (subst free_run_end.simps, auto)

lemma free_run_end_le: "c \<le> clusters \<Longrightarrow> free_run_end occupied clusters c \<le> clusters"
  by (induction occupied clusters c rule: free_run_end.induct) (subst free_run_end.simps, auto)

lemma free_run_end_gt: "c < clusters \<Longrightarrow> \<not> occupied c \<Longrightarrow> c < free_run_end occupied clusters c"
  using free_run_end_ge [of "c + 1" occupied clusters] by (subst free_run_end.simps) auto

function keep_clusters :: "(nat \<Rightarrow> bool) \<Rightarrow> nat \<Rightarrow> nat \<Rightarrow> nat \<Rightarrow> bool list \<Rightarrow> bool list" where
  "keep_clusters occupied skip_min clusters c keep =
    (if c < clusters then
       if occupied c then keep_clusters occupied skip_min clusters (c + 1) (keep[c := True])
       else
         let run_start = c; c = free_run_end occupied clusters c
         in keep_clusters occupied skip_min clusters c
              (if c - run_start < skip_min then fold (\<lambda>i keep. keep[i := True]) [run_start..<c] keep else keep)
     else keep)"
  by auto
termination
  by (relation "measure (\<lambda>(occupied, skip_min, clusters, c, keep). clusters - c)")
    (auto dest: free_run_end_gt intro: diff_less_mono2)

declare keep_clusters.simps [simp del]

text \<open>Appending a piece to the result, merged into the last extent when it continues it.\<close>

definition push_extent :: "extent list \<Rightarrow> u64 \<Rightarrow> u64 \<Rightarrow> extent list" where
  "push_extent result phys len =
    (if result \<noteq> [] \<and> fst (last result) + snd (last result) = phys
     then butlast result @ [(fst (last result), snd (last result) + len)]
     else result @ [(phys, len)])"

fun place_clusters :: "bool list \<Rightarrow> u64 \<Rightarrow> u64 \<Rightarrow> nat list \<Rightarrow> extent list \<times> nat \<Rightarrow> extent list \<times> nat" where
  "place_clusters keep bytes_per_cluster phys_start [] state = state"
| "place_clusters keep bytes_per_cluster phys_start (local # rest) (result, logical_cluster) =
    (let keep_it = (if logical_cluster < length keep then keep ! logical_cluster else True)
     in place_clusters keep bytes_per_cluster phys_start rest
          (if keep_it then push_extent result (phys_start + word_of_nat local * bytes_per_cluster) bytes_per_cluster
           else result, logical_cluster + 1))"

fun place_extents :: "bool list \<Rightarrow> u64 \<Rightarrow> extent list \<Rightarrow> extent list \<times> nat \<Rightarrow> extent list" where
  "place_extents keep bytes_per_cluster [] (result, logical_cluster) = result"
| "place_extents keep bytes_per_cluster ((phys_start, len) # rest) state =
    (let clusters_here = len div bytes_per_cluster;
         (result, logical_cluster) = place_clusters keep bytes_per_cluster phys_start [0..<unat clusters_here] state;
         tail = len mod bytes_per_cluster
     in place_extents keep bytes_per_cluster rest
          (if tail \<noteq> 0 then push_extent result (phys_start + clusters_here * bytes_per_cluster) tail else result,
           logical_cluster))"

definition mft_keep_extents :: "extent list \<Rightarrow> byte list \<Rightarrow> u64 \<Rightarrow> u64 \<Rightarrow> extent list" where
  "mft_keep_extents data_extents bitmap bytes_per_cluster skip_min_bytes =
    (let records_per_cluster = unat (bytes_per_cluster div word_of_nat NTFS_RECORD_SIZE) in
     if records_per_cluster = 0 then data_extents
     else
       let total_clusters = (\<Sum>e\<leftarrow>data_extents. snd e div bytes_per_cluster) in
       if total_clusters = 0 then data_extents
       else
         let skip_min = unat (max (div_ceil skip_min_bytes bytes_per_cluster) 1);
             clusters = unat total_clusters;
             keep = keep_clusters (\<lambda>c. cluster_occupied bitmap records_per_cluster (word_of_nat c)) skip_min clusters 0
                      (replicate clusters False)
         in place_extents keep bytes_per_cluster data_extents ([], 0))"

section \<open>Opening the stream\<close>

definition MFT_SKIP_MIN_BYTES :: u64 where "MFT_SKIP_MIN_BYTES = 256 * 1024"

text \<open>
  The extents \<open>open_mft_stream\<close> reads from the volume; \<open>no_sparse\<close> and \<open>skip_kb\<close> are the two environment
  variables. An error makes the code try the metadata file instead.
\<close>

definition sparse_extents :: "volume \<Rightarrow> mft_geometry \<Rightarrow> bool \<Rightarrow> u64 option \<Rightarrow> extent list \<Rightarrow> ntfs_error + extent list" where
  "sparse_extents vol geometry no_sparse skip_kb extents =
    (let bpc = geo_bytes_per_cluster geometry in
     if \<not> no_sparse \<and> bpc \<ge> word_of_nat NTFS_RECORD_SIZE \<and> bpc mod word_of_nat NTFS_RECORD_SIZE = 0 then
       (case read_mft_bitmap vol geometry extents of
          Inr bitmap \<Rightarrow>
            let skip = (case skip_kb of Some kb \<Rightarrow> kb * 1024 | None \<Rightarrow> MFT_SKIP_MIN_BYTES);
                kept = mft_keep_extents extents bitmap bpc skip
            in Inr (if kept \<noteq> [] then kept else extents)
        | Inl Panicked \<Rightarrow> Inl Panicked
        | Inl _ \<Rightarrow> Inr extents)
     else Inr extents)"

definition open_volume_extents :: "volume \<Rightarrow> bool \<Rightarrow> u64 option \<Rightarrow> ntfs_error + mft_geometry \<times> extent list" where
  "open_volume_extents vol no_sparse skip_kb =
    rbind (read_volume_geometry vol) (\<lambda>geometry.
    if unat (geo_record_size geometry) \<noteq> NTFS_RECORD_SIZE then Inl (NtfsIo ''unsupported MFT record size'')
    else rbind (read_mft_extents vol geometry) (\<lambda>extents.
      rbind (sparse_extents vol geometry no_sparse skip_kb extents) (\<lambda>extents. Inr (geometry, extents))))"

section \<open>What is kept\<close>

lemma fold_mark_nth:
  "i < length keep \<Longrightarrow> fold (\<lambda>i keep. keep[i := True]) is keep ! i \<longleftrightarrow> i \<in> set is \<or> keep ! i"
proof (induction "is" arbitrary: keep)
  case (Cons a "is")
  then show ?case by (cases "a = i") auto
qed simp

lemma length_fold_mark [simp]: "length (fold (\<lambda>i keep. keep[i := True]) is keep) = length keep"
  by (induction "is" arbitrary: keep) auto

lemma free_run_end_free: "c \<le> i \<Longrightarrow> i < free_run_end occupied clusters c \<Longrightarrow> \<not> occupied i"
proof (induction occupied clusters c rule: free_run_end.induct)
  case (1 occupied clusters c)
  then have "c < clusters \<and> \<not> occupied c" by (subst (asm) free_run_end.simps) (auto split: if_splits)
  with 1 show ?case by (cases "i = c") (auto simp: free_run_end.simps [of _ clusters c])
qed

lemma keep_clusters_occupied:
  assumes "length keep = clusters" "\<forall>i<c. i < clusters \<and> occupied i \<longrightarrow> keep ! i"
  shows "length (keep_clusters occupied skip_min clusters c keep) = clusters
    \<and> (\<forall>i<clusters. occupied i \<longrightarrow> keep_clusters occupied skip_min clusters c keep ! i)"
  using assms
proof (induction occupied skip_min clusters c keep rule: keep_clusters.induct)
  case (1 occupied skip_min clusters c keep)
  show ?case
  proof (cases "c < clusters")
    case False
    with "1.prems" show ?thesis by (subst keep_clusters.simps) (auto simp: keep_clusters.simps [of _ _ clusters c])
  next
    case c: True
    show ?thesis
    proof (cases "occupied c")
      case True
      have "keep_clusters occupied skip_min clusters c keep = keep_clusters occupied skip_min clusters (c + 1) (keep[c := True])"
        using c True by (simp add: keep_clusters.simps [of _ _ clusters c])
      moreover have "\<forall>i<c + 1. i < clusters \<and> occupied i \<longrightarrow> keep[c := True] ! i"
        using "1.prems" c by (auto simp: nth_list_update less_Suc_eq)
      ultimately show ?thesis using "1.IH"(1) [OF c True] "1.prems"(1) by simp
    next
      case False
      define e where "e = free_run_end occupied clusters c"
      define keep' where "keep' = (if e - c < skip_min then fold (\<lambda>i keep. keep[i := True]) [c..<e] keep else keep)"
      have "keep_clusters occupied skip_min clusters c keep = keep_clusters occupied skip_min clusters e keep'"
        using c False by (simp add: keep_clusters.simps [of _ _ clusters c] Let_def e_def keep'_def)
      moreover have "\<forall>i<e. i < clusters \<and> occupied i \<longrightarrow> keep' ! i"
        using "1.prems" free_run_end_free [of c _ occupied clusters]
        by (auto simp: keep'_def e_def fold_mark_nth not_less) (meson not_le)+
      moreover have "length keep' = clusters" using "1.prems"(1) by (simp add: keep'_def)
      ultimately show ?thesis
        using "1.IH"(2) [OF c False refl e_def] "1.prems"(1) by (simp add: keep'_def e_def)
    qed
  qed
qed


abbreviation extents_within :: "extent list \<Rightarrow> bool" where
  "extents_within es \<equiv> list_all (\<lambda>(s, l). unat s + unat l < 2 ^ 64) es"

lemma push_extent_positions:
  assumes "extents_within r" "unat p + unat l < 2 ^ 64"
  shows "extent_positions (push_extent r p l) = extent_positions r @ [unat p..<unat p + unat l]
    \<and> extents_within (push_extent r p l)"
proof (cases "r \<noteq> [] \<and> fst (last r) + snd (last r) = p")
  case True
  obtain a b where last: "last r = (a, b)" by force
  with True have r: "r = butlast r @ [(a, b)]" by (metis append_butlast_last_id)
  have fit: "unat a + unat b < 2 ^ 64" "extents_within (butlast r)"
    using assms(1) arg_cong [OF r, of extents_within] by simp_all
  have p: "unat p = unat a + unat b" using True last fit(1) by (auto simp: unat_word_ariths)
  have bl: "unat (b + l) = unat b + unat l" using assms(2) p by (simp add: unat_word_ariths)
  have "[unat a..<unat a + unat b] @ [unat p..<unat p + unat l] = [unat a..<unat a + unat (b + l)]"
    using upt_add_eq_append [of "unat a" "unat a + unat b" "unat l"] by (simp add: p bl add.assoc)
  moreover have "extent_positions r = extent_positions (butlast r) @ [unat a..<unat a + unat b]"
    by (subst r) simp
  ultimately show ?thesis
    using True last fit(2) assms(2) p bl by (simp add: push_extent_def)
next
  case False
  then show ?thesis using assms by (auto simp: push_extent_def)
qed

abbreviation kept :: "bool list \<Rightarrow> nat \<Rightarrow> bool" where
  "kept keep c \<equiv> (if c < length keep then keep ! c else True)"

lemma place_clusters_positions:
  assumes "i \<le> n" "unat s + n * unat b < 2 ^ 64" "extents_within r" "place_clusters keep b s [i..<n] (r, c) = (r', c')"
  shows "extent_positions r' = extent_positions r
      @ concat (map (\<lambda>j. [unat s + j * unat b..<unat s + j * unat b + unat b]) (filter (\<lambda>j. kept keep (c + j - i)) [i..<n]))
    \<and> extents_within r' \<and> c' = c + (n - i)"
  using assms
proof (induction "n - i" arbitrary: i r c)
  case 0
  then show ?case by simp
next
  case (Suc k)
  then have i: "i < n" by simp
  have "i * unat b + unat b \<le> n * unat b" using i mult_le_mono1 [of "Suc i" n "unat b"] by simp
  then have lt: "unat s + i * unat b + unat b < 2 ^ 64" using Suc.prems(2) by linarith
  have ub: "i * unat b < 2 ^ 64" using lt by linarith
  have p: "unat (s + word_of_nat i * b) = unat s + i * unat b"
  proof (cases "b = 0")
    case False
    then have "1 \<le> unat b" by (simp add: unat_gt_0 Suc_le_eq)
    then have "i < 2 ^ 64" using ub by (metis le_less_trans mult.right_neutral mult_le_mono2)
    then have "unat (word_of_nat i * b) = i * unat b" using ub by (simp add: unat_word_ariths unat_of_nat)
    then show ?thesis using lt by (simp add: unat_word_ariths)
  qed simp
  define r1 where "r1 = (if kept keep c then push_extent r (s + word_of_nat i * b) b else r)"
  have r1: "extent_positions r1 = extent_positions r
      @ (if kept keep c then [unat s + i * unat b..<unat s + i * unat b + unat b] else []) \<and> extents_within r1"
    using push_extent_positions [OF Suc.prems(3), of "s + word_of_nat i * b" b] lt Suc.prems(3) by (simp add: r1_def p)
  have "place_clusters keep b s [Suc i..<n] (r1, c + 1) = (r', c')"
    using Suc.prems(4) i by (simp add: upt_conv_Cons Let_def r1_def)
  from Suc.hyps(1) [of "Suc i", OF _ _ _ _ this] Suc.hyps(2) Suc.prems(2) i r1
  show ?case by (simp add: upt_conv_Cons)
qed


lemma concat_filter_blocks:
  "concat (map (\<lambda>c. concat (map g [c * q..<c * q + q])) (filter P [0..<t]))
    = concat (map g (filter (\<lambda>n. P (n div q)) [0..<t * q]))"
proof (induction t)
  case (Suc t)
  have "filter (\<lambda>n. P (n div q)) [t * q..<t * q + q] = (if P t then [t * q..<t * q + q] else [])"
  proof -
    have "n div q = t" if "n \<in> set [t * q..<t * q + q]" for n
      using that by (auto intro!: div_nat_eqI simp: algebra_simps)
    then have "filter (\<lambda>n. P (n div q)) [t * q..<t * q + q] = filter (\<lambda>n. P t) [t * q..<t * q + q]"
      by (metis (mono_tags, lifting) filter_cong)
    then show ?thesis by simp
  qed
  moreover have "[0..<Suc t * q] = [0..<t * q] @ [t * q..<t * q + q]"
    using upt_add_eq_append [of 0 "t * q" q] by (simp add: add.commute)
  ultimately show ?case using Suc by simp
qed simp

lemma concat_pieces: "concat (map (\<lambda>n. take k (drop (k * n) xs)) [a..<a + q]) = take (k * q) (drop (k * a) xs)"
proof (induction q)
  case (Suc q)
  have "take (k * Suc q) (drop (k * a) xs) = take (k * q) (drop (k * a) xs) @ take k (drop (k * (a + q)) xs)"
    by (metis add.commute distrib_left drop_drop mult_Suc_right take_add)
  with Suc show ?case by simp
qed simp

lemma place_extents_positions:
  assumes "0 < unat b" "list_all (\<lambda>e. unat b dvd unat (snd e)) es" "extents_within es" "extents_within r"
  shows "extent_positions (place_extents keep b es (r, c)) = extent_positions r
      @ concat (map (\<lambda>j. take (unat b) (drop (unat b * j) (extent_positions es)))
          (filter (\<lambda>j. kept keep (c + j)) [0..<length (extent_positions es) div unat b]))"
  using assms(2-)
proof (induction es arbitrary: r c)
  case (Cons e es)
  obtain s l where e: "e = (s, l)" by force
  obtain m where m: "unat l = unat b * m" using Cons.prems(1) by (auto simp: e)
  have fit: "unat s + m * unat b < 2 ^ 64" "extents_within es" using Cons.prems(2) by (auto simp: e m mult.commute)
  have here: "unat (l div b) = m" "l mod b = 0" using assms(1) by (simp_all add: unat_div m word_unat_eq_iff unat_mod)
  obtain r' c' where pc: "place_clusters keep b s [0..<m] (r, c) = (r', c')" by force
  have r': "extent_positions r' = extent_positions r
      @ concat (map (\<lambda>j. [unat s + j * unat b..<unat s + j * unat b + unat b]) (filter (\<lambda>j. kept keep (c + j)) [0..<m]))"
    "extents_within r'" "c' = c + m"
    using place_clusters_positions [OF _ fit(1) Cons.prems(3) pc] by simp_all
  let ?P = "extent_positions es" and ?h = "[unat s..<unat s + unat l]"
  have len: "length (?h @ ?P) div unat b = m + length ?P div unat b" using assms(1) by (simp add: m)
  have first: "take (unat b) (drop (unat b * j) (?h @ ?P)) = [unat s + j * unat b..<unat s + j * unat b + unat b]" if "j < m" for j
  proof -
    have "unat b * j + unat b \<le> unat l" using that mult_le_mono2 [of "Suc j" m "unat b"] by (simp add: m)
    then show ?thesis by (simp add: take_upt drop_upt mult.commute)
  qed
  have rest: "take (unat b) (drop (unat b * (m + j)) (?h @ ?P)) = take (unat b) (drop (unat b * j) ?P)" for j
    by (simp add: m distrib_left)
  have upt: "[0..<m + k] = [0..<m] @ map (\<lambda>j. m + j) [0..<k]" for k
    using upt_add_eq_append [of 0 m k] map_add_upt [of m k] by (simp add: add.commute)
  have "place_extents keep b (e # es) (r, c) = place_extents keep b es (r', c')"
    by (simp add: e here pc Let_def)
  also have "extent_positions \<dots> = extent_positions r'
      @ concat (map (\<lambda>j. take (unat b) (drop (unat b * j) ?P)) (filter (\<lambda>j. kept keep (c' + j)) [0..<length ?P div unat b]))"
    using Cons.IH [OF _ fit(2) r'(2)] Cons.prems(1) by simp
  also have "\<dots> = extent_positions r
      @ concat (map (\<lambda>j. take (unat b) (drop (unat b * j) (?h @ ?P))) (filter (\<lambda>j. kept keep (c + j)) [0..<m + length ?P div unat b]))"
  proof -
    have "map (\<lambda>j. take (unat b) (drop (unat b * j) (?h @ ?P))) (filter (\<lambda>j. kept keep (c + j)) [0..<m])
        = map (\<lambda>j. [unat s + j * unat b..<unat s + j * unat b + unat b]) (filter (\<lambda>j. kept keep (c + j)) [0..<m])"
      by (rule map_cong [OF refl]) (use first in auto)
    then show ?thesis
      by (simp only: upt filter_append map_append concat_append r' filter_map map_map comp_def rest append_assoc add.assoc)
  qed
  finally show ?case by (simp only: e extent_positions_simps len)
qed simp


definition in_use :: "byte list \<Rightarrow> nat \<Rightarrow> bool" where
  "in_use bitmap n \<longleftrightarrow> n div 8 < length bitmap \<and> bit (bitmap ! (n div 8)) (n mod 8)"

lemma bitmap_bit_in_use: "n < 2 ^ 64 \<Longrightarrow> bitmap_bit bitmap (word_of_nat n) \<longleftrightarrow> in_use bitmap n"
  by (simp add: bitmap_bit_def in_use_def Let_def unat_div unat_mod unat_of_nat bit_iff_and_push_bit_not_eq_0)

lemma cluster_occupied_in_use:
  assumes "in_use bitmap n" "n < 2 ^ 64" "0 < q"
  shows "cluster_occupied bitmap q (word_of_nat (n div q))"
proof -
  have "word_of_nat (n div q) * word_of_nat q + word_of_nat (n mod q) = (word_of_nat n :: u64)"
    by (metis div_mult_mod_eq of_nat_add of_nat_mult)
  moreover have "bitmap_bit bitmap (word_of_nat n)" using assms bitmap_bit_in_use by simp
  ultimately show ?thesis
    using assms(3) by (auto simp: cluster_occupied_def list_ex_iff Let_def intro!: bexI [of _ "n mod q"])
qed

lemma unat_total_clusters:
  assumes "sum_list (map (unat \<circ> snd) es) < 2 ^ 64" "list_all (\<lambda>e. unat b dvd unat (snd e)) es"
  shows "unat (\<Sum>e\<leftarrow>es. snd e div b) = length (extent_positions es) div unat b"
  using assms
proof (induction es)
  case (Cons e es)
  have IH: "unat (\<Sum>e\<leftarrow>es. snd e div b) = sum_list (map (unat \<circ> snd) es) div unat b"
    using Cons by (simp add: length_extent_positions)
  have "unat (snd e) div unat b + sum_list (map (unat \<circ> snd) es) div unat b \<le> unat (snd e) + sum_list (map (unat \<circ> snd) es)"
    by (intro add_mono div_le_dividend)
  then have "unat (snd e div b) + unat (\<Sum>e\<leftarrow>es. snd e div b) < 2 ^ 64"
    using Cons.prems(1) by (simp only: IH unat_div) (simp add: comp_def)
  then have "unat (snd e div b + (\<Sum>e\<leftarrow>es. snd e div b)) = unat (snd e) div unat b + sum_list (map (unat \<circ> snd) es) div unat b"
    by (simp only: unat_word_ariths(1) len_num0 len_bit0) (simp add: unat_div IH)
  then show ?case using Cons.prems(2) by (simp add: length_extent_positions div_add1_eq [of "unat (snd e)"])
qed simp

text \<open>
  C14. The sparse read never skips a record in use: every byte of a record whose bitmap bit is set lies in the
  kept extents, whatever the skip threshold, and the kept extents read only bytes of the table, in table
  order.
\<close>

theorem sparse_read_keeps_used_records:
  assumes "extents_fit es" "list_all (\<lambda>e. unat bpc dvd unat (snd e)) es" "1024 dvd unat bpc" "0 < bpc"
  shows "\<exists>K. (\<forall>n. in_use bitmap n \<longrightarrow> K n)
    \<and> extent_positions (mft_keep_extents es bitmap bpc skip_min) =
        concat (map (\<lambda>n. take 1024 (drop (1024 * n) (extent_positions es)))
          (filter K [0..<length (extent_positions es) div 1024]))"
proof -
  obtain q where q: "unat bpc = 1024 * q" using assms(3) by blast
  have b: "0 < unat bpc" using assms(4) by (simp add: word_less_nat_alt)
  then have q0: "0 < q" by (simp add: q)
  let ?S = "extent_positions es"
  let ?R = "length ?S div 1024" and ?T = "length ?S div unat bpc"
  have rpc: "unat (bpc div word_of_nat NTFS_RECORD_SIZE) = q" by (simp add: NTFS_RECORD_SIZE_def unat_div q)
  have tc: "unat (\<Sum>e\<leftarrow>es. snd e div bpc) = ?T"
    using assms(1,2) by (intro unat_total_clusters) (auto simp: extents_fit_def)
  have "unat bpc dvd length ?S"
    using assms(2) by (induction es) auto
  then have S: "length ?S = unat bpc * ?T" "?R = ?T * q" by (auto simp: q)
  have small: "n < 2 ^ 64" if "n < ?R" for n
    using that assms(1) by (auto simp: extents_fit_def length_extent_positions)
  show ?thesis
  proof (cases "?T = 0")
    case True
    then have "(\<Sum>e\<leftarrow>es. snd e div bpc) = 0" using tc by (simp add: word_unat_eq_iff)
    then have "mft_keep_extents es bitmap bpc skip_min = es" by (simp add: mft_keep_extents_def Let_def)
    moreover have "?S = []" using S(1) True by simp
    ultimately show ?thesis by (intro exI [of _ "\<lambda>_. True"]) simp
  next
    case False
    define skip where "skip = unat (max (div_ceil skip_min bpc) 1)"
    define occ where "occ = (\<lambda>c. cluster_occupied bitmap q (word_of_nat c))"
    define keep where "keep = keep_clusters occ skip ?T 0 (replicate ?T False)"
    have keep: "length keep = ?T" "\<And>c. c < ?T \<Longrightarrow> occ c \<Longrightarrow> keep ! c"
      using keep_clusters_occupied [of "replicate ?T False" ?T 0 occ skip] by (simp_all add: keep_def)
    have "(\<Sum>e\<leftarrow>es. snd e div bpc) \<noteq> 0" using tc False by (metis unat_0)
    then have "mft_keep_extents es bitmap bpc skip_min = place_extents keep bpc es ([], 0)"
      using q0 by (simp add: mft_keep_extents_def Let_def rpc tc keep_def skip_def occ_def)
    then have "extent_positions (mft_keep_extents es bitmap bpc skip_min)
      = concat (map (\<lambda>j. take (unat bpc) (drop (unat bpc * j) ?S)) (filter (kept keep) [0..<?T]))"
      using place_extents_positions [OF b assms(2), of "[]" keep 0] assms(1) by (simp add: extents_fit_def)
    also have "(\<lambda>j. take (unat bpc) (drop (unat bpc * j) ?S))
        = (\<lambda>j. concat (map (\<lambda>n. take 1024 (drop (1024 * n) ?S)) [j * q..<j * q + q]))"
      by (rule ext) (simp only: concat_pieces q mult.assoc mult.commute [of q])
    also have "concat (map \<dots> (filter (kept keep) [0..<?T]))
        = concat (map (\<lambda>n. take 1024 (drop (1024 * n) ?S)) (filter (\<lambda>n. kept keep (n div q)) [0..<?R]))"
      by (simp only: concat_filter_blocks S(2))
    also have "filter (\<lambda>n. kept keep (n div q)) [0..<?R] = filter (\<lambda>n. kept keep (n div q) \<or> in_use bitmap n) [0..<?R]"
    proof (rule filter_cong [OF refl])
      fix n assume "n \<in> set [0..<?R]"
      then have n: "n < ?R" by simp
      then have "n div q < ?T" using q0 S(2) by (simp add: less_mult_imp_div_less)
      then show "kept keep (n div q) \<longleftrightarrow> kept keep (n div q) \<or> in_use bitmap n"
        using keep cluster_occupied_in_use [OF _ small [OF n] q0] by (auto simp: occ_def)
    qed
    finally show ?thesis by (intro exI [of _ "\<lambda>n. kept keep (n div q) \<or> in_use bitmap n"]) simp
  qed
qed

lemma sparse_read_keeps_used_records_witness:
  "\<exists>K. K 9 \<and> extent_positions (mft_keep_extents [(8192, 16384)] [0, 2] 4096 4096) =
      concat (map (\<lambda>n. take 1024 (drop (1024 * n) (extent_positions [(8192, 16384)])))
        (filter K [0..<length (extent_positions [(8192, 16384)]) div 1024]))"
proof -
  have fit: "extents_fit [(8192, 16384)]" "list_all (\<lambda>e. unat (4096 :: u64) dvd unat (snd e)) [(8192 :: u64, 16384 :: u64)]"
    "1024 dvd unat (4096 :: u64)" "(0 :: u64) < 4096"
    by (simp_all add: extents_fit_def)
  have "in_use [0, 2] 9" by (simp add: in_use_def)
  with sparse_read_keeps_used_records [OF fit, of "[0, 2]" 4096] show ?thesis by blast
qed

end
