(* ===== verification/Ntfs_Reader.thy ===== *)
theory Ntfs_Reader
  imports Ntfs_Sparse
begin

text \<open>
  \<open>VolumeMftReader\<close> of \<open>WinBlaze.Scanner/src/ntfs.rs\<close>: a reader over the extents of the file table with a
  bounce buffer for small requests, and the loop of the reader thread that fills whole blocks from it.
  The main fact is that the blocks are the bytes of the extents, in order, whatever the sizes of the
  requests.
\<close>

record mft_reader =
  mr_extents :: "extent list"
  mr_extent_index :: nat
  mr_consumed :: u64
  mr_bytes_per_sector :: nat
  mr_chunk :: "byte list"
  mr_chunk_pos :: nat
  mr_chunk_len :: nat

definition mft_reader_new :: "extent list \<Rightarrow> nat \<Rightarrow> mft_reader" where
  "mft_reader_new extents sector = \<lparr>mr_extents = extents, mr_extent_index = 0, mr_consumed = 0,
     mr_bytes_per_sector = sector, mr_chunk = [], mr_chunk_pos = 0, mr_chunk_len = 0\<rparr>"

definition reader_total_bytes :: "mft_reader \<Rightarrow> u64" where
  "reader_total_bytes r = (\<Sum>e\<leftarrow>mr_extents r. snd e)"

definition next_extent :: "mft_reader \<Rightarrow> mft_reader" where
  "next_extent r = r\<lparr>mr_extent_index := mr_extent_index r + 1, mr_consumed := 0\<rparr>"

function fill_chunk :: "volume \<Rightarrow> mft_reader \<Rightarrow> ntfs_error + mft_reader" where
  "fill_chunk vol r =
    (if mr_extent_index r < length (mr_extents r) then
       let (start, len) = mr_extents r ! mr_extent_index r; remaining = len - mr_consumed r in
       if remaining = 0 then fill_chunk vol (next_extent r)
       else
         let to_read = min (unat remaining) VOLUME_READ_CHUNK in
         rbind (read_at vol (unat (start + mr_consumed r)) to_read) (\<lambda>bytes.
         Inr (r\<lparr>mr_chunk := bytes, mr_consumed := mr_consumed r + word_of_nat to_read,
                mr_chunk_pos := 0, mr_chunk_len := to_read\<rparr>))
     else Inr (r\<lparr>mr_chunk_pos := 0, mr_chunk_len := 0\<rparr>))"
  by auto
termination
  by (relation "measure (\<lambda>(vol, r). length (mr_extents r) - mr_extent_index r)") (auto simp: next_extent_def)

declare fill_chunk.simps [simp del]

definition take_chunk :: "mft_reader \<Rightarrow> nat \<Rightarrow> byte list \<times> mft_reader" where
  "take_chunk r n =
    (let available = mr_chunk_len r - mr_chunk_pos r; amount = min available n
     in (take amount (drop (mr_chunk_pos r) (mr_chunk r)), r\<lparr>mr_chunk_pos := mr_chunk_pos r + amount\<rparr>))"

function reader_read_extents :: "volume \<Rightarrow> mft_reader \<Rightarrow> nat \<Rightarrow> ntfs_error + byte list \<times> mft_reader" where
  "reader_read_extents vol r n =
    (if mr_extent_index r < length (mr_extents r) then
       let (start, len) = mr_extents r ! mr_extent_index r; remaining = len - mr_consumed r in
       if remaining = 0 then reader_read_extents vol (next_extent r) n
       else
         let sector = max (mr_bytes_per_sector r) 512; direct = (min n (unat remaining) div sector) * sector in
         if direct \<ge> sector then
           rbind (read_at vol (unat (start + mr_consumed r)) direct) (\<lambda>bytes.
           Inr (bytes, r\<lparr>mr_consumed := mr_consumed r + word_of_nat direct\<rparr>))
         else
           rbind (fill_chunk vol r) (\<lambda>r. if mr_chunk_len r = 0 then Inr ([], r) else Inr (take_chunk r n))
     else Inr ([], r))"
  by auto
termination
  by (relation "measure (\<lambda>(vol, r, n). length (mr_extents r) - mr_extent_index r)") (auto simp: next_extent_def)

declare reader_read_extents.simps [simp del]

text \<open>One call of \<open>read\<close> with a buffer of \<open>n\<close> bytes.\<close>

definition reader_read :: "volume \<Rightarrow> mft_reader \<Rightarrow> nat \<Rightarrow> ntfs_error + byte list \<times> mft_reader" where
  "reader_read vol r n =
    (if mr_chunk_pos r < mr_chunk_len r then Inr (take_chunk r n) else reader_read_extents vol r n)"

text \<open>The reader thread fills a block; a read of zero bytes ends the stream.\<close>

function fill_block :: "volume \<Rightarrow> mft_reader \<Rightarrow> nat \<Rightarrow> byte list \<Rightarrow> ntfs_error + byte list \<times> mft_reader" where
  "fill_block vol r block_len filled =
    rbind (reader_read vol r (block_len - length filled)) (\<lambda>(bytes, r).
    if bytes = [] then Inr (filled, r)
    else if length (filled @ bytes) \<ge> block_len then Inr (filled @ bytes, r)
    else fill_block vol r block_len (filled @ bytes))"
  by auto
termination
  by (relation "measure (\<lambda>(vol, r, block_len, filled). block_len - length filled)") (auto simp: neq_Nil_conv)

declare fill_block.simps [simp del]

fun read_blocks :: "nat \<Rightarrow> volume \<Rightarrow> mft_reader \<Rightarrow> nat \<Rightarrow> ntfs_error + byte list list" where
  "read_blocks 0 vol r block_len = Inl Panicked"
| "read_blocks (Suc fuel) vol r block_len =
    rbind (fill_block vol r block_len []) (\<lambda>(block, r).
    if length block < block_len then Inr [block]
    else rbind (read_blocks fuel vol r block_len) (\<lambda>blocks. Inr (block # blocks)))"

section \<open>The pending bytes\<close>

definition rest_positions :: "mft_reader \<Rightarrow> nat list" where
  "rest_positions r =
    (if mr_extent_index r < length (mr_extents r) then
       (case mr_extents r ! mr_extent_index r of (s, l) \<Rightarrow> [unat s + unat (mr_consumed r)..<unat s + unat l])
       @ extent_positions (drop (mr_extent_index r + 1) (mr_extents r))
     else [])"

definition pending :: "volume \<Rightarrow> mft_reader \<Rightarrow> byte option list" where
  "pending vol r = map Some (drop (mr_chunk_pos r) (take (mr_chunk_len r) (mr_chunk r))) @ map vol (rest_positions r)"

definition reader_ok :: "mft_reader \<Rightarrow> bool" where
  "reader_ok r \<longleftrightarrow> extents_within (mr_extents r) \<and> mr_chunk_len r \<le> length (mr_chunk r)
     \<and> (mr_extent_index r < length (mr_extents r) \<longrightarrow> mr_consumed r \<le> snd (mr_extents r ! mr_extent_index r))"

lemma reader_ok_new: "extents_within es \<Longrightarrow> reader_ok (mft_reader_new es sector)"
  by (simp add: reader_ok_def mft_reader_new_def)

lemma pending_new: "pending vol (mft_reader_new es sector) = map vol (extent_positions es)"
  by (cases es) (auto simp: pending_def mft_reader_new_def rest_positions_def)

lemma next_extent_ok:
  assumes "reader_ok r" "mr_extent_index r < length (mr_extents r)" "mr_extents r ! mr_extent_index r = (s, l)"
    "l - mr_consumed r = 0"
  shows "reader_ok (next_extent r)" "pending vol (next_extent r) = pending vol r"
proof -
  have l: "l = mr_consumed r" using assms(4) by simp
  show "reader_ok (next_extent r)" using assms(1) by (simp add: reader_ok_def next_extent_def)
  have "drop (Suc (mr_extent_index r)) (mr_extents r) =
      mr_extents r ! Suc (mr_extent_index r) # drop (Suc (Suc (mr_extent_index r))) (mr_extents r)"
    if "Suc (mr_extent_index r) < length (mr_extents r)"
    using that by (simp add: Cons_nth_drop_Suc)
  then show "pending vol (next_extent r) = pending vol r"
    using assms(2,3) l by (auto simp: pending_def rest_positions_def next_extent_def split: prod.splits)
qed

text \<open>Reading \<open>k\<close> bytes at the current position of an extent.\<close>

lemma consume_extent:
  assumes "reader_ok r" "mr_extent_index r < length (mr_extents r)" "mr_extents r ! mr_extent_index r = (s, l)"
    "k \<le> unat (l - mr_consumed r)" "read_at vol (unat (s + mr_consumed r)) k = Inr bytes"
  shows "map vol (rest_positions r) = map Some bytes @ map vol (rest_positions (r\<lparr>mr_consumed := mr_consumed r + word_of_nat k\<rparr>))"
    "mr_consumed r + word_of_nat k \<le> l" "length bytes = k"
proof -
  let ?c = "mr_consumed r"
  have c: "unat ?c \<le> unat l" using assms(1-3) by (simp add: reader_ok_def word_le_nat_alt)
  have k: "k \<le> unat l - unat ?c" using assms(4) c by (simp add: unat_sub word_le_nat_alt)
  have fit: "unat s + unat l < 2 ^ 64"
    using assms(1-3) by (auto simp: reader_ok_def list_all_length)
  have p: "unat (s + ?c) = unat s + unat ?c" using fit c by (simp add: unat_word_ariths)
  have ck: "unat (?c + word_of_nat k) = unat ?c + k" using k c fit by (simp add: unat_word_ariths unat_of_nat)
  show "?c + word_of_nat k \<le> l" using k c by (simp add: word_le_nat_alt ck)
  show "length bytes = k" using length_read_at [OF assms(5)] .
  have "[unat s + unat ?c..<unat s + unat l] = [unat s + unat ?c..<unat s + unat ?c + k] @ [unat s + unat ?c + k..<unat s + unat l]"
    using k c upt_add_eq_append [of "unat s + unat ?c" "unat s + unat ?c + k" "unat l - unat ?c - k"] by simp
  moreover have "map vol [unat s + unat ?c..<unat s + unat ?c + k] = map Some bytes"
    using assms(5) by (simp add: read_at_Inr p)
  ultimately show "map vol (rest_positions r) = map Some bytes @ map vol (rest_positions (r\<lparr>mr_consumed := ?c + word_of_nat k\<rparr>))"
    using assms(2,3) by (simp add: rest_positions_def ck add.assoc)
qed

lemma rest_positions_cong:
  "mr_extents r' = mr_extents r \<Longrightarrow> mr_extent_index r' = mr_extent_index r \<Longrightarrow> mr_consumed r' = mr_consumed r \<Longrightarrow>
   rest_positions r' = rest_positions r"
  by (simp add: rest_positions_def)

lemma fill_chunk_pending:
  "reader_ok r \<Longrightarrow> mr_chunk_len r \<le> mr_chunk_pos r \<Longrightarrow> fill_chunk vol r = Inr r' \<Longrightarrow>
   reader_ok r' \<and> pending vol r' = pending vol r \<and> mr_chunk_pos r' = 0 \<and> (mr_chunk_len r' = 0 \<longrightarrow> pending vol r = [])"
proof (induction vol r rule: fill_chunk.induct)
  case (1 vol r)
  show ?case
  proof (cases "mr_extent_index r < length (mr_extents r)")
    case False
    then have "r' = r\<lparr>mr_chunk_pos := 0, mr_chunk_len := 0\<rparr>"
      using "1.prems"(3) by (simp add: fill_chunk.simps [of vol r])
    with False "1.prems" show ?thesis by (simp add: reader_ok_def pending_def rest_positions_def)
  next
    case idx: True
    obtain s l where e: "mr_extents r ! mr_extent_index r = (s, l)" by force
    show ?thesis
    proof (cases "l - mr_consumed r = 0")
      case True
      then have "fill_chunk vol r = fill_chunk vol (next_extent r)"
        using idx e by (subst fill_chunk.simps) simp
      then show ?thesis
        using "1.IH" [OF idx refl e [symmetric] refl True] next_extent_ok [OF "1.prems"(1) idx e True] "1.prems"
        by (simp add: next_extent_def)
    next
      case False
      define k where "k = min (unat (l - mr_consumed r)) VOLUME_READ_CHUNK"
      have k: "0 < k" "k \<le> unat (l - mr_consumed r)" using False by (auto simp: k_def unat_gt_0 VOLUME_READ_CHUNK_def)
      obtain bytes where b: "read_at vol (unat (s + mr_consumed r)) k = Inr bytes"
        and r': "r' = r\<lparr>mr_chunk := bytes, mr_consumed := mr_consumed r + word_of_nat k, mr_chunk_pos := 0, mr_chunk_len := k\<rparr>"
        using "1.prems"(3) idx e False by (subst (asm) fill_chunk.simps) (auto simp: Let_def rbind_eq_Inr k_def)
      note c = consume_extent [OF "1.prems"(1) idx e k(2) b]
      have "rest_positions r' = rest_positions (r\<lparr>mr_consumed := mr_consumed r + word_of_nat k\<rparr>)"
        by (rule rest_positions_cong) (simp_all add: r')
      with c k(1) show ?thesis
        using "1.prems"(1,2) idx e by (simp add: reader_ok_def pending_def) (simp add: r')
    qed
  qed
qed

lemma take_chunk_pending:
  assumes "reader_ok r" "mr_chunk_pos r \<le> mr_chunk_len r" "take_chunk r n = (bytes, r')"
  shows "reader_ok r' \<and> pending vol r = map Some bytes @ pending vol r' \<and> length bytes \<le> n
    \<and> (bytes = [] \<longrightarrow> n = 0 \<or> mr_chunk_len r = mr_chunk_pos r)"
proof -
  let ?a = "min (mr_chunk_len r - mr_chunk_pos r) n"
  let ?c = "drop (mr_chunk_pos r) (take (mr_chunk_len r) (mr_chunk r))"
  have b: "bytes = take ?a (drop (mr_chunk_pos r) (mr_chunk r))" "r' = r\<lparr>mr_chunk_pos := mr_chunk_pos r + ?a\<rparr>"
    using assms(3) by (auto simp: take_chunk_def Let_def)
  have "take ?a ?c = bytes" using assms(2) by (simp add: b drop_take)
  moreover have "drop ?a ?c = drop (mr_chunk_pos r + ?a) (take (mr_chunk_len r) (mr_chunk r))" by (simp add: add.commute)
  ultimately have "?c = bytes @ drop (mr_chunk_pos r + ?a) (take (mr_chunk_len r) (mr_chunk r))"
    by (metis append_take_drop_id)
  then have "pending vol r = map Some bytes @ pending vol r'"
    by (simp add: pending_def b(2) rest_positions_def)
  moreover have "length bytes = ?a" using assms(1,2) by (auto simp: b(1) reader_ok_def min_def)
  ultimately show ?thesis using assms(1,2) by (auto simp: reader_ok_def b(2))
qed

lemma reader_read_extents_pending:
  "reader_ok r \<Longrightarrow> mr_chunk_len r \<le> mr_chunk_pos r \<Longrightarrow> reader_read_extents vol r n = Inr (bytes, r') \<Longrightarrow>
   reader_ok r' \<and> pending vol r = map Some bytes @ pending vol r' \<and> length bytes \<le> n
   \<and> (bytes = [] \<longrightarrow> n = 0 \<or> pending vol r = [])"
proof (induction vol r n rule: reader_read_extents.induct)
  case (1 vol r n)
  have none: "pending vol r = map vol (rest_positions r)" using "1.prems"(2) by (simp add: pending_def)
  show ?case
  proof (cases "mr_extent_index r < length (mr_extents r)")
    case False
    then have "pending vol r = []" by (simp add: none rest_positions_def)
    with False show ?thesis using "1.prems" by (simp add: reader_read_extents.simps [of vol r])
  next
    case idx: True
    obtain s l where e: "mr_extents r ! mr_extent_index r = (s, l)" by force
    show ?thesis
    proof (cases "l - mr_consumed r = 0")
      case True
      then have "reader_read_extents vol r n = reader_read_extents vol (next_extent r) n"
        using idx e by (subst reader_read_extents.simps) simp
      then show ?thesis
        using "1.IH" [OF idx refl e [symmetric] refl True] next_extent_ok [OF "1.prems"(1) idx e True] "1.prems"
        by (auto simp: next_extent_def)
    next
      case rem: False
      define sector where "sector = max (mr_bytes_per_sector r) 512"
      define direct where "direct = (min n (unat (l - mr_consumed r)) div sector) * sector"
      have d: "direct \<le> n" "direct \<le> unat (l - mr_consumed r)" "0 < sector"
        using div_times_less_eq_dividend [of "min n (unat (l - mr_consumed r))" sector]
        by (simp_all add: direct_def sector_def)
      have step: "reader_read_extents vol r n = (if direct \<ge> sector then
           rbind (read_at vol (unat (s + mr_consumed r)) direct) (\<lambda>bytes.
           Inr (bytes, r\<lparr>mr_consumed := mr_consumed r + word_of_nat direct\<rparr>))
         else rbind (fill_chunk vol r) (\<lambda>r. if mr_chunk_len r = 0 then Inr ([], r) else Inr (take_chunk r n)))"
        by (subst reader_read_extents.simps) (simp only: idx e rem if_True if_False case_prod_conv Let_def sector_def direct_def)
      show ?thesis
      proof (cases "direct \<ge> sector")
        case True
        then have b: "read_at vol (unat (s + mr_consumed r)) direct = Inr bytes"
          "r' = r\<lparr>mr_consumed := mr_consumed r + word_of_nat direct\<rparr>"
          using "1.prems"(3) by (auto simp: step rbind_eq_Inr)
        note c = consume_extent [OF "1.prems"(1) idx e d(2) b(1)]
        then show ?thesis
          using True d "1.prems"(1,2) idx e by (auto simp: none reader_ok_def pending_def b(2))
      next
        case False
        then obtain r1 where r1: "fill_chunk vol r = Inr r1"
          "(if mr_chunk_len r1 = 0 then ([], r1) else take_chunk r1 n) = (bytes, r')"
          using "1.prems"(3) by (auto simp: step rbind_eq_Inr split: if_splits)
        note f = fill_chunk_pending [OF "1.prems"(1,2) r1(1)]
        show ?thesis
        proof (cases "mr_chunk_len r1 = 0")
          case True
          with f r1(2) show ?thesis by simp
        next
          case False
          then show ?thesis using take_chunk_pending [of r1 n bytes r' vol] f r1(2) by auto
        qed
      qed
    qed
  qed
qed

lemma reader_read_in_order:
  assumes "reader_ok r" "reader_read vol r n = Inr (bytes, r')"
  shows "reader_ok r' \<and> pending vol r = map Some bytes @ pending vol r' \<and> length bytes \<le> n
    \<and> (bytes = [] \<longrightarrow> n = 0 \<or> pending vol r = [])"
  using assms take_chunk_pending [of r n bytes r' vol] reader_read_extents_pending [of r vol n bytes r']
  by (auto simp: reader_read_def split: if_splits)


lemma fill_block_pending:
  "reader_ok r \<Longrightarrow> length filled < block_len \<Longrightarrow> fill_block vol r block_len filled = Inr (block, r') \<Longrightarrow>
   reader_ok r' \<and> map Some filled @ pending vol r = map Some block @ pending vol r'
   \<and> length block \<le> block_len \<and> (length block < block_len \<longrightarrow> pending vol r' = [])"
proof (induction vol r block_len filled rule: fill_block.induct)
  case (1 vol r block_len filled)
  from "1.prems"(3) obtain bytes r1 where r1: "reader_read vol r (block_len - length filled) = Inr (bytes, r1)"
    and rest: "(if bytes = [] then Inr (filled, r1) else if length (filled @ bytes) \<ge> block_len then Inr (filled @ bytes, r1)
      else fill_block vol r1 block_len (filled @ bytes)) = Inr (block, r')"
    by (subst (asm) fill_block.simps) (auto simp: rbind_eq_Inr)
  note step = reader_read_in_order [OF "1.prems"(1) r1]
  show ?case
  proof (cases "bytes = []")
    case True
    with rest step "1.prems"(2) show ?thesis by auto
  next
    case ne: False
    show ?thesis
    proof (cases "length (filled @ bytes) \<ge> block_len")
      case True
      with rest ne step "1.prems"(2) show ?thesis by auto
    next
      case False
      with rest ne have "fill_block vol r1 block_len (filled @ bytes) = Inr (block, r')" by simp
      from "1.IH" [OF r1 refl ne False _ _ this] step False show ?thesis by auto
    qed
  qed
qed

lemma read_blocks_pending:
  "reader_ok r \<Longrightarrow> 0 < block_len \<Longrightarrow> read_blocks fuel vol r block_len = Inr blocks \<Longrightarrow>
   map Some (concat blocks) = pending vol r \<and> (\<forall>b\<in>set (butlast blocks). length b = block_len)"
proof (induction fuel arbitrary: r blocks)
  case (Suc fuel)
  obtain block r1 where b: "fill_block vol r block_len [] = Inr (block, r1)"
    and rest: "(if length block < block_len then Inr [block]
      else rbind (read_blocks fuel vol r1 block_len) (\<lambda>blocks. Inr (block # blocks))) = Inr blocks"
    using Suc.prems(3) by (auto simp: rbind_eq_Inr)
  have step: "reader_ok r1" "pending vol r = map Some block @ pending vol r1" "length block \<le> block_len"
    "length block < block_len \<longrightarrow> pending vol r1 = []"
    using fill_block_pending [OF Suc.prems(1) _ b] Suc.prems(2) by auto
  show ?case
  proof (cases "length block < block_len")
    case False
    then obtain more where "read_blocks fuel vol r1 block_len = Inr more" "blocks = block # more"
      using rest by (auto simp: rbind_eq_Inr)
    with Suc.IH [OF step(1) Suc.prems(2)] step False show ?thesis by (auto simp: le_antisym)
  qed (use rest step in auto)
qed simp

text \<open>On a device that answers everywhere, no read fails.\<close>

lemma read_at_readable:
  assumes "\<forall>i\<in>{a..<a + n}. vol i \<noteq> None"
  shows "\<exists>bytes. read_at vol a n = Inr bytes"
proof -
  have "map vol [a..<a + n] = map Some (map (the \<circ> vol) [a..<a + n])" using assms by auto
  then show ?thesis using read_at_Inr by blast
qed

lemma read_extent_readable:
  assumes "reader_ok r" "mr_extent_index r < length (mr_extents r)" "mr_extents r ! mr_extent_index r = (s, l)"
    "k \<le> unat (l - mr_consumed r)" "\<forall>i\<in>set (rest_positions r). vol i \<noteq> None"
  shows "\<exists>bytes. read_at vol (unat (s + mr_consumed r)) k = Inr bytes"
proof -
  have c: "unat (mr_consumed r) \<le> unat l" using assms(1-3) by (simp add: reader_ok_def word_le_nat_alt)
  have k: "k \<le> unat l - unat (mr_consumed r)" using assms(4) c by (simp add: unat_sub word_le_nat_alt)
  have "unat s + unat l < 2 ^ 64" using assms(1-3) by (auto simp: reader_ok_def list_all_length)
  then have p: "unat (s + mr_consumed r) = unat s + unat (mr_consumed r)" using c by (simp add: unat_word_ariths)
  show ?thesis
  proof (rule read_at_readable, rule ballI)
    fix i assume "i \<in> {unat (s + mr_consumed r)..<unat (s + mr_consumed r) + k}"
    then have "unat s + unat (mr_consumed r) \<le> i" "i < unat s + unat l" using k c by (auto simp: p)
    then have "i \<in> set (rest_positions r)" using assms(2,3) by (simp add: rest_positions_def)
    with assms(5) show "vol i \<noteq> None" by blast
  qed
qed

lemma next_extent_positions:
  assumes "mr_extent_index r < length (mr_extents r)"
  shows "set (rest_positions (next_extent r)) \<subseteq> set (rest_positions r)"
proof (cases "Suc (mr_extent_index r) < length (mr_extents r)")
  case True
  obtain a b where e: "mr_extents r ! Suc (mr_extent_index r) = (a, b)" by force
  have "drop (Suc (mr_extent_index r)) (mr_extents r) = (a, b) # drop (Suc (Suc (mr_extent_index r))) (mr_extents r)"
    using True e by (metis Cons_nth_drop_Suc)
  with True e assms show ?thesis by (auto simp: rest_positions_def next_extent_def)
qed (simp add: rest_positions_def next_extent_def)

lemma fill_chunk_returns:
  "reader_ok r \<Longrightarrow> \<forall>i\<in>set (rest_positions r). vol i \<noteq> None \<Longrightarrow> \<exists>r'. fill_chunk vol r = Inr r'"
proof (induction vol r rule: fill_chunk.induct)
  case (1 vol r)
  show ?case
  proof (cases "mr_extent_index r < length (mr_extents r)")
    case False
    then show ?thesis by (simp add: fill_chunk.simps [of vol r])
  next
    case idx: True
    obtain s l where e: "mr_extents r ! mr_extent_index r = (s, l)" by force
    show ?thesis
    proof (cases "l - mr_consumed r = 0")
      case True
      have "fill_chunk vol r = fill_chunk vol (next_extent r)"
        using idx e True by (subst fill_chunk.simps) simp
      then show ?thesis
        using "1.IH" [OF idx refl e [symmetric] refl True] next_extent_ok(1) [OF "1.prems"(1) idx e True]
          next_extent_positions [OF idx] "1.prems"(2) by (metis subsetD)
    next
      case False
      obtain bytes where "read_at vol (unat (s + mr_consumed r)) (min (unat (l - mr_consumed r)) VOLUME_READ_CHUNK) = Inr bytes"
        using read_extent_readable [OF "1.prems"(1) idx e min.cobounded1 "1.prems"(2)] by blast
      then show ?thesis using idx e False by (subst fill_chunk.simps) (simp add: Let_def)
    qed
  qed
qed

lemma reader_read_returns:
  "reader_ok r \<Longrightarrow> \<forall>i\<in>set (rest_positions r). vol i \<noteq> None \<Longrightarrow> \<exists>bytes r'. reader_read_extents vol r n = Inr (bytes, r')"
proof (induction vol r n rule: reader_read_extents.induct)
  case (1 vol r n)
  show ?case
  proof (cases "mr_extent_index r < length (mr_extents r)")
    case False
    then show ?thesis by (simp add: reader_read_extents.simps [of vol r])
  next
    case idx: True
    obtain s l where e: "mr_extents r ! mr_extent_index r = (s, l)" by force
    show ?thesis
    proof (cases "l - mr_consumed r = 0")
      case True
      have "reader_read_extents vol r n = reader_read_extents vol (next_extent r) n"
        using idx e True by (subst reader_read_extents.simps) simp
      then show ?thesis
        using "1.IH" [OF idx refl e [symmetric] refl True] next_extent_ok(1) [OF "1.prems"(1) idx e True]
          next_extent_positions [OF idx] "1.prems"(2) by (metis subsetD)
    next
      case False
      let ?sector = "max (mr_bytes_per_sector r) 512"
      have "(min n (unat (l - mr_consumed r)) div ?sector) * ?sector \<le> unat (l - mr_consumed r)"
        using div_times_less_eq_dividend [of "min n (unat (l - mr_consumed r))" ?sector] by linarith
      from read_extent_readable [OF "1.prems"(1) idx e this "1.prems"(2)] show ?thesis
        using fill_chunk_returns [OF "1.prems"] idx e False
        by (subst reader_read_extents.simps) (auto simp: Let_def take_chunk_def)
    qed
  qed
qed

abbreviation all_readable :: "volume \<Rightarrow> mft_reader \<Rightarrow> bool" where
  "all_readable vol r \<equiv> None \<notin> set (pending vol r)"

lemma fill_block_returns:
  "reader_ok r \<Longrightarrow> all_readable vol r \<Longrightarrow> \<exists>block r'. fill_block vol r block_len filled = Inr (block, r')"
proof (induction vol r block_len filled rule: fill_block.induct)
  case (1 vol r block_len filled)
  obtain bytes r1 where r1: "reader_read vol r (block_len - length filled) = Inr (bytes, r1)"
  proof (cases "mr_chunk_pos r < mr_chunk_len r")
    case True
    then show thesis using that by (cases "take_chunk r (block_len - length filled)") (simp add: reader_read_def)
  next
    case False
    have "\<forall>i\<in>set (rest_positions r). vol i \<noteq> None"
      using "1.prems"(2) by (metis Un_iff image_eqI pending_def set_append set_map)
    then obtain bytes r' where "reader_read_extents vol r (block_len - length filled) = Inr (bytes, r')"
      using reader_read_returns [OF "1.prems"(1)] by blast
    with False show thesis using that by (simp add: reader_read_def)
  qed
  have "reader_ok r1 \<and> all_readable vol r1" using reader_read_in_order [OF "1.prems"(1) r1] "1.prems"(2) by auto
  then show ?case using "1.IH" [OF r1 refl] r1 by (subst fill_block.simps) auto
qed

lemma read_blocks_deliver:
  assumes "extents_within es" "\<forall>i\<in>set (extent_positions es). vol i \<noteq> None" "0 < block_len"
    and "length (extent_positions es) < fuel * block_len"
  shows "\<exists>blocks. read_blocks fuel vol (mft_reader_new es sector) block_len = Inr blocks
    \<and> map Some (concat blocks) = map vol (extent_positions es)
    \<and> list_all (\<lambda>b. length b = block_len) (butlast blocks)"
proof -
  have "\<exists>blocks. read_blocks fuel vol r block_len = Inr blocks"
    if "reader_ok r" "all_readable vol r" "length (pending vol r) < fuel * block_len" for r
    using that
  proof (induction fuel arbitrary: r)
    case (Suc fuel)
    obtain block r1 where b: "fill_block vol r block_len [] = Inr (block, r1)"
      using fill_block_returns [OF Suc.prems(1,2)] by blast
    have step: "reader_ok r1" "pending vol r = map Some block @ pending vol r1" "length block \<le> block_len"
      using fill_block_pending [OF Suc.prems(1) _ b] assms(3) by auto
    show ?case
    proof (cases "length block < block_len")
      case False
      then have "length (pending vol r1) < fuel * block_len" using step Suc.prems(3) by simp
      then show ?thesis using Suc.IH [OF step(1)] step(2) Suc.prems(2) b False by auto
    qed (simp add: b)
  qed simp
  then obtain blocks where "read_blocks fuel vol (mft_reader_new es sector) block_len = Inr blocks"
    using reader_ok_new [OF assms(1)] assms(2,4) by (force simp: pending_new)
  with read_blocks_pending [OF reader_ok_new [OF assms(1)] assms(3) this] show ?thesis
    by (auto simp: pending_new list_all_iff)
qed

text \<open>
  C13. The reader thread delivers the whole table: on a readable volume the loop ends, and its blocks,
  concatenated, are exactly the bytes of the extents in order, whatever the block size and the mix of direct
  and buffered reads.
\<close>

theorem reader_delivers_stream:
  assumes "extents_within es" "\<forall>i\<in>set (extent_positions es). vol i \<noteq> None" "0 < block_len"
    and "length (extent_positions es) < fuel * block_len"
  shows "\<exists>blocks. read_blocks fuel vol (mft_reader_new es sector) block_len = Inr blocks
    \<and> map Some (concat blocks) = map vol (extent_positions es)
    \<and> list_all (\<lambda>b. length b = block_len) (butlast blocks)"
  using assms by (rule read_blocks_deliver)

definition sample_volume_bytes :: volume where
  "sample_volume_bytes i = Some (word_of_nat i)"

lemma reader_delivers_stream_witness:
  "\<exists>blocks. read_blocks 3 sample_volume_bytes (mft_reader_new [(10, 3), (20, 2)] 512) 4 = Inr blocks
    \<and> concat blocks = [10, 11, 12, 20, 21]"
proof -
  have e: "extent_positions [(10, 3), (20, 2)] = [10, 11, 12, 20, 21]" by (simp add: upt_rec)
  have "\<exists>blocks. read_blocks 3 sample_volume_bytes (mft_reader_new [(10, 3), (20, 2)] 512) 4 = Inr blocks
    \<and> map Some (concat blocks) = map sample_volume_bytes [10, 11, 12, 20, 21]"
  proof -
    have "extents_within [(10, 3), (20, 2)]" "\<forall>i\<in>set (extent_positions [(10, 3), (20, 2)]). sample_volume_bytes i \<noteq> None"
      "0 < (4 :: nat)" "length (extent_positions [(10, 3), (20, 2)]) < 3 * 4"
      by (simp, simp add: sample_volume_bytes_def, simp, simp add: e del: extent_positions_simps)
    from reader_delivers_stream [OF this, of 512] show ?thesis by (auto simp only: e)
  qed
  moreover have "map sample_volume_bytes [10, 11, 12, 20, 21] = map Some [10, 11, 12, 20, 21]"
    by (simp add: sample_volume_bytes_def)
  ultimately show ?thesis by (metis map_injective inj_Some)
qed

end
