(* ===== verification/Ntfs_Records.thy ===== *)
theory Ntfs_Records
  imports Ntfs_Volume Core_Model
begin

text \<open>
  File records of \<open>WinBlaze.Scanner/src/ntfs.rs\<close>: the \<open>$FILE_NAME\<close> attribute with its UTF-16 name, and
  \<open>parse_record\<close>, the walk over a record's attributes that yields an entry, the sizes of an extension
  record, or nothing.
\<close>

section \<open>UTF-16 names\<close>

text \<open>\<open>char::decode_utf16\<close>; the caller stops at the first error.\<close>

fun decode_utf16 :: "u16 list \<Rightarrow> nat list option" where
  "decode_utf16 [] = Some []"
| "decode_utf16 (u # us) =
    (if unat u < 0xD800 \<or> unat u > 0xDFFF then map_option (Cons (unat u)) (decode_utf16 us)
     else if unat u \<ge> 0xDC00 then None
     else
       (case us of
          [] \<Rightarrow> None
        | v # vs \<Rightarrow>
            if unat v < 0xDC00 \<or> unat v > 0xDFFF then None
            else map_option (Cons ((unat u - 0xD800) * 0x400 + (unat v - 0xDC00) + 0x10000)) (decode_utf16 vs)))"

text \<open>\<open>String::push\<close>: the UTF-8 bytes of a code point.\<close>

definition utf8_bytes :: "nat \<Rightarrow> byte list" where
  "utf8_bytes c =
    (if c < 0x80 then [word_of_nat c]
     else if c < 0x800 then [word_of_nat (0xC0 + c div 64), word_of_nat (0x80 + c mod 64)]
     else if c < 0x10000 then
       [word_of_nat (0xE0 + c div 4096), word_of_nat (0x80 + c div 64 mod 64), word_of_nat (0x80 + c mod 64)]
     else
       [word_of_nat (0xF0 + c div 262144), word_of_nat (0x80 + c div 4096 mod 64),
        word_of_nat (0x80 + c div 64 mod 64), word_of_nat (0x80 + c mod 64)])"

definition string_of_chars :: "nat list \<Rightarrow> string" where
  "string_of_chars cs = of_bytes (concat (map utf8_bytes cs))"

fun le_units :: "byte list \<Rightarrow> u16 list" where
  "le_units (a # b # rest) = from_le [a, b] # le_units rest"
| "le_units _ = []"

section \<open>The file name attribute\<close>

record file_name_attribute =
  fn_parent_reference :: "u64 option"
  fn_created :: i64
  fn_modified :: i64
  fn_accessed :: i64
  fn_namespace :: byte
  fn_name :: string

definition namespace_rank :: "file_name_attribute \<Rightarrow> nat" where
  "namespace_rank a = (if fn_namespace a = 1 \<or> fn_namespace a = 3 then 2 else if fn_namespace a = 0 then 1 else 0)"

definition parse_file_name :: "byte list \<Rightarrow> ntfs_error + file_name_attribute" where
  "parse_file_name bytes =
    (if length bytes < 66 then Inl (InvalidRecord ''file name attribute too small'')
     else
       rbind (le_u64 bytes 0) (\<lambda>reference.
       rbind (le_i64 bytes 8) (\<lambda>created.
       rbind (le_i64 bytes 16) (\<lambda>modified.
       rbind (le_i64 bytes 24) (\<lambda>accessed.
       rbind (index_byte bytes 64) (\<lambda>name_length.
       rbind (index_byte bytes 65) (\<lambda>namespace.
       let name_bytes = unat name_length * 2 in
       if 66 + name_bytes > length bytes then Inl (InvalidRecord ''file name attribute truncated'')
       else
         rbind (slice_bytes bytes 66 (66 + name_bytes)) (\<lambda>units.
         case decode_utf16 (le_units units) of
           None \<Rightarrow> Inl (InvalidRecord ''invalid utf-16 file name'')
         | Some name \<Rightarrow> Inr \<lparr>fn_parent_reference = Some (reference AND 0x0000FFFFFFFFFFFF), fn_created = created,
             fn_modified = modified, fn_accessed = accessed, fn_namespace = namespace, fn_name = string_of_chars name\<rparr>))))))))"

section \<open>Parsing a record\<close>

record parsed_entry =
  e_file_id :: u64
  e_parent_directory_id :: "u64 option"
  e_name :: string
  e_is_directory :: bool
  e_has_attribute_list :: bool
  e_size_bytes :: u64
  e_allocation_bytes :: u64
  e_attributes :: u32
  e_created_utc :: "i64 option"
  e_modified_utc :: "i64 option"
  e_accessed_utc :: "i64 option"

record extension_sizes =
  x_base_record :: u64
  x_size_bytes :: u64
  x_allocation_bytes :: u64

datatype record_outcome = NoRecord | EntryRecord parsed_entry | ExtensionRecord extension_sizes

text \<open>The variables the attribute loop updates.\<close>

record record_scan =
  rs_file_name :: "file_name_attribute option"
  rs_allocation_bytes :: u64
  rs_size_bytes :: u64
  rs_has_attribute_list :: bool

text \<open>A parsed name replaces one of lower rank; \<open>None\<close> is the early return of an unreadable name.\<close>

fun take_name :: "ntfs_error + file_name_attribute \<Rightarrow> record_scan \<Rightarrow> ntfs_error + record_scan option" where
  "take_name (Inr name) st =
    (let replace = (case rs_file_name st of None \<Rightarrow> True | Some current \<Rightarrow> namespace_rank name \<ge> namespace_rank current)
     in Inr (Some (if replace then st\<lparr>rs_file_name := Some name\<rparr> else st)))"
| "take_name (Inl Panicked) st = Inl Panicked"
| "take_name (Inl e) st = Inr None"

text \<open>One attribute.\<close>

definition scan_attribute :: "byte list \<Rightarrow> u32 \<Rightarrow> nat \<Rightarrow> byte \<Rightarrow> byte \<Rightarrow> record_scan \<Rightarrow> ntfs_error + record_scan option" where
  "scan_attribute record attribute_type cursor non_resident attribute_name_length st =
    (if attribute_type = ATTRIBUTE_LIST then Inr (Some (st\<lparr>rs_has_attribute_list := True\<rparr>))
     else if attribute_type = ATTRIBUTE_FILE_NAME \<and> non_resident = 0 then
       rbind (try_u16 record (cursor + 20)) (\<lambda>value_offset.
       rbind (try_u32 record (cursor + 16)) (\<lambda>value_length.
       let start = cursor + unat value_offset; stop = start + unat value_length in
       if stop \<le> length record then
         rbind (slice_bytes record start stop) (\<lambda>value. take_name (parse_file_name value) st)
       else Inr (Some st)))
     else if attribute_type = ATTRIBUTE_DATA \<and> non_resident = 0 \<and> attribute_name_length = 0 then
       rbind (try_u32 record (cursor + 16)) (\<lambda>size.
       Inr (Some (st\<lparr>rs_size_bytes := ucast size, rs_allocation_bytes := ucast size\<rparr>)))
     else if attribute_type = ATTRIBUTE_DATA \<and> non_resident \<noteq> 0 \<and> attribute_name_length = 0 then
       rbind (try_u64 record (cursor + 16)) (\<lambda>starting_vcn.
       if starting_vcn = 0 then
         rbind (try_u64 record (cursor + 40)) (\<lambda>allocation.
         rbind (try_u64 record (cursor + 48)) (\<lambda>size.
         Inr (Some (st\<lparr>rs_allocation_bytes := allocation, rs_size_bytes := size\<rparr>))))
       else Inr (Some st))
     else Inr (Some st))"

definition scan_done :: "u64 \<Rightarrow> bool \<Rightarrow> record_scan \<Rightarrow> bool" where
  "scan_done base_record is_dir st \<longleftrightarrow> base_record = 0
     \<and> (case rs_file_name st of Some name \<Rightarrow> namespace_rank name = 2 | None \<Rightarrow> False)
     \<and> (is_dir \<or> rs_size_bytes st \<noteq> 0 \<or> rs_allocation_bytes st \<noteq> 0)"

function scan_attributes :: "byte list \<Rightarrow> u64 \<Rightarrow> bool \<Rightarrow> nat \<Rightarrow> record_scan \<Rightarrow> ntfs_error + record_scan option" where
  "scan_attributes record base_record is_dir cursor st =
    (if cursor + 8 \<le> length record then
       rbind (le_u32 record cursor) (\<lambda>attribute_type.
       if attribute_type = - 1 then Inr (Some st)
       else rbind (le_u32 record (cursor + 4)) (\<lambda>len.
         let attribute_length = unat len in
         if attribute_length = 0 \<or> cursor + attribute_length > length record then Inr (Some st)
         else
           rbind (index_byte record (cursor + 8)) (\<lambda>non_resident.
           rbind (index_byte record (cursor + 9)) (\<lambda>attribute_name_length.
           rbind (scan_attribute record attribute_type cursor non_resident attribute_name_length st) (\<lambda>r.
           case r of
             None \<Rightarrow> Inr None
           | Some st \<Rightarrow>
               if scan_done base_record is_dir st then Inr (Some st)
               else scan_attributes record base_record is_dir (cursor + attribute_length) st)))))
     else Inr (Some st))"
  by auto
termination by (relation "measure (\<lambda>(record, base_record, is_dir, cursor, st). length record - cursor)") auto

declare scan_attributes.simps [simp del]

definition record_scan_start :: record_scan where
  "record_scan_start = \<lparr>rs_file_name = None, rs_allocation_bytes = 0, rs_size_bytes = 0, rs_has_attribute_list = False\<rparr>"

definition record_result :: "u64 \<Rightarrow> u64 \<Rightarrow> bool \<Rightarrow> record_scan \<Rightarrow> record_outcome" where
  "record_result file_index base_record is_dir st =
    (if base_record \<noteq> 0 then
       if rs_size_bytes st \<noteq> 0 \<or> rs_allocation_bytes st \<noteq> 0
       then ExtensionRecord \<lparr>x_base_record = base_record, x_size_bytes = rs_size_bytes st,
              x_allocation_bytes = rs_allocation_bytes st\<rparr>
       else NoRecord
     else
       (case rs_file_name st of
          None \<Rightarrow> NoRecord
        | Some name \<Rightarrow> EntryRecord \<lparr>e_file_id = file_index, e_parent_directory_id = fn_parent_reference name,
            e_name = fn_name name, e_is_directory = is_dir, e_has_attribute_list = rs_has_attribute_list st,
            e_size_bytes = rs_size_bytes st, e_allocation_bytes = rs_allocation_bytes st,
            e_attributes = (if is_dir then DIRECTORY else ARCHIVE),
            e_created_utc = Some (fn_created name), e_modified_utc = Some (fn_modified name),
            e_accessed_utc = Some (fn_accessed name)\<rparr>))"

definition parse_record :: "byte list \<Rightarrow> ntfs_error + record_outcome" where
  "parse_record record =
    (if length record < NTFS_RECORD_SIZE \<or> take 4 record \<noteq> FILE_RECORD_SIGNATURE then Inr NoRecord
     else
       rbind (le_u32 record 0x2C) (\<lambda>file_index.
       rbind (le_u16 record 0x16) (\<lambda>flags.
       if flags AND 0x0001 = 0 then Inr NoRecord
       else
         rbind (le_u64 record 0x20) (\<lambda>base.
         rbind (le_u16 record 0x14) (\<lambda>first_attr_offset.
         let base_record = base AND 0x0000FFFFFFFFFFFF; is_dir = (flags AND 0x0002 \<noteq> 0) in
         rbind (scan_attributes record base_record is_dir (unat first_attr_offset) record_scan_start) (\<lambda>r.
         Inr (case r of None \<Rightarrow> NoRecord | Some st \<Rightarrow> record_result (ucast file_index) base_record is_dir st)))))))"

section \<open>Panics\<close>

lemma parse_file_name_no_panic: "parse_file_name bytes \<noteq> Inl Panicked"
  by (auto simp: parse_file_name_def le_slices_in_bounds index_byte_def slice_bytes_def Let_def split: option.splits)

lemma try_read_no_panic: "try_read n m bytes offset \<noteq> Inl Panicked"
  by (simp add: try_read_def)

lemma take_name_no_panic: "take_name r st \<noteq> Inl Panicked \<longleftrightarrow> r \<noteq> Inl Panicked"
  by (cases "(r, st)" rule: take_name.cases) (auto simp: Let_def)

lemma scan_attribute_no_panic: "scan_attribute record t cursor nr nl st \<noteq> Inl Panicked"
  using take_name_no_panic parse_file_name_no_panic
  by (auto simp: scan_attribute_def rbind_eq_Inl try_u16_def try_u32_def try_u64_def try_read_no_panic Let_def
      slice_bytes_def)


text \<open>
  The two unchecked reads behind an attribute's length: an attribute that the loop would accept but that
  ends before its flags at offsets 8 and 9.
\<close>

definition short_attribute :: "byte list \<Rightarrow> nat \<Rightarrow> bool" where
  "short_attribute record c \<longleftrightarrow> c + 8 \<le> length record \<and> length record < c + 10
     \<and> (case (le_u32 record c, le_u32 record (c + 4)) of
          (Inr t, Inr n) \<Rightarrow> t \<noteq> - 1 \<and> n \<noteq> 0 \<and> c + unat n \<le> length record | _ \<Rightarrow> False)"

lemma scan_attributes_no_panic:
  "(\<And>c. \<not> short_attribute bs c) \<Longrightarrow> scan_attributes bs base_record is_dir cursor st \<noteq> Inl Panicked"
proof (induction bs base_record is_dir cursor st rule: scan_attributes.induct)
  case (1 bs base_record is_dir cursor st)
  show ?case
  proof (cases "cursor + 8 \<le> length bs")
    case True
    obtain t where t: "le_u32 bs cursor = Inr t" using True by (simp add: le_slices_in_bounds)
    obtain n where n: "le_u32 bs (cursor + 4) = Inr n" using True by (simp add: le_slices_in_bounds)
    show ?thesis
    proof (cases "t = - 1 \<or> n = 0 \<or> cursor + unat n > length bs")
      case True
      then show ?thesis using t n by (subst scan_attributes.simps) (auto simp: Let_def)
    next
      case False
      then have "cursor + 10 \<le> length bs"
        using "1.prems" [of cursor] t n True by (auto simp: short_attribute_def not_less)
      then show ?thesis
        using t n False True "1.IH" [OF True t _ n refl] "1.prems"
          scan_attribute_no_panic [of bs t cursor "bs ! (cursor + 8)" "bs ! (cursor + 9)" st]
        by (subst scan_attributes.simps)
          (auto simp: Let_def index_byte_def rbind_eq_Inl unat_gt_0 not_less split: option.splits if_splits)
    qed
  next
    case False
    then show ?thesis by (subst scan_attributes.simps) simp
  qed
qed

text \<open>
  C20. Parsing a record of arbitrary bytes never panics unless the record holds an attribute header that the
  loop accepts and that lies so close to the end that its flags at offsets eight and nine are outside the
  record.
\<close>

theorem parse_record_panic_free:
  assumes "\<And>c. \<not> short_attribute bs c"
  shows "parse_record bs \<noteq> Inl Panicked"
  using scan_attributes_no_panic [OF assms]
  by (auto simp: parse_record_def NTFS_RECORD_SIZE_def le_slices_in_bounds le_u16_in_bounds rbind_eq_Inl Let_def
      not_less)

text \<open>A record whose only attribute fills its last eight bytes.\<close>

definition crafted_record :: "byte list" where
  "crafted_record = FILE_RECORD_SIGNATURE @ [48, 0, 2, 0] @ replicate 12 0 @ [0xF8, 3, 1, 0] @ replicate 992 0 @ [0x10, 0, 0, 0, 8, 0, 0, 0]"

lemma crafted_record_panics:
  "length crafted_record = NTFS_RECORD_SIZE \<and> parse_record crafted_record = Inl Panicked"
proof -
  have len: "length crafted_record = 1024" by (simp add: crafted_record_def FILE_RECORD_SIGNATURE_def)
  have tail: "drop 1016 crafted_record = [0x10, 0, 0, 0, 8, 0, 0, 0]" "drop 1020 crafted_record = [8, 0, 0, 0]"
    by (simp_all add: crafted_record_def FILE_RECORD_SIGNATURE_def)
  have attr: "le_u32 crafted_record 1016 = Inr 0x10" "le_u32 crafted_record 1020 = Inr 8"
    using tail by (simp_all add: le_slices_in_bounds len from_le_def)
  have "take 4 crafted_record = FILE_RECORD_SIGNATURE" "crafted_record ! 20 = 0xF8" "crafted_record ! 21 = 3"
    "crafted_record ! 22 = 1" "crafted_record ! 23 = 0"
    by (simp_all add: crafted_record_def FILE_RECORD_SIGNATURE_def nth_append)
  moreover have "scan_attributes crafted_record base_record is_dir 1016 st = Inl Panicked" for base_record is_dir st
    by (subst scan_attributes.simps) (simp add: len attr index_byte_def)
  ultimately show ?thesis
    by (simp add: parse_record_def len NTFS_RECORD_SIZE_def le_slices_in_bounds le_u16_in_bounds from_le_def)
qed


section \<open>Names\<close>

definition encode_utf16_char :: "nat \<Rightarrow> u16 list" where
  "encode_utf16_char c = (if c < 0x10000 then [word_of_nat c]
     else [word_of_nat (0xD800 + (c - 0x10000) div 0x400), word_of_nat (0xDC00 + (c - 0x10000) mod 0x400)])"

definition scalar_value :: "nat \<Rightarrow> bool" where
  "scalar_value c \<longleftrightarrow> c < 0xD800 \<or> 0xE000 \<le> c \<and> c < 0x110000"

lemma decode_encode_utf16:
  "\<forall>c\<in>set cs. scalar_value c \<Longrightarrow> decode_utf16 (concat (map encode_utf16_char cs)) = Some cs"
proof (induction cs)
  case (Cons c cs)
  then have c: "scalar_value c" and IH: "decode_utf16 (concat (map encode_utf16_char cs)) = Some cs" by auto
  show ?case
  proof (cases "c < 0x10000")
    case True
    then have "unat (word_of_nat c :: u16) = c" by (simp add: unat_of_nat)
    moreover have "encode_utf16_char c = [word_of_nat c]" using True by (simp add: encode_utf16_char_def)
    ultimately show ?thesis using True c IH by (auto simp: scalar_value_def)
  next
    case False
    define d where "d = c - 0x10000"
    have d: "d < 0x100000" "c = d + 0x10000" using False c by (auto simp: d_def scalar_value_def)
    then have q: "d div 0x400 < 0x400" by simp
    have "unat (word_of_nat (0xD800 + d div 0x400) :: u16) = 0xD800 + d div 0x400"
      using q by (simp only: unat_of_nat len_num0 len_bit0) simp
    moreover have "unat (word_of_nat (0xDC00 + d mod 0x400) :: u16) = 0xDC00 + d mod 0x400"
      using mod_less_divisor [of "0x400" d] by (simp only: unat_of_nat len_num0 len_bit0) simp
    moreover have "d div 0x400 * 0x400 + d mod 0x400 = d" by simp
    moreover have "encode_utf16_char c = [word_of_nat (0xD800 + d div 0x400), word_of_nat (0xDC00 + d mod 0x400)]"
      using False by (simp add: encode_utf16_char_def d_def)
    ultimately show ?thesis using IH q by (simp add: d(2))
  qed
qed simp

lemma le_units_bytes: "le_units (concat (map (to_le 2) us)) = us"
proof (induction us)
  case (Cons u us)
  have "to_le 2 u = [to_le 2 u ! 0, to_le 2 u ! 1]" by (simp add: to_le_def numeral_2_eq_2)
  with Cons from_le_to_le_16 [of u] show ?case by (metis le_units.simps(1) append_Cons append_Nil concat.simps(2) list.simps(9))
qed simp

text \<open>The value of a \<open>$FILE_NAME\<close> attribute: the last-access time is the fourth of the four times.\<close>

definition file_name_value ::
  "u64 \<Rightarrow> i64 \<Rightarrow> i64 \<Rightarrow> i64 \<Rightarrow> i64 \<Rightarrow> byte list \<Rightarrow> byte \<Rightarrow> nat list \<Rightarrow> byte list" where
  "file_name_value reference created modified record_changed accessed sizes namespace cs =
    (let units = concat (map encode_utf16_char cs) in
     to_le 8 reference @ to_le 8 created @ to_le 8 modified @ to_le 8 record_changed @ to_le 8 accessed @ sizes
     @ [word_of_nat (length units), namespace] @ concat (map (to_le 2) units))"

lemma length_concat_to_le [simp]: "length (concat (map (to_le n) us)) = n * length us"
  by (induction us) auto

text \<open>
  C15. Parsing the value of a $FILE_NAME attribute returns the parent reference, the times, the namespace and
  the UTF-8 form of the UTF-16 name it was written with; what the parser reports as the access time is the
  record's change time, the third time field after creation.
\<close>

theorem parse_file_name_roundtrip:
  assumes "\<forall>c\<in>set cs. scalar_value c" "length (concat (map encode_utf16_char cs)) < 256" "length sizes = 24"
  shows "parse_file_name (file_name_value reference created modified record_changed accessed sizes namespace cs)
    = Inr \<lparr>fn_parent_reference = Some (reference AND 0x0000FFFFFFFFFFFF), fn_created = created, fn_modified = modified,
           fn_accessed = record_changed, fn_namespace = namespace, fn_name = string_of_chars cs\<rparr>"
proof -
  let ?units = "concat (map encode_utf16_char cs)"
  have n: "unat (word_of_nat (length ?units) :: byte) = length ?units"
    using assms(2) by (simp only: unat_of_nat len_num0 len_bit0) simp
  show ?thesis
    using assms(3)
    by (simp add: parse_file_name_def file_name_value_def Let_def le_slices_in_bounds index_byte_def nth_append
        slice_bytes_def n from_le_to_le_64 le_units_bytes decode_encode_utf16 [OF assms(1)] mult.commute)
qed

lemma unat_byte: "n < 256 \<Longrightarrow> unat (word_of_nat n :: byte) = n"
  by (simp only: unat_of_nat len_num0 len_bit0) simp

lemma cont_unat: "cont b \<longleftrightarrow> 0x80 \<le> unat b \<and> unat b \<le> 0xBF"
  by (simp add: cont_def word_le_nat_alt)

lemma cont_byte: "n < 64 \<Longrightarrow> cont (word_of_nat (0x80 + n))"
  using unat_byte [of "0x80 + n"] by (simp add: cont_unat)

lemmas byte_compare = word_le_nat_alt word_less_nat_alt word_unat_eq_iff

lemma utf8_valid_char:
  assumes "scalar_value c"
  shows "utf8_valid (utf8_bytes c @ bs) \<longleftrightarrow> utf8_valid bs"
proof -
  have m: "x mod 64 < 64" for x :: nat by simp
  note cb = cont_byte [OF m]
  consider "c < 0x80" | "0x80 \<le> c" "c < 0x800" | "0x800 \<le> c" "c < 0x10000" | "0x10000 \<le> c" "c < 0x110000"
    using assms unfolding scalar_value_def by linarith
  then show ?thesis
  proof cases
    case 1
    then show ?thesis using unat_byte [of c] by (simp add: utf8_bytes_def byte_compare)
  next
    case 2
    define b0 b1 :: byte where "b0 = word_of_nat (0xC0 + c div 64)" and "b1 = word_of_nat (0x80 + c mod 64)"
    have "2 \<le> c div 64" "c div 64 < 32" using 2 by auto
    then have "unat b0 = 0xC0 + c div 64" "2 \<le> c div 64" "c div 64 < 32" by (simp_all only: b0_def unat_byte)
    moreover have "cont b1" unfolding b1_def by (rule cb)
    moreover have "utf8_bytes c = [b0, b1]" using 2 by (simp only: utf8_bytes_def b0_def b1_def) simp
    ultimately show ?thesis by (simp add: byte_compare)
  next
    case 3
    define b0 b1 b2 :: byte where "b0 = word_of_nat (0xE0 + c div 4096)" and "b1 = word_of_nat (0x80 + c div 64 mod 64)"
      and "b2 = word_of_nat (0x80 + c mod 64)"
    have d: "c div 4096 < 16" using 3 by auto
    then have u0: "unat b0 = 0xE0 + c div 4096" by (simp only: b0_def unat_byte)
    have "0x80 + c div 64 mod 64 < 256" using m [of "c div 64"] by linarith
    then have u1: "unat b1 = 0x80 + c div 64 mod 64" by (simp only: b1_def unat_byte)
    have "c div 64 div 64 = c div 4096" by (simp add: div_mult2_eq [symmetric])
    then have split: "c div 64 = 64 * (c div 4096) + c div 64 mod 64" by (metis mult_div_mod_eq)
    have "32 \<le> c div 64 mod 64" if "c div 4096 = 0" using split that 3 by auto
    moreover have "c div 64 mod 64 \<le> 31" if "c div 4096 = 13"
    proof -
      have "c < 0xD800" using assms 3 that by (auto simp: scalar_value_def)
      then show ?thesis using split that by auto
    qed
    moreover have "cont b1" "cont b2" unfolding b1_def b2_def by (rule cb)+
    moreover have "utf8_bytes c = [b0, b1, b2]" using 3 by (simp only: utf8_bytes_def b0_def b1_def b2_def) simp
    ultimately show ?thesis using d by (simp add: byte_compare u0 u1)
  next
    case 4
    define b0 b1 b2 b3 :: byte where "b0 = word_of_nat (0xF0 + c div 262144)" and "b1 = word_of_nat (0x80 + c div 4096 mod 64)"
      and "b2 = word_of_nat (0x80 + c div 64 mod 64)" and "b3 = word_of_nat (0x80 + c mod 64)"
    have d: "c div 262144 < 5" using 4 by auto
    then have u0: "unat b0 = 0xF0 + c div 262144" by (simp only: b0_def unat_byte)
    have "0x80 + c div 4096 mod 64 < 256" using m [of "c div 4096"] by linarith
    then have u1: "unat b1 = 0x80 + c div 4096 mod 64" by (simp only: b1_def unat_byte)
    have "c div 4096 div 64 = c div 262144" by (simp add: div_mult2_eq [symmetric])
    then have split: "c div 4096 = 64 * (c div 262144) + c div 4096 mod 64" by (metis mult_div_mod_eq)
    have "16 \<le> c div 4096 mod 64" if "c div 262144 = 0" using split that 4 by auto
    moreover have "c div 4096 mod 64 \<le> 15" if "c div 262144 = 4" using split that 4 by auto
    moreover have "cont b1" "cont b2" "cont b3" unfolding b1_def b2_def b3_def by (rule cb)+
    moreover have "utf8_bytes c = [b0, b1, b2, b3]" using 4 by (simp only: utf8_bytes_def b0_def b1_def b2_def b3_def) simp
    ultimately show ?thesis using d by (simp add: byte_compare u0 u1)
  qed
qed

lemma is_str_string_of_chars: "\<forall>c\<in>set cs. scalar_value c \<Longrightarrow> is_str (string_of_chars cs)"
proof -
  assume "\<forall>c\<in>set cs. scalar_value c"
  then have "utf8_valid (concat (map utf8_bytes cs))"
    by (induction cs) (auto simp: utf8_valid_char)
  then show ?thesis by (simp add: is_str_def string_of_chars_def)
qed

lemma decode_utf16_scalar: "decode_utf16 us = Some cs \<Longrightarrow> \<forall>c\<in>set cs. scalar_value c"
proof (induction us arbitrary: cs rule: decode_utf16.induct)
  case (2 u us)
  have u: "unat u < 0x10000" using unat_less_power [of u] by simp
  show ?case
  proof (cases "unat u < 0xD800 \<or> unat u > 0xDFFF")
    case True
    then obtain cs' where "decode_utf16 us = Some cs'" "cs = unat u # cs'" using "2.prems" by auto
    with "2.IH"(1) [OF True] True u show ?thesis by (auto simp: scalar_value_def)
  next
    case False
    then obtain v vs cs' where v: "us = v # vs" "\<not> (unat v < 0xDC00 \<or> unat v > 0xDFFF)" "decode_utf16 vs = Some cs'"
      "\<not> unat u \<ge> 0xDC00" "cs = ((unat u - 0xD800) * 0x400 + (unat v - 0xDC00) + 0x10000) # cs'"
      using "2.prems" by (auto split: if_splits list.splits)
    then have "(unat u - 0xD800) * 0x400 + (unat v - 0xDC00) + 0x10000 < 0x110000" using False by auto
    with "2.IH"(2) [OF False v(4) v(1,2)] v(3,5) show ?thesis by (auto simp: scalar_value_def)
  qed
qed simp


section \<open>The type of the results\<close>

definition name_ok :: "file_name_attribute \<Rightarrow> bool" where
  "name_ok a \<longleftrightarrow> is_str (fn_name a) \<and> (case fn_parent_reference a of Some p \<Rightarrow> unat p < 2 ^ 48 | None \<Rightarrow> False)"

lemma mask48: "unat (w AND 0x0000FFFFFFFFFFFF) < 2 ^ 48" for w :: u64
proof -
  have "w AND 0x0000FFFFFFFFFFFF = take_bit 48 w" by (simp add: take_bit_eq_mask mask_eq_exp_minus_1)
  then have "unat (w AND 0x0000FFFFFFFFFFFF) = take_bit 48 (unat w)" by (simp only: unsigned_take_bit_eq)
  then show ?thesis by (simp only: take_bit_nat_less_exp)
qed

lemma parse_file_name_ok: "parse_file_name bytes = Inr a \<Longrightarrow> name_ok a"
  using mask48
  by (auto simp: parse_file_name_def rbind_eq_Inr Let_def name_ok_def is_str_string_of_chars decode_utf16_scalar
      split: if_splits option.splits)

definition scan_ok :: "record_scan \<Rightarrow> bool" where
  "scan_ok st \<longleftrightarrow> (case rs_file_name st of Some a \<Rightarrow> name_ok a | None \<Rightarrow> True)"

lemma take_name_ok: "take_name (parse_file_name bytes) st = Inr (Some st') \<Longrightarrow> scan_ok st \<Longrightarrow> scan_ok st'"
  using parse_file_name_ok [of bytes]
  by (cases "(parse_file_name bytes, st)" rule: take_name.cases)
    (auto simp: Let_def scan_ok_def split: if_splits option.splits)

lemma scan_attribute_ok:
  "scan_attribute bs t cursor nr nl st = Inr (Some st') \<Longrightarrow> scan_ok st \<Longrightarrow> scan_ok st'"
  by (auto simp: scan_attribute_def rbind_eq_Inr Let_def split: if_splits dest: take_name_ok) (auto simp: scan_ok_def)

lemma scan_attributes_ok:
  "scan_attributes bs base_record is_dir cursor st = Inr (Some st') \<Longrightarrow> scan_ok st \<Longrightarrow> scan_ok st'"
proof (induction "length bs - cursor" arbitrary: cursor st rule: less_induct)
  case less
  show ?case
  proof (cases "cursor + 8 \<le> length bs")
    case True
    obtain t n where tn: "le_u32 bs cursor = Inr t" "le_u32 bs (cursor + 4) = Inr n"
      using True by (simp add: le_slices_in_bounds)
    show ?thesis
    proof (cases "t = - 1 \<or> n = 0 \<or> cursor + unat n > length bs")
      case True
      then have "st' = st" using less.prems(1) tn by (subst (asm) scan_attributes.simps) (auto simp: Let_def split: if_splits)
      then show ?thesis using less.prems by simp
    next
      case False
      let ?go = "\<lambda>r. case r of None \<Rightarrow> Inr None | Some st \<Rightarrow> if scan_done base_record is_dir st then Inr (Some st)
        else scan_attributes bs base_record is_dir (cursor + unat n) st"
      have "rbind (index_byte bs (cursor + 8)) (\<lambda>nr. rbind (index_byte bs (cursor + 9)) (\<lambda>nl.
          rbind (scan_attribute bs t cursor nr nl st) ?go)) = Inr (Some st')"
        using less.prems(1) tn True False unat_eq_0 [of n] by (subst (asm) scan_attributes.simps) (simp add: Let_def)
      then obtain nr nl r where r: "scan_attribute bs t cursor nr nl st = Inr r" "?go r = Inr (Some st')"
        unfolding rbind_eq_Inr by blast
      then obtain st1 where st1: "r = Some st1" by (cases r) auto
      have "scan_ok st1" using scan_attribute_ok [of bs t cursor nr nl st st1] r(1) less.prems(2) st1 by simp
      moreover have "length bs - (cursor + unat n) < length bs - cursor" using True False by (simp add: unat_gt_0 diff_less_mono2)
      ultimately show ?thesis using less.hyps [of "cursor + unat n" st1] r(2) st1 by (auto split: if_splits)
    qed
  next
    case False
    then show ?thesis using less.prems by (subst (asm) scan_attributes.simps) simp
  qed
qed

text \<open>
  C22. What the parser returns is well formed: names are UTF-8, ids fit 32 bits and parent references 48, the
  attributes match the directory flag, and extension records name a base record and carry a size.
\<close>

theorem parse_record_well_typed:
  assumes "parse_record bs = Inr r"
  shows "case r of NoRecord \<Rightarrow> True
    | EntryRecord e \<Rightarrow> is_str (e_name e) \<and> unat (e_file_id e) < 2 ^ 32
        \<and> (case e_parent_directory_id e of Some p \<Rightarrow> unat p < 2 ^ 48 | None \<Rightarrow> False)
        \<and> e_attributes e = (if e_is_directory e then DIRECTORY else ARCHIVE)
    | ExtensionRecord x \<Rightarrow> x_base_record x \<noteq> 0 \<and> unat (x_base_record x) < 2 ^ 48
        \<and> (x_size_bytes x \<noteq> 0 \<or> x_allocation_bytes x \<noteq> 0)"
proof -
  have start: "scan_ok record_scan_start" by (simp add: scan_ok_def record_scan_start_def)
  have idx: "unat (ucast (w :: u32) :: u64) < 2 ^ 32" for w
    using unat_less_power [of w] by (simp add: unsigned_ucast_eq take_bit_nat_eq_self)
  have res: "case record_result (ucast file_index) (base AND 0x0000FFFFFFFFFFFF) is_dir st of NoRecord \<Rightarrow> True
    | EntryRecord e \<Rightarrow> is_str (e_name e) \<and> unat (e_file_id e) < 2 ^ 32
        \<and> (case e_parent_directory_id e of Some p \<Rightarrow> unat p < 2 ^ 48 | None \<Rightarrow> False)
        \<and> e_attributes e = (if e_is_directory e then DIRECTORY else ARCHIVE)
    | ExtensionRecord x \<Rightarrow> x_base_record x \<noteq> 0 \<and> unat (x_base_record x) < 2 ^ 48
        \<and> (x_size_bytes x \<noteq> 0 \<or> x_allocation_bytes x \<noteq> 0)"
    if "scan_ok st" for file_index :: u32 and base is_dir st
    using that mask48 [of base] idx [of file_index]
    by (auto simp: record_result_def scan_ok_def name_ok_def split: option.splits)
  show ?thesis
  proof (cases "r = NoRecord")
    case False
    with assms obtain file_index base is_dir first st where
      "scan_attributes bs (base AND 0x0000FFFFFFFFFFFF) is_dir first record_scan_start = Inr (Some st)"
      "r = record_result (ucast (file_index :: u32)) (base AND 0x0000FFFFFFFFFFFF) is_dir st"
      by (auto simp: parse_record_def rbind_eq_Inr Let_def split: if_splits option.splits)
    with res [OF scan_attributes_ok [OF _ start]] show ?thesis by blast
  qed simp
qed


text \<open>A file record with one attribute, the Win32 name \<open>a\<close> below the root, and its parse.\<close>

definition named_record :: "byte list" where
  "named_record = FILE_RECORD_SIGNATURE @ [48, 0, 2, 0] @ replicate 12 0 @ [56, 0, 1, 0] @ replicate 20 0 @ [42, 0, 0, 0] @ replicate 8 0
     @ [0x30, 0, 0, 0, 96, 0, 0, 0, 0, 0] @ replicate 6 0 @ [68, 0, 0, 0, 24, 0, 0, 0]
     @ file_name_value 5 1 2 3 4 (replicate 24 0) 1 [97] @ replicate 4 0 @ [0xFF, 0xFF, 0xFF, 0xFF] @ replicate 868 0"

definition named_entry :: parsed_entry where
  "named_entry = \<lparr>e_file_id = 42, e_parent_directory_id = Some 5, e_name = ''a'', e_is_directory = False,
     e_has_attribute_list = False, e_size_bytes = 0, e_allocation_bytes = 0, e_attributes = ARCHIVE,
     e_created_utc = Some 1, e_modified_utc = Some 2, e_accessed_utc = Some 3\<rparr>"

lemma length_named_record: "length named_record = 1024"
  by (simp add: named_record_def file_name_value_def FILE_RECORD_SIGNATURE_def encode_utf16_char_def Let_def)

lemma named_record_reads:
  "take 4 named_record = FILE_RECORD_SIGNATURE"
  "named_record ! 20 = 56" "named_record ! 21 = 0" "named_record ! 22 = 1" "named_record ! 23 = 0"
  "take 4 (drop 44 named_record) = [42, 0, 0, 0]" "take 8 (drop 32 named_record) = [0, 0, 0, 0, 0, 0, 0, 0]"
  by (simp_all add: named_record_def FILE_RECORD_SIGNATURE_def nth_append numeral_eq_Suc)

lemma named_record_attribute:
  "take 4 (drop 56 named_record) = [0x30, 0, 0, 0]" "take 4 (drop 60 named_record) = [96, 0, 0, 0]"
  "named_record ! 64 = 0" "named_record ! 65 = 0" "take 2 (drop 76 named_record) = [24, 0]"
  "take 4 (drop 72 named_record) = [68, 0, 0, 0]"
  "take 68 (drop 80 named_record) = file_name_value 5 1 2 3 4 (replicate 24 0) 1 [97]"
  "take 4 (drop 152 named_record) = [0xFF, 0xFF, 0xFF, 0xFF]"
  by (simp_all add: named_record_def file_name_value_def FILE_RECORD_SIGNATURE_def encode_utf16_char_def Let_def nth_append)

lemma of_bytes_a: "of_bytes [97] = ''a''"
  by code_simp

lemma parse_file_name_roundtrip_witness:
  "parse_file_name (file_name_value 5 1 2 3 4 (replicate 24 0) 1 [97])
   = Inr \<lparr>fn_parent_reference = Some 5, fn_created = 1, fn_modified = 2, fn_accessed = 3, fn_namespace = 1, fn_name = ''a''\<rparr>"
  using parse_file_name_roundtrip [of "[97]" "replicate 24 0" 5 1 2 3 4 1]
  by (simp add: scalar_value_def encode_utf16_char_def string_of_chars_def utf8_bytes_def of_bytes_a)

lemma named_file_name:
  "parse_file_name (file_name_value 5 1 2 3 4 (replicate 24 0) 1 [97])
   = Inr \<lparr>fn_parent_reference = Some 5, fn_created = 1, fn_modified = 2, fn_accessed = 3, fn_namespace = 1, fn_name = ''a''\<rparr>"
  by (simp add: parse_file_name_def file_name_value_def Let_def le_slices_in_bounds index_byte_def nth_append
        slice_bytes_def encode_utf16_char_def from_le_to_le_64 le_units_bytes [of "[97]", simplified] string_of_chars_def utf8_bytes_def of_bytes_a)

lemma parse_named_record: "parse_record named_record = Inr (EntryRecord named_entry)"
proof -
  have "scan_attributes named_record 0 False 152 st = Inr (Some st)" for st
    by (subst scan_attributes.simps)
      (simp add: le_slices_in_bounds length_named_record named_record_attribute from_le_def)
  then have "scan_attributes named_record 0 False 56 record_scan_start = Inr (Some \<lparr>rs_file_name = Some \<lparr>fn_parent_reference = Some 5,
      fn_created = 1, fn_modified = 2, fn_accessed = 3, fn_namespace = 1, fn_name = ''a''\<rparr>,
      rs_allocation_bytes = 0, rs_size_bytes = 0, rs_has_attribute_list = False\<rparr>)"
    by (subst scan_attributes.simps)
      (simp add: le_slices_in_bounds length_named_record named_record_attribute from_le_def index_byte_def scan_attribute_def
        ATTRIBUTE_LIST_def ATTRIBUTE_FILE_NAME_def try_u16_def try_u32_def try_read_def slice_bytes_def named_file_name
        scan_done_def record_scan_start_def)
  then show ?thesis
    by (simp add: parse_record_def length_named_record NTFS_RECORD_SIZE_def named_record_reads le_slices_in_bounds
      le_u16_in_bounds from_le_def record_result_def named_entry_def)
qed

lemma parse_record_well_typed_witness:
  "is_str (e_name named_entry) \<and> e_attributes named_entry = ARCHIVE"
  using parse_record_well_typed [OF parse_named_record] by (simp add: named_entry_def)

lemma parse_record_panic_free_witness: "parse_record named_record \<noteq> Inl Panicked"
proof (rule parse_record_panic_free)
  fix c
  have tail: "drop 156 named_record = replicate 868 0"
    by (simp add: named_record_def file_name_value_def FILE_RECORD_SIGNATURE_def encode_utf16_char_def Let_def)
  have "take 4 (drop (c + 4) named_record) = replicate 4 0" if "c = 1015 \<or> c = 1016"
    using that arg_cong [OF tail, of "drop 863"] arg_cong [OF tail, of "drop 864"] by auto
  then have "c = 1015 \<or> c = 1016 \<Longrightarrow> le_u32 named_record (c + 4) = Inr 0"
    by (auto simp: le_slices_in_bounds length_named_record from_le_def eval_nat_numeral)
  then show "\<not> short_attribute named_record c"
    by (cases "c = 1015 \<or> c = 1016") (auto simp: short_attribute_def length_named_record le_slices_in_bounds from_le_def)
qed
end
