(* ===== verification/Aggregation.thy ===== *)
theory Aggregation
  imports Core_Model
begin

text \<open>
  Rollups of \<open>aggregate_directory_records\<close> (\<open>model.rs\<close>). The two \<open>while let\<close> loops walk the parent
  links of the supplied records; nothing in the code bounds the walk, so the loops are partial
  functions and \<open>None\<close> means that the loop does not return. A terminating walk visits the
  \<open>chain\<close> of its start; the loops return exactly when the chain exists, and then the totals are
  saturating sums over the entries whose chain contains the directory.
\<close>

record directory_aggregation =
  a_direct_bytes :: u64
  a_total_bytes :: u64
  a_direct_entries :: u64
  a_total_entries :: u64

definition aggregation_default :: directory_aggregation where
  "aggregation_default =
    \<lparr>a_direct_bytes = 0, a_total_bytes = 0, a_direct_entries = 0, a_total_entries = 0\<rparr>"

type_synonym parent_map = "u64 \<rightharpoonup> u64 option"
type_synonym aggregates = "u64 \<rightharpoonup> directory_aggregation"

definition next_parent :: "parent_map \<Rightarrow> u64 \<Rightarrow> u64 option" where
  "next_parent pm current = Option.bind (pm current) (\<lambda>value. value)"

definition bump_directory_entry :: "bool \<Rightarrow> directory_aggregation \<Rightarrow> directory_aggregation" where
  "bump_directory_entry is_direct_entry a =
    (let a = (if is_direct_entry then a\<lparr>a_direct_entries := sat_add (a_direct_entries a) 1\<rparr> else a)
     in a\<lparr>a_total_entries := sat_add (a_total_entries a) 1\<rparr>)"

definition bump_file_entry :: "bool \<Rightarrow> u64 \<Rightarrow> u64 \<Rightarrow> directory_aggregation \<Rightarrow> directory_aggregation" where
  "bump_file_entry is_direct_entry size_bytes allocation_bytes a =
    (let a = (if is_direct_entry
              then a\<lparr>a_direct_bytes := sat_add (a_direct_bytes a) size_bytes,
                     a_direct_entries := sat_add (a_direct_entries a) 1\<rparr> else a)
     in a\<lparr>a_total_entries := sat_add (a_total_entries a) 1,
          a_total_bytes := sat_add (a_total_bytes a) allocation_bytes\<rparr>)"

text \<open>
  The body of both \<open>while let\<close> loops: bump the aggregate of the current directory, then move to its
  parent. \<open>bump\<close> is what the loop does to one aggregate, told whether it is the first.
\<close>

partial_function (option) ancestor_loop ::
  "(bool \<Rightarrow> directory_aggregation \<Rightarrow> directory_aggregation) \<Rightarrow> parent_map \<Rightarrow> bool \<Rightarrow> u64 \<Rightarrow> aggregates
    \<Rightarrow> aggregates option" where
  "ancestor_loop bump pm is_direct_entry current aggregates =
    (case aggregates current of
       None \<Rightarrow> Some aggregates
     | Some aggregate \<Rightarrow>
        (case next_parent pm current of
           Some parent \<Rightarrow>
             ancestor_loop bump pm False parent (aggregates(current \<mapsto> bump is_direct_entry aggregate))
         | None \<Rightarrow> Some (aggregates(current \<mapsto> bump is_direct_entry aggregate))))"

definition increment_directory_entry_aggregation ::
  "aggregates \<Rightarrow> parent_map \<Rightarrow> u64 \<Rightarrow> aggregates option" where
  "increment_directory_entry_aggregation aggregates pm current =
    ancestor_loop bump_directory_entry pm True current aggregates"

definition increment_file_aggregation ::
  "aggregates \<Rightarrow> parent_map \<Rightarrow> u64 \<Rightarrow> u64 \<Rightarrow> u64 \<Rightarrow> aggregates option" where
  "increment_file_aggregation aggregates pm current size_bytes allocation_bytes =
    ancestor_loop (\<lambda>direct. bump_file_entry direct size_bytes allocation_bytes) pm True current aggregates"

fun fold_option :: "('x \<Rightarrow> 's \<Rightarrow> 's option) \<Rightarrow> 'x list \<Rightarrow> 's \<Rightarrow> 's option" where
  "fold_option f [] s = Some s"
| "fold_option f (x # xs) s = (case f x s of None \<Rightarrow> None | Some s' \<Rightarrow> fold_option f xs s')"

definition parent_map_of :: "directory_record list \<Rightarrow> parent_map" where
  "parent_map_of directories = map_option d_parent_directory_id \<circ> index_by d_id directories"

definition initial_aggregates :: "directory_record list \<Rightarrow> aggregates" where
  "initial_aggregates directories = map_option (\<lambda>_. aggregation_default) \<circ> index_by d_id directories"

definition store_aggregate :: "aggregates \<Rightarrow> directory_record \<Rightarrow> directory_record" where
  "store_aggregate aggregates directory =
    (case aggregates (d_id directory) of
       Some aggregate \<Rightarrow> directory\<lparr>d_direct_bytes := a_direct_bytes aggregate,
         d_total_bytes := a_total_bytes aggregate,
         d_direct_entries := a_direct_entries aggregate,
         d_total_entries := a_total_entries aggregate\<rparr>
     | None \<Rightarrow> directory)"

definition aggregate_directory_records ::
  "directory_record list \<Rightarrow> file_record list \<Rightarrow> directory_record list option" where
  "aggregate_directory_records directories files =
    (let pm = parent_map_of directories;
         aggregates = initial_aggregates directories
     in Option.bind
          (fold_option (\<lambda>directory aggregates.
              case d_parent_directory_id directory of
                Some parent \<Rightarrow> increment_directory_entry_aggregation aggregates pm parent
              | None \<Rightarrow> Some aggregates) directories aggregates)
          (\<lambda>aggregates. Option.bind
            (fold_option (\<lambda>file aggregates. increment_file_aggregation aggregates pm
               (f_parent_directory_id file) (f_size_bytes file) (f_allocation_bytes file)) files aggregates)
            (\<lambda>aggregates. Some (map (store_aggregate aggregates) directories))))"

section \<open>Ancestor chains\<close>

text \<open>\<open>chain pm c ps\<close>: the walk from \<open>c\<close> visits the known directories \<open>ps\<close> and stops, at an
  unknown directory or at one without a parent.\<close>

inductive chain :: "parent_map \<Rightarrow> u64 \<Rightarrow> u64 list \<Rightarrow> bool" for pm where
  unknown: "pm c = None \<Longrightarrow> chain pm c []"
| top: "pm c = Some None \<Longrightarrow> chain pm c [c]"
| up: "pm c = Some (Some p) \<Longrightarrow> chain pm p ps \<Longrightarrow> chain pm c (c # ps)"

inductive_cases chain_NilE: "chain pm c []"
inductive_cases chain_ConsE: "chain pm c (x # xs)"
inductive_simps chain_Nil_iff: "chain pm c []"
inductive_simps chain_Cons_iff: "chain pm c (x # xs)"

lemma chain_deterministic: "chain pm c ps \<Longrightarrow> chain pm c qs \<Longrightarrow> ps = qs"
proof (induction arbitrary: qs rule: chain.induct)
  case (up c p ps)
  from up.prems up.hyps(1) obtain qs' where "qs = c # qs'" "chain pm p qs'"
    by (auto elim: chain.cases)
  with up.IH show ?case by simp
qed (auto elim: chain.cases)

lemma chain_known: "chain pm c ps \<Longrightarrow> x \<in> set ps \<Longrightarrow> x \<in> dom pm"
  by (induction rule: chain.induct) auto

lemma chain_suffix: "chain pm c ps \<Longrightarrow> x \<in> set ps \<Longrightarrow> \<exists>qs. chain pm x qs \<and> length qs \<le> length ps"
proof (induction rule: chain.induct)
  case (up c p ps)
  show ?case
  proof (cases "x = c")
    case True
    with chain.up [OF up.hyps(1,2)] show ?thesis by auto
  next
    case False
    with up show ?thesis by fastforce
  qed
qed (auto intro: chain.top)

lemma chain_up_notin:
  assumes "pm c = Some (Some p)" "chain pm p ps" shows "c \<notin> set ps"
proof
  assume "c \<in> set ps"
  with assms(2) obtain qs where qs: "chain pm c qs" "length qs \<le> length ps"
    using chain_suffix by blast
  from chain_deterministic [OF qs(1) chain.up [OF assms]] qs(2) show False by simp
qed

text \<open>\<open>x\<close> is the start or an ancestor of the start \<open>c\<close>.\<close>

definition in_chain :: "parent_map \<Rightarrow> u64 \<Rightarrow> u64 \<Rightarrow> bool" where
  "in_chain pm x c \<longleftrightarrow> (\<exists>ps. chain pm c ps \<and> x \<in> set ps)"

lemma in_chain_iff: "chain pm c ps \<Longrightarrow> in_chain pm x c \<longleftrightarrow> x \<in> set ps"
  by (auto simp: in_chain_def dest: chain_deterministic)

section \<open>The loops\<close>

text \<open>Both loops apply a bump to every directory of the chain, directly to its first element.\<close>

definition bump_chain :: "(bool \<Rightarrow> 'a \<Rightarrow> 'a) \<Rightarrow> bool \<Rightarrow> u64 \<Rightarrow> u64 list \<Rightarrow> (u64 \<rightharpoonup> 'a) \<Rightarrow> (u64 \<rightharpoonup> 'a)" where
  "bump_chain bump direct c ps ag =
    (\<lambda>x. if x \<in> set ps then map_option (bump (direct \<and> x = c)) (ag x) else ag x)"

lemma next_parent_simps [simp]:
  "pm c = None \<Longrightarrow> next_parent pm c = None"
  "pm c = Some p \<Longrightarrow> next_parent pm c = p"
  by (simp_all add: next_parent_def)

lemma bump_chain_up:
  assumes "c \<notin> set ps" "ag c = Some a"
  shows "bump_chain bump False p ps (ag(c \<mapsto> bump direct a)) = bump_chain bump direct c (c # ps) ag"
  using assms by (auto simp: bump_chain_def fun_eq_iff)

lemma dom_upd_known: "ag c = Some a \<Longrightarrow> dom (ag(c \<mapsto> b)) = dom ag"
  by auto

lemma ancestor_loop_chain:
  "chain pm c ps \<Longrightarrow> dom ag = dom pm \<Longrightarrow>
    ancestor_loop bump pm direct c ag = Some (bump_chain bump direct c ps ag)"
proof (induction arbitrary: direct ag rule: chain.induct)
  case (unknown c)
  then have "ag c = None" by (metis domIff)
  then show ?case by (subst ancestor_loop.simps) (simp add: bump_chain_def)
next
  case (top c)
  then obtain a where "ag c = Some a" by (metis domD domI)
  with top show ?case
    by (subst ancestor_loop.simps) (auto simp: bump_chain_def fun_eq_iff)
next
  case (up c p ps)
  then obtain a where a: "ag c = Some a" by (metis domD domI)
  have "ancestor_loop bump pm False p (ag(c \<mapsto> bump direct a)) =
      Some (bump_chain bump False p ps (ag(c \<mapsto> bump direct a)))"
    by (rule up.IH) (simp only: dom_upd_known [of ag c a, OF a] up.prems)
  with a up.hyps chain_up_notin [OF up.hyps] show ?case
    by (subst ancestor_loop.simps) (simp add: bump_chain_up)
qed

text \<open>Conversely, a loop that returns has walked a chain.\<close>

lemma ancestor_loop_returns:
  assumes "ancestor_loop bump pm direct c ag = Some r" and "dom ag = dom pm"
  shows "\<exists>ps. chain pm c ps"
proof -
  have "dom ag = dom pm \<longrightarrow> (\<exists>ps. chain pm c ps)"
  proof (rule ancestor_loop.raw_induct
      [where P = "\<lambda>bump pm direct c ag r. dom ag = dom pm \<longrightarrow> (\<exists>ps. chain pm c ps)", OF _ assms(1)], rule impI)
    fix f bump pm direct c ag and r :: aggregates
    assume IH: "\<And>bump pm direct c ag r. f bump pm direct c ag = Some r \<Longrightarrow>
        dom ag = dom pm \<longrightarrow> (\<exists>ps. chain pm c ps)"
      and eq: "(case ag c of None \<Rightarrow> Some ag
        | Some a \<Rightarrow> (case next_parent pm c of None \<Rightarrow> Some (ag(c \<mapsto> bump direct a))
            | Some p \<Rightarrow> f bump pm False p (ag(c \<mapsto> bump direct a)))) = Some r"
      and d: "dom ag = dom pm"
    show "\<exists>ps. chain pm c ps"
    proof (cases "pm c")
      case (Some q)
      with d obtain a where a: "ag c = Some a" by (metis domD domI)
      show ?thesis
      proof (cases q)
        case q: (Some p)
        with Some a eq have "f bump pm False p (ag(c \<mapsto> bump direct a)) = Some r" by simp
        from IH [OF this] have "\<exists>ps. chain pm p ps" by (simp only: dom_upd_known [of ag c a, OF a] d)
        with Some q show ?thesis by (blast intro: chain.up)
      qed (use Some in \<open>blast intro: chain.top\<close>)
    qed (blast intro: chain.unknown)
  qed
  with assms(2) show ?thesis by blast
qed

section \<open>The rollup of a record set\<close>

text \<open>What the totals are meant to be: saturating sums over the entries below a directory. Bytes
  below a directory are allocated bytes, the direct bytes are logical ones, as in the code.\<close>

definition ones :: "'a list \<Rightarrow> u64 list" where
  "ones xs = map (\<lambda>_. 1) xs"

definition parents_of :: "directory_record list \<Rightarrow> u64 list" where
  "parents_of ds = List.map_filter d_parent_directory_id ds"

definition rollup_spec :: "parent_map \<Rightarrow> directory_record list \<Rightarrow> file_record list \<Rightarrow> u64 \<Rightarrow> directory_aggregation" where
  "rollup_spec pm ds fs x =
    \<lparr>a_direct_bytes = sat_sum (map f_size_bytes (filter (\<lambda>f. f_parent_directory_id f = x) fs)),
     a_total_bytes = sat_sum (map f_allocation_bytes (filter (\<lambda>f. in_chain pm x (f_parent_directory_id f)) fs)),
     a_direct_entries = sat_sum (ones (filter (\<lambda>p. p = x) (parents_of ds))
        @ ones (filter (\<lambda>f. f_parent_directory_id f = x) fs)),
     a_total_entries = sat_sum (ones (filter (in_chain pm x) (parents_of ds))
        @ ones (filter (\<lambda>f. in_chain pm x (f_parent_directory_id f)) fs))\<rparr>"

text \<open>Every walk the rollup needs comes to an end.\<close>

definition acyclic_for :: "directory_record list \<Rightarrow> file_record list \<Rightarrow> bool" where
  "acyclic_for ds fs \<longleftrightarrow> (let pm = parent_map_of ds in
     (\<forall>p\<in>set (parents_of ds). \<exists>ps. chain pm p ps) \<and>
     (\<forall>f\<in>set fs. \<exists>ps. chain pm (f_parent_directory_id f) ps))"

text \<open>The effect of one terminating walk on the aggregate of directory \<open>x\<close>.\<close>

definition walk_at :: "(bool \<Rightarrow> directory_aggregation \<Rightarrow> directory_aggregation) \<Rightarrow> parent_map \<Rightarrow> u64 \<Rightarrow> u64
    \<Rightarrow> directory_aggregation \<Rightarrow> directory_aggregation" where
  "walk_at bump pm x c a = (if in_chain pm x c then bump (x = c) a else a)"

lemma ancestor_loop_walk:
  assumes "chain pm c ps" and "dom ag = dom pm"
  shows "ancestor_loop bump pm True c ag = Some (\<lambda>x. map_option (walk_at bump pm x c) (ag x))"
proof -
  have "bump_chain bump True c ps ag = (\<lambda>x. map_option (walk_at bump pm x c) (ag x))"
    using in_chain_iff [OF assms(1)]
    by (auto simp: bump_chain_def walk_at_def fun_eq_iff option.map_ident option.map_id0 id_def
        cong: option.map_cong)
  with ancestor_loop_chain [OF assms] show ?thesis by simp
qed

text \<open>A fold of walks acts on every aggregate by itself.\<close>

lemma fold_option_walks:
  assumes "\<And>e ag. e \<in> set es \<Longrightarrow> dom ag = dom pm \<Longrightarrow>
    step e ag = Some (\<lambda>x. map_option (act e x) (ag x))" and "dom ag = dom pm"
  shows "fold_option step es ag = Some (\<lambda>x. map_option (\<lambda>a. foldl (\<lambda>a e. act e x a) a es) (ag x))"
  using assms
proof (induction es arbitrary: ag)
  case Nil
  then show ?case by (simp add: option.map_ident)
next
  case (Cons e es)
  let ?ag = "\<lambda>x. map_option (act e x) (ag x)"
  have "dom ?ag = dom pm" using Cons.prems(2) by (auto simp: dom_def)
  from Cons.IH [OF Cons.prems(1) this] Cons.prems show ?case
    by (simp add: option.map_comp comp_def)
qed

lemma foldl_walk_files:
  "foldl (\<lambda>a f. walk_at (\<lambda>d. bump_file_entry d (f_size_bytes f) (f_allocation_bytes f)) pm x (f_parent_directory_id f) a) a fs =
   \<lparr>a_direct_bytes = foldl sat_add (a_direct_bytes a)
      (map f_size_bytes (filter (\<lambda>f. in_chain pm x (f_parent_directory_id f) \<and> f_parent_directory_id f = x) fs)),
    a_total_bytes = foldl sat_add (a_total_bytes a)
      (map f_allocation_bytes (filter (\<lambda>f. in_chain pm x (f_parent_directory_id f)) fs)),
    a_direct_entries = foldl sat_add (a_direct_entries a)
      (ones (filter (\<lambda>f. in_chain pm x (f_parent_directory_id f) \<and> f_parent_directory_id f = x) fs)),
    a_total_entries = foldl sat_add (a_total_entries a)
      (ones (filter (\<lambda>f. in_chain pm x (f_parent_directory_id f)) fs))\<rparr>"
proof (induction fs arbitrary: a)
  case (Cons f fs)
  show ?case
    unfolding foldl.simps Cons.IH
    by (cases "in_chain pm x (f_parent_directory_id f)"; cases "f_parent_directory_id f = x")
      (simp_all add: walk_at_def bump_file_entry_def Let_def ones_def)
qed (simp add: ones_def)

lemma foldl_walk_directories:
  "foldl (\<lambda>a p. walk_at bump_directory_entry pm x p a) a ps =
   a\<lparr>a_direct_entries := foldl sat_add (a_direct_entries a) (ones (filter (\<lambda>p. in_chain pm x p \<and> p = x) ps)),
     a_total_entries := foldl sat_add (a_total_entries a) (ones (filter (in_chain pm x) ps))\<rparr>"
proof (induction ps arbitrary: a)
  case (Cons p ps)
  show ?case
    unfolding foldl.simps Cons.IH
    by (cases "in_chain pm x p"; cases "p = x")
      (simp_all add: walk_at_def bump_directory_entry_def Let_def ones_def)
qed (simp add: ones_def)

lemma fold_option_parents:
  "fold_option (\<lambda>d ag. case d_parent_directory_id d of Some p \<Rightarrow> step p ag | None \<Rightarrow> Some ag) ds ag
    = fold_option step (parents_of ds) ag"
  by (induction ds arbitrary: ag) (auto simp: parents_of_def List.map_filter_simps split: option.splits)

lemma dom_parent_map_of: "dom (parent_map_of ds) = d_id ` set ds"
  by (auto simp: parent_map_of_def dom_map_option_comp dom_index_by)

lemma dom_initial_aggregates: "dom (initial_aggregates ds) = dom (parent_map_of ds)"
  by (simp only: parent_map_of_def initial_aggregates_def dom_map_option_comp)

lemma in_chain_self: "\<exists>ps. chain pm x ps \<Longrightarrow> x \<in> dom pm \<Longrightarrow> in_chain pm x x"
proof (erule exE)
  fix ps assume "x \<in> dom pm" "chain pm x ps"
  from this(2,1) have "x \<in> set ps" by cases auto
  with \<open>chain pm x ps\<close> show ?thesis by (auto simp: in_chain_def)
qed

lemma sat_sum_append: "foldl sat_add (sat_sum xs) ys = sat_sum (xs @ ys)"
  by (simp add: sat_sum_def)

lemma aggregate_value:
  assumes "acyclic_for ds fs"
  shows "aggregate_directory_records ds fs =
    Some (map (store_aggregate (\<lambda>x. map_option (\<lambda>_. rollup_spec (parent_map_of ds) ds fs x) (initial_aggregates ds x))) ds)"
proof -
  let ?pm = "parent_map_of ds" and ?ag = "initial_aggregates ds"
  let ?ag1 = "\<lambda>x. map_option (\<lambda>a. foldl (\<lambda>a p. walk_at bump_directory_entry ?pm x p a) a (parents_of ds)) (?ag x)"
  have 1: "fold_option (\<lambda>p ag. increment_directory_entry_aggregation ag ?pm p) (parents_of ds) ?ag = Some ?ag1"
    by (rule fold_option_walks [where act = "\<lambda>p x. walk_at bump_directory_entry ?pm x p",
        OF _ dom_initial_aggregates])
      (use assms in \<open>auto simp: acyclic_for_def Let_def increment_directory_entry_aggregation_def
        ancestor_loop_walk\<close>)
  have "dom ?ag1 = dom ?ag" by (auto simp: dom_def)
  then have "dom ?ag1 = dom ?pm" by (simp only: dom_initial_aggregates)
  then have 2: "fold_option (\<lambda>f ag. increment_file_aggregation ag ?pm (f_parent_directory_id f)
       (f_size_bytes f) (f_allocation_bytes f)) fs ?ag1 =
     Some (\<lambda>x. map_option (\<lambda>a. foldl (\<lambda>a f. walk_at (\<lambda>d. bump_file_entry d (f_size_bytes f) (f_allocation_bytes f))
       ?pm x (f_parent_directory_id f) a) a fs) (?ag1 x))"
    by (intro fold_option_walks [where act = "\<lambda>f x. walk_at (\<lambda>d. bump_file_entry d (f_size_bytes f)
        (f_allocation_bytes f)) ?pm x (f_parent_directory_id f)"])
      (use assms in \<open>auto simp: acyclic_for_def Let_def increment_file_aggregation_def ancestor_loop_walk\<close>)
  have 3: "map_option (\<lambda>a. foldl (\<lambda>a f. walk_at (\<lambda>d. bump_file_entry d (f_size_bytes f) (f_allocation_bytes f))
       ?pm x (f_parent_directory_id f) a) a fs) (?ag1 x) = map_option (\<lambda>_. rollup_spec ?pm ds fs x) (?ag x)" for x
  proof (cases "x \<in> dom ?pm")
    case True
    have "filter (\<lambda>p. in_chain ?pm x p \<and> p = x) (parents_of ds) = filter (\<lambda>p. p = x) (parents_of ds)"
      "filter (\<lambda>f. in_chain ?pm x (f_parent_directory_id f) \<and> f_parent_directory_id f = x) fs
        = filter (\<lambda>f. f_parent_directory_id f = x) fs"
      using assms True by (auto intro!: filter_cong in_chain_self simp: acyclic_for_def Let_def)
    moreover from True obtain a where "?ag x = Some a" "a = aggregation_default"
      by (auto simp: dom_initial_aggregates [symmetric]) (auto simp: initial_aggregates_def)
    ultimately show ?thesis
      by (simp add: foldl_walk_files foldl_walk_directories aggregation_default_def rollup_spec_def
          sat_sum_def)
  qed (auto simp: dom_initial_aggregates [symmetric] domIff)
  show ?thesis
    by (simp add: aggregate_directory_records_def Let_def fold_option_parents 1 2 3)
qed

lemma walks_return_chains:
  assumes "fold_option (\<lambda>e ag. ancestor_loop (bump e) pm True (start e) ag) es ag = Some ag'"
    and "dom ag = dom pm"
  shows "(\<forall>e\<in>set es. \<exists>ps. chain pm (start e) ps) \<and> dom ag' = dom pm"
  using assms
proof (induction es arbitrary: ag)
  case (Cons e es)
  then obtain ag1 where s: "ancestor_loop (bump e) pm True (start e) ag = Some ag1"
    and r: "fold_option (\<lambda>e ag. ancestor_loop (bump e) pm True (start e) ag) es ag1 = Some ag'"
    by (auto split: option.splits)
  from ancestor_loop_returns [OF s Cons.prems(2)] obtain ps where ps: "chain pm (start e) ps" ..
  with s have "ag1 = (\<lambda>x. map_option (walk_at (bump e) pm x (start e)) (ag x))"
    by (simp add: ancestor_loop_walk [OF ps Cons.prems(2)])
  then have "dom ag1 = dom pm" using Cons.prems(2) by (auto simp: dom_def)
  from Cons.IH [OF r this] ps show ?case by auto
qed simp

lemma aggregate_returns_acyclic:
  assumes "aggregate_directory_records ds fs = Some out" shows "acyclic_for ds fs"
proof -
  let ?pm = "parent_map_of ds"
  obtain ag1 ag2 where 1: "fold_option (\<lambda>p ag. increment_directory_entry_aggregation ag ?pm p) (parents_of ds)
        (initial_aggregates ds) = Some ag1"
    and 2: "fold_option (\<lambda>f ag. increment_file_aggregation ag ?pm (f_parent_directory_id f) (f_size_bytes f)
        (f_allocation_bytes f)) fs ag1 = Some ag2"
    using assms by (auto simp: aggregate_directory_records_def Let_def fold_option_parents bind_eq_Some_conv)
  have "(\<forall>p\<in>set (parents_of ds). \<exists>ps. chain ?pm p ps) \<and> dom ag1 = dom ?pm"
    by (rule walks_return_chains [where start = "\<lambda>p. p" and bump = "\<lambda>_. bump_directory_entry",
        OF 1 [unfolded increment_directory_entry_aggregation_def] dom_initial_aggregates])
  moreover from this have "(\<forall>f\<in>set fs. \<exists>ps. chain ?pm (f_parent_directory_id f) ps) \<and> dom ag2 = dom ?pm"
    by (intro walks_return_chains [where start = f_parent_directory_id
        and bump = "\<lambda>f d. bump_file_entry d (f_size_bytes f) (f_allocation_bytes f)",
        OF 2 [unfolded increment_file_aggregation_def]]) simp
  ultimately show ?thesis by (auto simp: acyclic_for_def Let_def)
qed


text \<open>
  C5. aggregate_directory_records returns exactly when no walk along the parent links from a directory's
  parent or a file's directory meets a cycle, and then it returns every directory with the saturating sums of
  the sizes of its direct files, of the allocations of all files below it, and with the counts of its direct
  and of all its descendants; otherwise it loops forever.
\<close>

theorem aggregate_rolls_up_or_diverges:
  "aggregate_directory_records ds fs =
    (if acyclic_for ds fs
     then Some (map (store_aggregate
       (\<lambda>x. if x \<in> d_id ` set ds then Some (rollup_spec (parent_map_of ds) ds fs x) else None)) ds)
     else None)"
proof (cases "acyclic_for ds fs")
  case True
  have "map_option (\<lambda>_. rollup_spec (parent_map_of ds) ds fs x) (initial_aggregates ds x)
      = (if x \<in> d_id ` set ds then Some (rollup_spec (parent_map_of ds) ds fs x) else None)" for x
    by (cases "initial_aggregates ds x") (auto simp: domIff dest: domI
        simp flip: dom_parent_map_of [of ds] dom_initial_aggregates)
  with True show ?thesis by (simp add: aggregate_value)
next
  case False
  with aggregate_returns_acyclic [of ds fs] show ?thesis by (cases "aggregate_directory_records ds fs") auto
qed

text \<open>The reachable instance: one directory that is its own parent.\<close>

lemma self_parent_no_chain: "\<not> chain (parent_map_of [sample_directory 5 (Some 5) n p]) 5 ps"
proof
  assume c: "chain (parent_map_of [sample_directory 5 (Some 5) n p]) 5 ps"
  have pm: "parent_map_of [sample_directory 5 (Some 5) n p] 5 = Some (Some 5)"
    by (simp add: parent_map_of_def index_by_def sample_directory_def)
  from c pm obtain qs where "ps = 5 # qs" by (auto elim: chain.cases)
  then show False using chain_up_notin [OF pm c] by simp
qed

text \<open>
  A single directory record that is its own parent, as the NTFS root is in the file table, makes
  aggregate_directory_records loop forever, whatever the files are.
\<close>

theorem aggregate_diverges_on_self_parent:
  "aggregate_directory_records [sample_directory 5 (Some 5) name path] files = None"
  using aggregate_returns_acyclic [of "[sample_directory 5 (Some 5) name path]" files] self_parent_no_chain
  by (cases "aggregate_directory_records [sample_directory 5 (Some 5) name path] files")
    (auto simp: acyclic_for_def parents_of_def List.map_filter_simps Let_def sample_directory_def)

end
