(* ===== verification/Ntfs_Entries.thy ===== *)
theory Ntfs_Entries
  imports Ntfs_Records Record_Stores Aggregation
begin

text \<open>
  The batch parser of \<open>WinBlaze.Scanner/src/ntfs.rs\<close>: records of a file-table image to entries, in one
  thread or fanned out over workers, sizes of extension records folded into their base entries, directory
  paths resolved through the parents, and the enumeration built from them.
\<close>

section \<open>Records to entries\<close>

definition add_outcome :: "record_outcome \<Rightarrow> parsed_entry list \<times> extension_sizes list \<Rightarrow> parsed_entry list \<times> extension_sizes list" where
  "add_outcome outcome parsed = (case outcome of
     EntryRecord e \<Rightarrow> (e # fst parsed, snd parsed) | ExtensionRecord x \<Rightarrow> (fst parsed, x # snd parsed) | NoRecord \<Rightarrow> parsed)"

fun parse_range :: "byte list \<Rightarrow> nat list \<Rightarrow> ntfs_error + parsed_entry list \<times> extension_sizes list" where
  "parse_range shared [] = Inr ([], [])"
| "parse_range shared (index # rest) =
    rbind (slice_bytes shared (index * NTFS_RECORD_SIZE) (index * NTFS_RECORD_SIZE + NTFS_RECORD_SIZE)) (\<lambda>record.
    if take 4 record \<noteq> FILE_RECORD_SIGNATURE then parse_range shared rest
    else rbind (parse_record record) (\<lambda>outcome.
      rbind (parse_range shared rest) (\<lambda>parsed. Inr (add_outcome outcome parsed))))"

definition parse_record_range :: "byte list \<Rightarrow> nat \<Rightarrow> nat \<Rightarrow> ntfs_error + parsed_entry list \<times> extension_sizes list" where
  "parse_record_range shared start_record end_record = parse_range shared [start_record..<end_record]"

text \<open>
  The chunks handed to the workers, and the joining of their results in order. A worker's panic becomes an
  error; a panic in a worker that was not joined any more is raised again at the end of the thread scope.
\<close>

definition usize_div_ceil :: "nat \<Rightarrow> nat \<Rightarrow> nat" where
  "usize_div_ceil a b = (a + b - 1) div b"

fun worker_ranges :: "nat \<Rightarrow> nat \<Rightarrow> nat list \<Rightarrow> (nat \<times> nat) list" where
  "worker_ranges chunk_size record_count [] = []"
| "worker_ranges chunk_size record_count (worker_index # rest) =
    (if worker_index * chunk_size \<ge> record_count then []
     else (worker_index * chunk_size, min ((worker_index + 1) * chunk_size) record_count)
       # worker_ranges chunk_size record_count rest)"

fun join_workers ::
  "(ntfs_error + parsed_entry list \<times> extension_sizes list) list \<Rightarrow> ntfs_error + parsed_entry list \<times> extension_sizes list" where
  "join_workers [] = Inr ([], [])"
| "join_workers (Inl e # rest) =
    (if Inl Panicked \<in> set rest then Inl Panicked
     else Inl (if e = Panicked then InvalidRecord ''parallel parser worker panicked'' else e))"
| "join_workers (Inr (entries, extensions) # rest) =
    rbind (join_workers rest) (\<lambda>(more_entries, more_extensions). Inr (entries @ more_entries, extensions @ more_extensions))"

definition parse_batch :: "byte list \<Rightarrow> nat \<Rightarrow> nat \<Rightarrow> ntfs_error + parsed_entry list \<times> extension_sizes list" where
  "parse_batch batch record_count workers =
    (if workers \<le> 1 \<or> record_count < 2048 then parse_record_range batch 0 record_count
     else
       let chunk_size = usize_div_ceil record_count workers
       in join_workers (map (\<lambda>(a, b). parse_record_range batch a b) (worker_ranges chunk_size record_count [0..<workers])))"

text \<open>The streaming variant splits the buffer and fixes up every chunk before parsing it.\<close>

fun fixup_and_parse_chunks :: "byte list \<Rightarrow> nat \<Rightarrow> (nat \<times> nat) list \<Rightarrow> (ntfs_error + parsed_entry list \<times> extension_sizes list) list" where
  "fixup_and_parse_chunks remaining bytes_per_sector [] = []"
| "fixup_and_parse_chunks remaining bytes_per_sector ((a, b) # rest) =
    (let n = (b - a) * NTFS_RECORD_SIZE;
         chunk = apply_mft_fixups bytes_per_sector (take n remaining)
     in parse_record_range chunk 0 (b - a) # fixup_and_parse_chunks (drop n remaining) bytes_per_sector rest)"

definition fixup_and_parse_batch ::
  "byte list \<Rightarrow> nat \<Rightarrow> nat \<Rightarrow> nat \<Rightarrow> ntfs_error + parsed_entry list \<times> extension_sizes list" where
  "fixup_and_parse_batch batch record_count workers bytes_per_sector =
    (if workers \<le> 1 \<or> record_count < 2048
     then parse_record_range (apply_mft_fixups bytes_per_sector batch) 0 record_count
     else
       let chunk_size = usize_div_ceil record_count workers
       in if length batch < record_count * NTFS_RECORD_SIZE then Inl Panicked \<comment> \<open>\<open>split_at_mut\<close>\<close>
       else join_workers (fixup_and_parse_chunks batch bytes_per_sector (worker_ranges chunk_size record_count [0..<workers])))"

section \<open>Extension sizes\<close>

definition merge_sizes :: "extension_sizes \<Rightarrow> parsed_entry \<Rightarrow> parsed_entry" where
  "merge_sizes x e = e\<lparr>e_size_bytes := max (e_size_bytes e) (x_size_bytes x),
     e_allocation_bytes := max (e_allocation_bytes e) (x_allocation_bytes x)\<rparr>"

definition apply_extension_sizes :: "parsed_entry hash_map \<Rightarrow> extension_sizes list \<Rightarrow> parsed_entry hash_map" where
  "apply_extension_sizes entries extensions =
    foldl (\<lambda>entries x. case map_of entries (x_base_record x) of
        Some e \<Rightarrow> hm_insert (x_base_record x) (merge_sizes x e) entries | None \<Rightarrow> entries) entries extensions"

section \<open>Paths\<close>

definition ntfs_join_path :: "string \<Rightarrow> string \<Rightarrow> string" where
  "ntfs_join_path base child = (if ends_with_char base backslash then base @ child else base @ [backslash] @ child)"

function resolve_entry_path ::
  "u64 \<Rightarrow> parsed_entry hash_map \<Rightarrow> (u64 \<rightharpoonup> string) \<Rightarrow> string \<Rightarrow> u64 list \<Rightarrow> string \<times> (u64 \<rightharpoonup> string)" where
  "resolve_entry_path file_id entries resolved root_text stack =
    (case resolved file_id of
       Some path \<Rightarrow> (path, resolved)
     | None \<Rightarrow>
       if file_id \<in> set stack then (root_text, resolved)
       else
         (case map_of entries file_id of
            None \<Rightarrow> (root_text, resolved)
          | Some entry \<Rightarrow>
            (case e_parent_directory_id entry of
               None \<Rightarrow> (root_text, resolved(file_id \<mapsto> root_text))
             | Some parent_id \<Rightarrow>
                 if parent_id = file_id \<or> file_id = 5 then (root_text, resolved(file_id \<mapsto> root_text))
                 else if map_of entries parent_id = None \<and> parent_id \<noteq> 5 then (root_text, resolved)
                 else
                   let (parent_path, resolved) = resolve_entry_path parent_id entries resolved root_text (file_id # stack);
                       path = (if e_name entry = [] then parent_path else ntfs_join_path parent_path (e_name entry))
                   in (path, resolved(file_id \<mapsto> path)))))"
  by auto
termination
proof (relation "measure (\<lambda>(file_id, entries, resolved, root_text, stack). card (fst ` set entries - set stack))", simp)
  fix file_id :: u64 and entries :: "parsed_entry hash_map" and resolved :: "u64 \<rightharpoonup> string" and root_text stack entry parent_id
  assume "file_id \<notin> set stack" "map_of entries file_id = Some entry"
  then have "file_id \<in> fst ` set entries - set stack" by (metis DiffI dom_map_of_conv_image_fst domI)
  moreover have "fst ` set entries - set (file_id # stack) = (fst ` set entries - set stack) - {file_id}" by auto
  ultimately have "card (fst ` set entries - set (file_id # stack)) < card (fst ` set entries - set stack)"
    by (metis List.finite_set card_Diff1_less finite_Diff finite_imageI)
  then show "((parent_id, entries, resolved, root_text, file_id # stack), (file_id, entries, resolved, root_text, stack))
      \<in> measure (\<lambda>(file_id, entries, resolved, root_text, stack). card (fst ` set entries - set stack))"
    by simp
qed

declare resolve_entry_path.simps [simp del]

section \<open>The enumeration\<close>

definition ntfs_root_entry :: parsed_entry where
  "ntfs_root_entry = \<lparr>e_file_id = 5, e_parent_directory_id = None, e_name = [], e_is_directory = True,
     e_has_attribute_list = False, e_size_bytes = 0, e_allocation_bytes = 0, e_attributes = DIRECTORY,
     e_created_utc = None, e_modified_utc = None, e_accessed_utc = None\<rparr>"

definition ntfs_volume :: "string \<Rightarrow> volume_record" where
  "ntfs_volume root_text = \<lparr>v_id = 0, v_mount_point = root_text, v_label = None, v_file_system = Ntfs,
     v_total_bytes = 0, v_free_bytes = 0, v_root_directory_id = 5\<rparr>"

definition entry_directory :: "parsed_entry \<Rightarrow> string \<Rightarrow> directory_record" where
  "entry_directory e full_path = \<lparr>d_id = e_file_id e,
     d_parent_directory_id = (if e_file_id e = 5 then None else e_parent_directory_id e),
     d_name = e_name e, d_full_path = full_path, d_direct_bytes = 0, d_total_bytes = 0,
     d_direct_entries = 0, d_total_entries = 0\<rparr>"

definition entry_file :: "parsed_entry \<Rightarrow> file_record" where
  "entry_file e = \<lparr>f_id = e_file_id e,
     f_parent_directory_id = (case e_parent_directory_id e of Some p \<Rightarrow> p | None \<Rightarrow> 5),
     f_name = e_name e, f_full_path = [], f_size_bytes = e_size_bytes e, f_allocation_bytes = e_allocation_bytes e,
     f_attributes = e_attributes e,
     f_timestamps = timestamps_new (e_created_utc e) (e_modified_utc e) (e_accessed_utc e)\<rparr>"

text \<open>The loop over the ordered entries: directories, files and the events in order.\<close>

fun emit_entries ::
  "parsed_entry hash_map \<Rightarrow> string \<Rightarrow> parsed_entry list \<Rightarrow> (u64 \<rightharpoonup> string) \<Rightarrow>
   directory_record list \<times> file_record list \<times> scan_event list" where
  "emit_entries entries root_text [] resolved = ([], [], [])"
| "emit_entries entries root_text (e # rest) resolved =
    (if e_is_directory e then
       let (full_path, resolved) = resolve_entry_path (e_file_id e) entries resolved root_text [];
           directory = entry_directory e full_path;
           (directories, files, events) = emit_entries entries root_text rest resolved
       in (directory # directories, files, DirectoryFound directory # events)
     else
       let file = entry_file e; (directories, files, events) = emit_entries entries root_text rest resolved
       in (directories, file # files, FileFound file # events))"

record ntfs_enumeration =
  en_volume :: volume_record
  en_directories :: "directory_record list"
  en_files :: "file_record list"
  en_summary :: scan_summary

definition count_entries :: "parsed_entry hash_map \<Rightarrow> u64 \<times> u64" where
  "count_entries entries =
    foldl (\<lambda>(files, directories) e. if e_is_directory e then (files, directories + 1) else (files + 1, directories))
      (0, 0) (hm_values entries)"

definition sum_u64_saturating :: "u64 list \<Rightarrow> u64" where
  "sum_u64_saturating = foldl sat_add 0"

text \<open>\<open>None\<close> is an aggregation that does not return.\<close>

definition parse_entries :: "string \<Rightarrow> parsed_entry hash_map \<Rightarrow> (scan_event list \<times> ntfs_enumeration) option" where
  "parse_entries root_text entries =
    (let entries = (if map_of entries 5 = None then hm_insert 5 ntfs_root_entry entries else entries);
         ordered_entries = sort_key e_file_id (hm_values entries);
         (directories, files, events) = emit_entries entries root_text ordered_entries [5 \<mapsto> root_text];
         directories = sort_key d_id directories;
         files = sort_key f_id files
     in map_option (\<lambda>directories.
          let (files_seen, directories_seen) = count_entries entries
          in (VolumeDiscovered (ntfs_volume root_text) # events,
              \<lparr>en_volume = ntfs_volume root_text, en_directories = directories, en_files = files,
               en_summary = \<lparr>ss_files_seen = files_seen, ss_directories_seen = directories_seen,
                 ss_total_size_bytes = sum_u64_saturating (map f_size_bytes files),
                 ss_total_allocation_bytes = sum_u64_saturating (map f_allocation_bytes files)\<rparr>\<rparr>))
        (aggregate_directory_records directories files))"

section \<open>The two parsers\<close>

function sequential_records ::
  "byte list \<Rightarrow> parsed_entry hash_map \<times> extension_sizes list \<Rightarrow> ntfs_error + parsed_entry hash_map \<times> extension_sizes list" where
  "sequential_records bytes (entries, extensions) =
    (if bytes = [] then Inr (entries, extensions)
     else
       let record = take NTFS_RECORD_SIZE bytes; rest = drop NTFS_RECORD_SIZE bytes in
       if length record < NTFS_RECORD_SIZE \<or> take 4 record \<noteq> FILE_RECORD_SIGNATURE
       then sequential_records rest (entries, extensions)
       else rbind (parse_record record) (\<lambda>outcome. sequential_records rest (case outcome of
           EntryRecord e \<Rightarrow> (hm_insert (e_file_id e) e entries, extensions)
         | ExtensionRecord x \<Rightarrow> (entries, extensions @ [x])
         | NoRecord \<Rightarrow> (entries, extensions))))"
  by pat_completeness auto
termination by (relation "measure (length \<circ> fst)") (auto simp: NTFS_RECORD_SIZE_def)

declare sequential_records.simps [simp del]

definition parse_mft_records_sequential ::
  "string \<Rightarrow> byte list \<Rightarrow> ntfs_error + (scan_event list \<times> ntfs_enumeration) option" where
  "parse_mft_records_sequential root_text bytes =
    (if length bytes < NTFS_RECORD_SIZE then Inl (InvalidRecord ''MFT buffer too small'')
     else rbind (sequential_records bytes ([], [])) (\<lambda>(entries, extensions).
       Inr (parse_entries root_text (apply_extension_sizes entries extensions))))"

definition parse_mft_records_parallel ::
  "string \<Rightarrow> byte list \<Rightarrow> nat \<Rightarrow> ntfs_error + (scan_event list \<times> ntfs_enumeration) option" where
  "parse_mft_records_parallel root_text bytes worker_count =
    (let record_count = length bytes div NTFS_RECORD_SIZE; workers = max (min worker_count record_count) 1 in
     if worker_count \<le> 1 \<or> length bytes < NTFS_RECORD_SIZE * 2 \<or> record_count \<le> 1 \<or> workers \<le> 1
     then parse_mft_records_sequential root_text bytes
     else
       let chunk_size = usize_div_ceil record_count workers
       in rbind (join_workers (map (\<lambda>(a, b). parse_record_range bytes a b) (worker_ranges chunk_size record_count [0..<workers])))
            (\<lambda>(entries, extensions).
              let entries = foldl (\<lambda>m e. hm_insert (e_file_id e) e m) [] entries
              in Inr (parse_entries root_text (apply_extension_sizes entries extensions))))"


section \<open>Workers change nothing\<close>

lemma parse_range_append:
  "parse_range s (xs @ ys) = rbind (parse_range s xs) (\<lambda>(es, exts).
     rbind (parse_range s ys) (\<lambda>(es', exts'). Inr (es @ es', exts @ exts')))"
proof (induction xs)
  case (Cons x xs)
  have add: "add_outcome outcome (es @ es', exts @ exts')
      = (fst (add_outcome outcome (es, exts)) @ es', snd (add_outcome outcome (es, exts)) @ exts')" for outcome es es' exts exts'
    by (simp add: add_outcome_def split: record_outcome.split)
  show ?case
    by (cases "slice_bytes s (x * NTFS_RECORD_SIZE) (x * NTFS_RECORD_SIZE + NTFS_RECORD_SIZE)"; simp add: Cons)
      (auto simp: rbind_assoc add intro!: rbind_cong split: prod.splits)
next
  case Nil
  show ?case by (cases "parse_range s ys") auto
qed

text \<open>No record of the image makes \<open>parse_record\<close> panic.\<close>

definition records_safe :: "byte list \<Rightarrow> bool" where
  "records_safe bytes \<longleftrightarrow> list_all (\<lambda>i. parse_record (take NTFS_RECORD_SIZE (drop (i * NTFS_RECORD_SIZE) bytes)) \<noteq> Inl Panicked)
     [0..<length bytes div NTFS_RECORD_SIZE]"

lemma slice_record:
  assumes "i < length bytes div NTFS_RECORD_SIZE"
  shows "slice_bytes bytes (i * NTFS_RECORD_SIZE) (i * NTFS_RECORD_SIZE + NTFS_RECORD_SIZE)
    = Inr (take NTFS_RECORD_SIZE (drop (i * NTFS_RECORD_SIZE) bytes))"
proof -
  have "Suc i * NTFS_RECORD_SIZE \<le> length bytes div NTFS_RECORD_SIZE * NTFS_RECORD_SIZE"
    using assms by (intro mult_le_mono1) simp
  then have "i * NTFS_RECORD_SIZE + NTFS_RECORD_SIZE \<le> length bytes"
    using div_times_less_eq_dividend [of "length bytes" NTFS_RECORD_SIZE] by (simp only: mult_Suc)
  then show ?thesis by (simp add: slice_bytes_def)
qed

lemma parse_range_no_panic:
  assumes "records_safe bytes" "set xs \<subseteq> {..<length bytes div NTFS_RECORD_SIZE}"
  shows "parse_range bytes xs \<noteq> Inl Panicked"
  using assms(2)
proof (induction xs)
  case (Cons x xs)
  then show ?case
    using assms(1) slice_record [of x bytes] by (auto simp: rbind_eq_Inl records_safe_def list_all_iff)
qed simp

lemma join_workers_ranges:
  assumes "records_safe bytes" "list_all (\<lambda>(a, b). b \<le> length bytes div NTFS_RECORD_SIZE) ranges"
  shows "join_workers (map (\<lambda>(a, b). parse_record_range bytes a b) ranges)
    = parse_range bytes (concat (map (\<lambda>(a, b). [a..<b]) ranges))"
  using assms(2)
proof (induction ranges)
  case (Cons r ranges)
  obtain a b where r: "r = (a, b)" by force
  have ok: "parse_range bytes [a..<b] \<noteq> Inl Panicked"
    using Cons.prems r by (intro parse_range_no_panic [OF assms(1)]) auto
  have rest: "Inl Panicked \<notin> set (map (\<lambda>(a, b). parse_record_range bytes a b) ranges)"
  proof
    assume "Inl Panicked \<in> set (map (\<lambda>(a, b). parse_record_range bytes a b) ranges)"
    then obtain c d where "(c, d) \<in> set ranges" "parse_range bytes [c..<d] = Inl Panicked"
      by (fastforce simp: parse_record_range_def)
    moreover from this have "d \<le> length bytes div NTFS_RECORD_SIZE" using Cons.prems by (auto simp: list_all_iff)
    ultimately show False using parse_range_no_panic [OF assms(1), of "[c..<d]"] by fastforce
  qed
  have IH: "join_workers (map (\<lambda>(a, b). parse_record_range bytes a b) ranges)
      = parse_range bytes (concat (map (\<lambda>(a, b). [a..<b]) ranges))"
    using Cons by simp
  show ?case
  proof (cases "parse_range bytes [a..<b]")
    case (Inl e)
    then show ?thesis using ok rest by (simp add: r parse_record_range_def parse_range_append)
  next
    case (Inr x)
    then show ?thesis using IH by (cases x) (simp add: r parse_record_range_def parse_range_append)
  qed
qed simp

lemma worker_ranges_cover:
  "i \<le> w \<Longrightarrow> n \<le> w * c \<Longrightarrow>
   concat (map (\<lambda>(a, b). [a..<b]) (worker_ranges c n [i..<w])) = [min (i * c) n..<n]
   \<and> list_all (\<lambda>(a, b). a \<le> b \<and> b \<le> n) (worker_ranges c n [i..<w])"
proof (induction "w - i" arbitrary: i)
  case (Suc k)
  then have i: "i < w" by simp
  show ?case
  proof (cases "i * c \<ge> n")
    case True
    then show ?thesis using i by (simp add: upt_conv_Cons)
  next
    case False
    have "[i * c..<n] = [i * c..<min (Suc i * c) n] @ [min (Suc i * c) n..<n]"
      using upt_add_eq_append [of "i * c" "min (Suc i * c) n" "n - min (Suc i * c) n"] False by simp
    moreover have "concat (map (\<lambda>(a, b). [a..<b]) (worker_ranges c n [Suc i..<w])) = [min (Suc i * c) n..<n]
      \<and> list_all (\<lambda>(a, b). a \<le> b \<and> b \<le> n) (worker_ranges c n [Suc i..<w])"
      using Suc.hyps(1) [of "Suc i"] Suc.hyps(2) Suc.prems i by simp
    ultimately show ?thesis using i False by (simp add: upt_conv_Cons)
  qed
qed simp

lemma usize_div_ceil_covers: "0 < w \<Longrightarrow> n \<le> w * usize_div_ceil n w"
proof -
  assume w: "0 < w"
  have "n + w - 1 = (n + w - 1) div w * w + (n + w - 1) mod w" by simp
  moreover have "(n + w - 1) mod w < w" using w by simp
  ultimately show ?thesis unfolding usize_div_ceil_def by (simp only: mult.commute [of w])
qed

lemma parse_range_Suc:
  assumes "NTFS_RECORD_SIZE \<le> length bytes"
  shows "parse_range bytes (map Suc xs) = parse_range (drop NTFS_RECORD_SIZE bytes) xs"
proof (induction xs)
  case (Cons x xs)
  have "slice_bytes bytes (Suc x * NTFS_RECORD_SIZE) (Suc x * NTFS_RECORD_SIZE + NTFS_RECORD_SIZE)
    = slice_bytes (drop NTFS_RECORD_SIZE bytes) (x * NTFS_RECORD_SIZE) (x * NTFS_RECORD_SIZE + NTFS_RECORD_SIZE)"
    using assms by (auto simp: slice_bytes_def add.commute)
  then show ?case using Cons by (simp cong: if_cong)
qed simp

lemma sequential_records_range:
  "sequential_records bytes (entries, extensions) =
    rbind (parse_range bytes [0..<length bytes div NTFS_RECORD_SIZE]) (\<lambda>(es, exts).
      Inr (foldl (\<lambda>m e. hm_insert (e_file_id e) e m) entries es, extensions @ exts))"
proof (induction "length bytes" arbitrary: bytes entries extensions rule: less_induct)
  case less
  show ?case
  proof (cases "length bytes < NTFS_RECORD_SIZE")
    case True
    then have "sequential_records bytes (entries, extensions) = Inr (entries, extensions)"
      by (subst sequential_records.simps) (simp add: Let_def sequential_records.simps [of "[]"])
    with True show ?thesis by simp
  next
    case False
    define r where "r = take NTFS_RECORD_SIZE bytes"
    define rest where "rest = drop NTFS_RECORD_SIZE bytes"
    have n: "length bytes div NTFS_RECORD_SIZE = Suc (length rest div NTFS_RECORD_SIZE)"
      using False by (simp add: rest_def NTFS_RECORD_SIZE_def le_div_geq not_less)
    have len: "length r = NTFS_RECORD_SIZE" "bytes \<noteq> []" using False by (auto simp: r_def NTFS_RECORD_SIZE_def)
    have upt: "[0..<length bytes div NTFS_RECORD_SIZE] = 0 # map Suc [0..<length rest div NTFS_RECORD_SIZE]"
      by (simp only: n upt_conv_Cons map_Suc_upt zero_less_Suc)
    have first: "slice_bytes bytes 0 NTFS_RECORD_SIZE = Inr r" using False by (simp add: slice_bytes_def r_def)
    have tl: "parse_range bytes (map Suc xs) = parse_range rest xs" for xs
      using parse_range_Suc [of bytes xs] False by (simp add: rest_def)
    have "length rest < length bytes" using False by (simp add: rest_def NTFS_RECORD_SIZE_def)
    note IH = less.hyps [OF this]
    show ?thesis
    proof (cases "take 4 r = FILE_RECORD_SIGNATURE")
      case True
      have "sequential_records bytes (entries, extensions) = rbind (parse_record r) (\<lambda>outcome. sequential_records rest
         (case outcome of EntryRecord e \<Rightarrow> (hm_insert (e_file_id e) e entries, extensions)
         | ExtensionRecord x \<Rightarrow> (entries, extensions @ [x]) | NoRecord \<Rightarrow> (entries, extensions)))"
        using True len by (subst sequential_records.simps) (simp add: Let_def flip: r_def rest_def)
      moreover have "parse_range bytes [0..<length bytes div NTFS_RECORD_SIZE] = rbind (parse_record r) (\<lambda>outcome.
          rbind (parse_range rest [0..<length rest div NTFS_RECORD_SIZE]) (\<lambda>parsed. Inr (add_outcome outcome parsed)))"
        using True by (simp add: upt first tl del: upt_Suc)
      ultimately show ?thesis
        by (auto simp: rbind_assoc IH add_outcome_def intro!: rbind_cong split: record_outcome.split prod.split)
    next
      case False
      then have "sequential_records bytes (entries, extensions) = sequential_records rest (entries, extensions)"
        using len by (subst sequential_records.simps) (simp add: Let_def flip: r_def rest_def)
      moreover have "parse_range bytes [0..<length bytes div NTFS_RECORD_SIZE]
          = parse_range rest [0..<length rest div NTFS_RECORD_SIZE]"
        using False by (simp add: upt first tl del: upt_Suc)
      ultimately show ?thesis by (simp add: IH)
    qed
  qed
qed

text \<open>
  C16. Splitting the table over any number of workers changes nothing: the parallel parser returns the
  entries, events and errors of the sequential one, for every image whose records do not make a worker panic.
\<close>

theorem parallel_parse_equals_sequential:
  assumes "records_safe bytes"
  shows "parse_mft_records_parallel root_text bytes worker_count = parse_mft_records_sequential root_text bytes"
proof -
  let ?n = "length bytes div NTFS_RECORD_SIZE"
  let ?w = "max (min worker_count ?n) 1"
  let ?ranges = "worker_ranges (usize_div_ceil ?n ?w) ?n [0..<?w]"
  have cover: "concat (map (\<lambda>(a, b). [a..<b]) ?ranges) = [0..<?n]" "list_all (\<lambda>(a, b). a \<le> b \<and> b \<le> ?n) ?ranges"
    using worker_ranges_cover [of 0 ?w ?n "usize_div_ceil ?n ?w"] usize_div_ceil_covers [of ?w ?n] by simp_all
  have "join_workers (map (\<lambda>(a, b). parse_record_range bytes a b) ?ranges) = parse_range bytes [0..<?n]"
    using join_workers_ranges [OF assms, of ?ranges] cover by (auto simp: list_all_iff)
  then show ?thesis
    by (auto simp: parse_mft_records_parallel_def parse_mft_records_sequential_def Let_def sequential_records_range
        rbind_assoc NTFS_RECORD_SIZE_def not_less intro!: rbind_cong split: prod.splits)
qed

lemma apply_mft_fixups_append:
  "NTFS_RECORD_SIZE dvd length xs \<Longrightarrow> apply_mft_fixups s (xs @ ys) = apply_mft_fixups s xs @ apply_mft_fixups s ys"
proof (induction "length xs" arbitrary: xs rule: less_induct)
  case less
  show ?case
  proof (cases "xs = []")
    case True
    then show ?thesis by (simp add: apply_mft_fixups.simps [of s "[]"] NTFS_RECORD_SIZE_def)
  next
    case False
    have le: "NTFS_RECORD_SIZE \<le> length xs" using less.prems False by (intro dvd_imp_le) auto
    have "apply_mft_fixups s (drop NTFS_RECORD_SIZE xs @ ys)
        = apply_mft_fixups s (drop NTFS_RECORD_SIZE xs) @ apply_mft_fixups s ys"
      using less le by (intro less.hyps) (auto simp: NTFS_RECORD_SIZE_def dvd_diff_nat)
    then show ?thesis
      using le by (subst (1 2) apply_mft_fixups.simps) simp
  qed
qed

lemma parse_range_shift:
  "NTFS_RECORD_SIZE * k \<le> length bytes \<Longrightarrow> parse_range bytes [k..<k + n] = parse_range (drop (NTFS_RECORD_SIZE * k) bytes) [0..<n]"
proof (induction k arbitrary: bytes)
  case (Suc k)
  have "parse_range bytes [Suc k..<Suc k + n] = parse_range bytes (map Suc [k..<k + n])" by (simp add: map_Suc_upt)
  also have "\<dots> = parse_range (drop NTFS_RECORD_SIZE bytes) [k..<k + n]"
    using Suc.prems by (intro parse_range_Suc) simp
  also have "\<dots> = parse_range (drop (NTFS_RECORD_SIZE * k) (drop NTFS_RECORD_SIZE bytes)) [0..<n]"
    using Suc.prems by (intro Suc.IH) simp
  finally show ?case by (simp add: add.commute)
qed simp

lemma parse_range_take:
  "NTFS_RECORD_SIZE * n \<le> m \<Longrightarrow> set xs \<subseteq> {..<n} \<Longrightarrow> m \<le> length bytes \<Longrightarrow> parse_range (take m bytes) xs = parse_range bytes xs"
proof (induction xs)
  case (Cons x xs)
  have "NTFS_RECORD_SIZE * Suc x \<le> NTFS_RECORD_SIZE * n" using Cons.prems by (intro mult_le_mono2) auto
  then have "x * NTFS_RECORD_SIZE + NTFS_RECORD_SIZE \<le> m" using Cons.prems(1) by (simp add: mult.commute)
  then have "slice_bytes (take m bytes) (x * NTFS_RECORD_SIZE) (x * NTFS_RECORD_SIZE + NTFS_RECORD_SIZE)
      = slice_bytes bytes (x * NTFS_RECORD_SIZE) (x * NTFS_RECORD_SIZE + NTFS_RECORD_SIZE)"
    using Cons.prems(3) by (simp add: slice_bytes_def drop_take min_def)
  then show ?case using Cons by (simp cong: if_cong)
qed simp

lemma parse_range_chunk:
  assumes "a \<le> b" "NTFS_RECORD_SIZE * b \<le> length batch"
  shows "parse_record_range (apply_mft_fixups s (take ((b - a) * NTFS_RECORD_SIZE) (drop (NTFS_RECORD_SIZE * a) batch))) 0 (b - a)
    = parse_record_range (apply_mft_fixups s batch) a b"
proof -
  let ?F = "apply_mft_fixups s"
  define k where "k = b - a"
  have b: "b = a + k" using assms(1) by (simp add: k_def)
  let ?front = "take (NTFS_RECORD_SIZE * a) batch"
  let ?tail = "drop (NTFS_RECORD_SIZE * a) batch"
  let ?mid = "take (k * NTFS_RECORD_SIZE) ?tail"
  have front: "length ?front = NTFS_RECORD_SIZE * a" and mid: "length ?mid = k * NTFS_RECORD_SIZE"
    using assms(2) by (simp_all add: b algebra_simps)
  have F: "?F batch = ?F ?front @ ?F ?tail" "?F ?tail = ?F ?mid @ ?F (drop (k * NTFS_RECORD_SIZE) ?tail)"
    using apply_mft_fixups_append [of ?front s ?tail] apply_mft_fixups_append [of ?mid s "drop (k * NTFS_RECORD_SIZE) ?tail"]
    by (simp_all only: front mid append_take_drop_id dvd_triv_left dvd_triv_right)
  have "parse_range (?F batch) [a..<a + k] = parse_range (drop (NTFS_RECORD_SIZE * a) (?F batch)) [0..<k]"
    using assms(2) by (intro parse_range_shift) (simp add: b algebra_simps)
  also have "drop (NTFS_RECORD_SIZE * a) (?F batch) = ?F ?tail"
    by (subst F(1)) (simp only: drop_append length_apply_mft_fixups front drop_all le_refl append_Nil diff_self_eq_0 drop0)
  also have "parse_range (?F ?tail) [0..<k] = parse_range (take (k * NTFS_RECORD_SIZE) (?F ?tail)) [0..<k]"
    using assms(2) by (intro parse_range_take [of k, symmetric]) (auto simp: b algebra_simps)
  also have "take (k * NTFS_RECORD_SIZE) (?F ?tail) = ?F ?mid"
    by (subst F(2)) (simp only: take_append length_apply_mft_fixups mid take_all le_refl diff_self_eq_0 take0 append_Nil2)
  finally show ?thesis by (simp add: parse_record_range_def b)
qed

lemma fixup_chunks_ranges:
  assumes "NTFS_RECORD_SIZE * n \<le> length batch"
  shows "fixup_and_parse_chunks (drop (NTFS_RECORD_SIZE * (i * c)) batch) s (worker_ranges c n [i..<w])
    = map (\<lambda>(a, b). parse_record_range (apply_mft_fixups s batch) a b) (worker_ranges c n [i..<w])"
proof (induction "w - i" arbitrary: i)
  case (Suc k)
  then have i: "i < w" by simp
  show ?case
  proof (cases "n \<le> Suc i * c")
    case True
    have last: "worker_ranges c n [Suc i..<w] = []"
      by (cases "Suc i < w") (use True in \<open>simp_all add: upt_conv_Cons\<close>)
    show ?thesis
      using i last True assms parse_range_chunk [of "i * c" n batch s] by (simp add: upt_conv_Cons min_def not_le)
  next
    case False
    have "NTFS_RECORD_SIZE * (Suc i * c) \<le> length batch"
      using mult_le_mono2 [of "Suc i * c" n NTFS_RECORD_SIZE] False assms by linarith
    then have "parse_record_range (apply_mft_fixups s (take (c * NTFS_RECORD_SIZE) (drop (NTFS_RECORD_SIZE * (i * c)) batch))) 0 c
        = parse_record_range (apply_mft_fixups s batch) (i * c) (Suc i * c)"
      using parse_range_chunk [of "i * c" "Suc i * c" batch s] by simp
    moreover have "drop (c * NTFS_RECORD_SIZE) (drop (NTFS_RECORD_SIZE * (i * c)) batch) = drop (NTFS_RECORD_SIZE * (Suc i * c)) batch"
      by (simp add: algebra_simps)
    ultimately show ?thesis
      using i False Suc.hyps(1) [of "Suc i"] Suc.hyps(2) by (simp add: upt_conv_Cons min_def)
  qed
qed simp

lemma fixup_batch_workers:
  assumes "length batch = record_count * NTFS_RECORD_SIZE" "records_safe (apply_mft_fixups s batch)"
  shows "fixup_and_parse_batch batch record_count workers s
    = parse_record_range (apply_mft_fixups s batch) 0 record_count"
proof (cases "workers \<le> 1 \<or> record_count < 2048")
  case False
  let ?c = "usize_div_ceil record_count workers"
  let ?ranges = "worker_ranges ?c record_count [0..<workers]"
  have n: "length batch div NTFS_RECORD_SIZE = record_count" by (simp add: assms(1) NTFS_RECORD_SIZE_def)
  have cover: "concat (map (\<lambda>(a, b). [a..<b]) ?ranges) = [0..<record_count]"
      "list_all (\<lambda>(a, b). a \<le> b \<and> b \<le> record_count) ?ranges"
    using worker_ranges_cover [of 0 workers record_count ?c] usize_div_ceil_covers [of workers record_count] False by simp_all
  have "join_workers (fixup_and_parse_chunks batch s ?ranges) = parse_range (apply_mft_fixups s batch) [0..<record_count]"
    using fixup_chunks_ranges [of record_count batch 0 ?c s workers] cover n
      join_workers_ranges [OF assms(2), of ?ranges] by (auto simp: assms(1) mult.commute list_all_iff)
  then show ?thesis using False by (simp add: fixup_and_parse_batch_def parse_record_range_def Let_def assms(1))
qed (simp add: fixup_and_parse_batch_def)

text \<open>
  In the streaming scan, fixing up and parsing a batch chunk by chunk in any number of workers gives the
  result of fixing up the whole batch and parsing it in one go.
\<close>

theorem fixup_batch_independent_of_workers:
  assumes "length batch = record_count * NTFS_RECORD_SIZE" "records_safe (apply_mft_fixups s batch)"
  shows "fixup_and_parse_batch batch record_count workers s
    = parse_record_range (apply_mft_fixups s batch) 0 record_count"
  using assms by (rule fixup_batch_workers)

section \<open>Witnesses\<close>

lemma slice_concat_replicate:
  "i < n \<Longrightarrow> length r = NTFS_RECORD_SIZE \<Longrightarrow>
   take NTFS_RECORD_SIZE (drop (i * NTFS_RECORD_SIZE) (concat (replicate n r))) = r"
proof (induction n arbitrary: i)
  case (Suc n)
  then show ?case by (cases i) (simp_all del: drop_drop add: drop_append)
qed simp

lemma length_concat_replicate: "length (concat (replicate n r)) = n * length r"
  by (induction n) auto

lemma named_records_safe: "records_safe (concat (replicate n named_record))"
  by (simp add: records_safe_def list_all_iff slice_concat_replicate length_concat_replicate length_named_record
      NTFS_RECORD_SIZE_def [symmetric] parse_named_record)

lemma parallel_parse_equals_sequential_witness:
  "parse_mft_records_parallel ''C:'' (concat (replicate 5 named_record)) 3
    = parse_mft_records_sequential ''C:'' (concat (replicate 5 named_record))"
  by (rule parallel_parse_equals_sequential [OF named_records_safe])

lemma named_record_fixups: "apply_mft_fixups 512 (concat (replicate n named_record)) = concat (replicate n named_record)"
proof (induction n)
  case (Suc n)
  have tails: "named_record ! 4 = 48" "named_record ! 5 = 0" "named_record ! 6 = 2" "named_record ! 7 = 0"
    "named_record ! 48 = 0" "named_record ! 49 = 0" "named_record ! 50 = 0" "named_record ! 51 = 0"
    "named_record ! 510 = 0" "named_record ! 511 = 0"
    by (simp_all add: named_record_def FILE_RECORD_SIGNATURE_def file_name_value_def encode_utf16_char_def Let_def nth_append)
  have "named_record[510 := 0, 511 := 0] = named_record"
    using tails list_update_id [of named_record 510] list_update_id [of named_record 511] by simp
  then have "apply_record_fixups 512 named_record = (True, named_record)"
    by (simp add: apply_record_fixups_def length_named_record tails from_le_def upt_rec)
  then have one: "apply_mft_fixups 512 named_record = named_record"
    by (simp add: apply_mft_fixups.simps length_named_record NTFS_RECORD_SIZE_def fixup_one_def)
  show ?case
    using apply_mft_fixups_append [of named_record 512 "concat (replicate n named_record)"] Suc one
    by (simp add: length_named_record NTFS_RECORD_SIZE_def)
next
  case 0
  show ?case by (simp add: apply_mft_fixups.simps NTFS_RECORD_SIZE_def)
qed

lemma fixup_batch_independent_of_workers_witness:
  "fixup_and_parse_batch (concat (replicate 4096 named_record)) 4096 3 512
    = parse_record_range (concat (replicate 4096 named_record)) 0 4096"
proof -
  have len: "length (concat (replicate 4096 named_record)) = 4096 * NTFS_RECORD_SIZE"
    by (simp only: length_concat_replicate length_named_record NTFS_RECORD_SIZE_def)
  show ?thesis
    using fixup_batch_independent_of_workers [OF len, of 512 3] named_records_safe
    by (simp only: named_record_fixups)
qed

end
