(* ===== verification/Ntfs_Stream.thy ===== *)
theory Ntfs_Stream
  imports Ntfs_Entries
begin

text \<open>
  \<open>NtfsStreamState\<close> of \<open>WinBlaze.Scanner/src/ntfs.rs\<close>: entries arrive in table order and are emitted as soon as
  the path of their parent is known; directories that came before their parent wait in buckets, and the last
  pass releases what never got one. Every method returns the new state and the events it sent.
\<close>

section \<open>The state\<close>

record stream_state =
  ns_root_text :: string
  ns_resolved_paths :: "u64 \<rightharpoonup> string"
  ns_orphan_dirs :: "parsed_entry list hash_map"
  ns_retained_files :: "parsed_entry hash_map"
  ns_pending_extensions :: "extension_sizes hash_map"
  ns_cascade :: "parsed_entry list"
  ns_files_seen :: u64
  ns_directories_seen :: u64
  ns_total_size_bytes :: u64
  ns_total_allocation_bytes :: u64

type_synonym streamed = "stream_state \<times> scan_event list"

definition hm_remove :: "u64 \<Rightarrow> 'v hash_map \<Rightarrow> 'v hash_map" where
  "hm_remove k m = filter (\<lambda>(k', v). k' \<noteq> k) m"

lemma map_of_hm_remove [simp]: "map_of (hm_remove k m) = (map_of m)(k := None)"
  by (induction m) (auto simp: hm_remove_def)

lemma length_hm_remove: "length (hm_remove k m) \<le> length m"
  by (simp add: hm_remove_def)

lemma length_hm_remove_less: "map_of m k = Some v \<Longrightarrow> length (hm_remove k m) < length m"
  unfolding hm_remove_def by (rule length_filter_less [of "(k, v)"]) (auto dest: map_of_SomeD)

definition stream_new :: "string \<Rightarrow> stream_state" where
  "stream_new root_text = \<lparr>ns_root_text = root_text, ns_resolved_paths = Map.empty, ns_orphan_dirs = [],
     ns_retained_files = [], ns_pending_extensions = [], ns_cascade = [], ns_files_seen = 0, ns_directories_seen = 0,
     ns_total_size_bytes = 0, ns_total_allocation_bytes = 0\<rparr>"

definition NTFS_ROOT_RECORD :: u64 where "NTFS_ROOT_RECORD = 5"

definition stream_root :: "string \<Rightarrow> directory_record" where
  "stream_root root_text = \<lparr>d_id = NTFS_ROOT_RECORD, d_parent_directory_id = None, d_name = root_text,
     d_full_path = root_text, d_direct_bytes = 0, d_total_bytes = 0, d_direct_entries = 0, d_total_entries = 0\<rparr>"

definition emit_root :: "stream_state \<Rightarrow> streamed" where
  "emit_root s =
    (s\<lparr>ns_resolved_paths := (ns_resolved_paths s)(NTFS_ROOT_RECORD \<mapsto> ns_root_text s),
       ns_directories_seen := sat_add (ns_directories_seen s) 1\<rparr>,
     [DirectoryFound (stream_root (ns_root_text s))])"

text \<open>Self-referential and absent parent links resolve under the root record.\<close>

definition normalized_parent :: "parsed_entry \<Rightarrow> u64" where
  "normalized_parent e = (case e_parent_directory_id e of
     Some parent \<Rightarrow> if parent \<noteq> e_file_id e then parent else NTFS_ROOT_RECORD | None \<Rightarrow> NTFS_ROOT_RECORD)"

section \<open>Directories\<close>

definition stream_directory :: "parsed_entry \<Rightarrow> string \<Rightarrow> directory_record" where
  "stream_directory e full_path = \<lparr>d_id = e_file_id e, d_parent_directory_id = e_parent_directory_id e,
     d_name = e_name e, d_full_path = full_path, d_direct_bytes = 0, d_total_bytes = 0,
     d_direct_entries = 0, d_total_entries = 0\<rparr>"

definition entry_path :: "stream_state \<Rightarrow> parsed_entry \<Rightarrow> string" where
  "entry_path s e =
    ntfs_join_path (case ns_resolved_paths s (normalized_parent e) of Some p \<Rightarrow> p | None \<Rightarrow> ns_root_text s) (e_name e)"

text \<open>One turn of the loop of \<open>drain_cascade\<close>, for an entry popped from the worklist.\<close>

definition emit_directory :: "parsed_entry \<Rightarrow> stream_state \<Rightarrow> stream_state" where
  "emit_directory e s =
    s\<lparr>ns_directories_seen := sat_add (ns_directories_seen s) 1,
      ns_resolved_paths := (ns_resolved_paths s)(e_file_id e \<mapsto> entry_path s e),
      ns_orphan_dirs := hm_remove (e_file_id e) (ns_orphan_dirs s),
      ns_cascade := ns_cascade s @ (case map_of (ns_orphan_dirs s) (e_file_id e) of Some children \<Rightarrow> children | None \<Rightarrow> [])\<rparr>"

definition waiting_entries :: "stream_state \<Rightarrow> parsed_entry list" where
  "waiting_entries s = concat (hm_values (ns_orphan_dirs s))"

lemma hm_remove_waiting:
  "length (concat (map snd (hm_remove k m))) + (case map_of m k of Some es \<Rightarrow> length es | None \<Rightarrow> 0)
    \<le> length (concat (map snd m))"
  by (induction m) (auto simp: hm_remove_def split: option.splits)

function drain_cascade :: "stream_state \<Rightarrow> streamed" where
  "drain_cascade s =
    (if ns_cascade s = [] then (s, [])
     else
       let e = last (ns_cascade s); s1 = s\<lparr>ns_cascade := butlast (ns_cascade s)\<rparr>;
           (s2, events) = drain_cascade (emit_directory e s1)
       in (s2, DirectoryFound (stream_directory e (entry_path s1 e)) # events))"
  by auto
termination
proof (relation "measure (\<lambda>s. length (ns_cascade s) + length (waiting_entries s))", simp)
  fix s :: stream_state and x xa assume s: "ns_cascade s \<noteq> []" and x: "x = last (ns_cascade s)" "xa = s\<lparr>ns_cascade := butlast (ns_cascade s)\<rparr>"
  then show "(emit_directory x xa, s) \<in> measure (\<lambda>s. length (ns_cascade s) + length (waiting_entries s))"
    using hm_remove_waiting [of "e_file_id x" "ns_orphan_dirs s"]
    by (auto simp: emit_directory_def waiting_entries_def hm_values_def length_greater_0_conv [symmetric] simp del: length_greater_0_conv
        split: option.splits)
qed

declare drain_cascade.simps [simp del]

section \<open>Files and extension records\<close>

definition stream_file :: "parsed_entry \<Rightarrow> file_record" where
  "stream_file e = \<lparr>f_id = e_file_id e,
     f_parent_directory_id = (case e_parent_directory_id e of Some p \<Rightarrow> p | None \<Rightarrow> NTFS_ROOT_RECORD),
     f_name = e_name e, f_full_path = [], f_size_bytes = e_size_bytes e, f_allocation_bytes = e_allocation_bytes e,
     f_attributes = e_attributes e,
     f_timestamps = timestamps_new (e_created_utc e) (e_modified_utc e) (e_accessed_utc e)\<rparr>"

definition emit_file :: "stream_state \<Rightarrow> parsed_entry \<Rightarrow> streamed" where
  "emit_file s e =
    (let s = s\<lparr>ns_files_seen := sat_add (ns_files_seen s) 1,
               ns_total_size_bytes := sat_add (ns_total_size_bytes s) (e_size_bytes e),
               ns_total_allocation_bytes := sat_add (ns_total_allocation_bytes s) (e_allocation_bytes e)\<rparr>
     in (if e_has_attribute_list e
         then s\<lparr>ns_retained_files := hm_insert (e_file_id e) e (ns_retained_files s)\<rparr> else s,
         [FileFound (stream_file e)]))"

definition take_pending :: "stream_state \<Rightarrow> parsed_entry \<Rightarrow> stream_state \<times> parsed_entry" where
  "take_pending s e =
    (case map_of (ns_pending_extensions s) (e_file_id e) of
       Some sizes \<Rightarrow> (s\<lparr>ns_pending_extensions := hm_remove (e_file_id e) (ns_pending_extensions s)\<rparr>, merge_sizes sizes e)
     | None \<Rightarrow> (s, e))"

definition ingest_directory :: "stream_state \<Rightarrow> parsed_entry \<Rightarrow> streamed" where
  "ingest_directory s e =
    (let parent = normalized_parent e in
     if ns_resolved_paths s parent \<noteq> None then drain_cascade (s\<lparr>ns_cascade := ns_cascade s @ [e]\<rparr>)
     else (s\<lparr>ns_orphan_dirs := hm_insert parent
               ((case map_of (ns_orphan_dirs s) parent of Some es \<Rightarrow> es | None \<Rightarrow> []) @ [e]) (ns_orphan_dirs s)\<rparr>, []))"

definition ingest_entry :: "stream_state \<Rightarrow> parsed_entry \<Rightarrow> streamed" where
  "ingest_entry s e =
    (let (s, e) = take_pending s e in
     if e_is_directory e then
       if e_file_id e = NTFS_ROOT_RECORD then (s, []) else ingest_directory s e
     else emit_file s e)"

definition ingest_extension :: "stream_state \<Rightarrow> extension_sizes \<Rightarrow> streamed" where
  "ingest_extension s x =
    (case map_of (ns_retained_files s) (x_base_record x) of
       Some e \<Rightarrow>
         let size = max (e_size_bytes e) (x_size_bytes x); allocation = max (e_allocation_bytes e) (x_allocation_bytes x) in
         if size = e_size_bytes e \<and> allocation = e_allocation_bytes e then (s, [])
         else
           let e' = e\<lparr>e_size_bytes := size, e_allocation_bytes := allocation\<rparr>
           in (s\<lparr>ns_total_size_bytes := sat_add (ns_total_size_bytes s) (size - e_size_bytes e),
                 ns_total_allocation_bytes := sat_add (ns_total_allocation_bytes s) (allocation - e_allocation_bytes e),
                 ns_retained_files := hm_insert (x_base_record x) e' (ns_retained_files s)\<rparr>, [FileFound (stream_file e')])
     | None \<Rightarrow>
         if ns_resolved_paths s (x_base_record x) \<noteq> None then (s, [])
         else (s\<lparr>ns_pending_extensions := hm_insert (x_base_record x)
             (case map_of (ns_pending_extensions s) (x_base_record x) of
                Some sizes \<Rightarrow> sizes\<lparr>x_size_bytes := max (x_size_bytes sizes) (x_size_bytes x),
                  x_allocation_bytes := max (x_allocation_bytes sizes) (x_allocation_bytes x)\<rparr>
              | None \<Rightarrow> x) (ns_pending_extensions s)\<rparr>, []))"

section \<open>The last pass\<close>

definition stuck_keys :: "stream_state \<Rightarrow> u64 list" where
  "stuck_keys s =
    (let waiting = map e_file_id (waiting_entries s);
         stuck = filter (\<lambda>key. key \<notin> set waiting) (map fst (ns_orphan_dirs s))
     in sort (if stuck = [] \<and> ns_orphan_dirs s \<noteq> [] then [Min (set (map fst (ns_orphan_dirs s)))] else stuck))"

lemma drain_cascade_orphans: "length (ns_orphan_dirs (fst (drain_cascade s))) \<le> length (ns_orphan_dirs s)"
proof (induction s rule: drain_cascade.induct)
  case (1 s)
  show ?case
  proof (cases "ns_cascade s = []")
    case True
    then show ?thesis by (simp add: drain_cascade.simps)
  next
    case False
    let ?e = "last (ns_cascade s)" and ?s1 = "s\<lparr>ns_cascade := butlast (ns_cascade s)\<rparr>"
    have "length (ns_orphan_dirs (fst (drain_cascade (emit_directory ?e ?s1)))) \<le> length (ns_orphan_dirs (emit_directory ?e ?s1))"
      using 1 [OF False refl refl] .
    also have "\<dots> \<le> length (ns_orphan_dirs s)" using length_hm_remove by (simp add: emit_directory_def)
    finally show ?thesis using False by (subst drain_cascade.simps) (simp add: Let_def case_prod_unfold)
  qed
qed

text \<open>Releasing one bucket.\<close>

definition release_bucket :: "stream_state \<Rightarrow> u64 \<Rightarrow> streamed" where
  "release_bucket s parent = (case map_of (ns_orphan_dirs s) parent of
     Some children \<Rightarrow> drain_cascade (s\<lparr>ns_orphan_dirs := hm_remove parent (ns_orphan_dirs s),
                                     ns_cascade := ns_cascade s @ children\<rparr>)
   | None \<Rightarrow> (s, []))"

fun release_buckets :: "stream_state \<Rightarrow> u64 list \<Rightarrow> streamed" where
  "release_buckets s [] = (s, [])"
| "release_buckets s (parent # rest) =
    (let (s, events) = release_bucket s parent; (s, more) = release_buckets s rest in (s, events @ more))"

lemma release_bucket_orphans:
  "length (ns_orphan_dirs (fst (release_bucket s k))) + (if map_of (ns_orphan_dirs s) k = None then 0 else 1)
    \<le> length (ns_orphan_dirs s)"
proof (cases "map_of (ns_orphan_dirs s) k")
  case (Some children)
  show ?thesis
    using drain_cascade_orphans [of "s\<lparr>ns_orphan_dirs := hm_remove k (ns_orphan_dirs s), ns_cascade := ns_cascade s @ children\<rparr>"]
      length_hm_remove_less [OF Some] by (simp add: release_bucket_def Some)
qed (simp add: release_bucket_def)

lemma release_buckets_orphans:
  "length (ns_orphan_dirs (fst (release_buckets s ks))) \<le> length (ns_orphan_dirs s)"
proof (induction ks arbitrary: s)
  case (Cons k ks)
  show ?case
    using Cons [of "fst (release_bucket s k)"] release_bucket_orphans [of s k] by (simp add: case_prod_unfold Let_def)
qed simp

lemma release_first_orphan:
  "map_of (ns_orphan_dirs s) k \<noteq> None \<Longrightarrow>
   length (ns_orphan_dirs (fst (release_buckets s (k # ks)))) < length (ns_orphan_dirs s)"
  using release_buckets_orphans [of "fst (release_bucket s k)" ks] release_bucket_orphans [of s k]
  by (auto simp: case_prod_unfold Let_def)

lemma stuck_keys_first:
  assumes "ns_orphan_dirs s \<noteq> []"
  obtains k ks where "stuck_keys s = k # ks" "map_of (ns_orphan_dirs s) k \<noteq> None"
proof -
  let ?keys = "map fst (ns_orphan_dirs s)" and ?waiting = "map e_file_id (waiting_entries s)"
  have "Min (set ?keys) \<in> set ?keys" using assms by (intro Min_in) auto
  then have keys: "set (stuck_keys s) \<subseteq> set ?keys" by (auto simp: stuck_keys_def Let_def)
  have "length (stuck_keys s) \<noteq> 0" using assms by (simp add: stuck_keys_def Let_def)
  then obtain k ks where k: "stuck_keys s = k # ks" by (cases "stuck_keys s") auto
  with keys have "map_of (ns_orphan_dirs s) k \<noteq> None" by (simp add: map_of_eq_None_iff)
  with k show ?thesis by (rule that)
qed

function finish :: "stream_state \<Rightarrow> streamed" where
  "finish s =
    (if ns_orphan_dirs s = [] then (s, [])
     else let (s, events) = release_buckets s (stuck_keys s); (s, more) = finish s in (s, events @ more))"
  by auto
termination
proof (relation "measure (\<lambda>s. length (ns_orphan_dirs s))", simp)
  fix s :: stream_state and x xa y
  assume s: "ns_orphan_dirs s \<noteq> []" "x = release_buckets s (stuck_keys s)" "(xa, y) = x"
  obtain k ks where "stuck_keys s = k # ks" "map_of (ns_orphan_dirs s) k \<noteq> None" by (rule stuck_keys_first [OF s(1)])
  then show "(xa, s) \<in> measure (\<lambda>s. length (ns_orphan_dirs s))"
    using release_first_orphan [of s k ks] s(2,3) by (metis fst_conv in_measure)
qed

declare finish.simps [simp del]

definition into_summary :: "stream_state \<Rightarrow> scan_summary" where
  "into_summary s = \<lparr>ss_files_seen = ns_files_seen s, ss_directories_seen = ns_directories_seen s,
     ss_total_size_bytes = ns_total_size_bytes s, ss_total_allocation_bytes = ns_total_allocation_bytes s\<rparr>"

section \<open>The emit loop\<close>

fun ingest_entries :: "stream_state \<Rightarrow> parsed_entry list \<Rightarrow> streamed" where
  "ingest_entries s [] = (s, [])"
| "ingest_entries s (e # es) = (let (s, events) = ingest_entry s e; (s, more) = ingest_entries s es in (s, events @ more))"

fun ingest_extensions :: "stream_state \<Rightarrow> extension_sizes list \<Rightarrow> streamed" where
  "ingest_extensions s [] = (s, [])"
| "ingest_extensions s (x # xs) = (let (s, events) = ingest_extension s x; (s, more) = ingest_extensions s xs in (s, events @ more))"

text \<open>The whole loop over the parsed batches, with the root first and the last pass at the end.\<close>

fun ingest_batches :: "stream_state \<Rightarrow> (parsed_entry list \<times> extension_sizes list) list \<Rightarrow> streamed" where
  "ingest_batches s [] = (s, [])"
| "ingest_batches s ((entries, extensions) # rest) =
    (let (s, ev1) = ingest_entries s entries; (s, ev2) = ingest_extensions s extensions;
         (s, ev3) = ingest_batches s rest in (s, ev1 @ ev2 @ ev3))"

definition stream_batches :: "string \<Rightarrow> (parsed_entry list \<times> extension_sizes list) list \<Rightarrow> scan_summary \<times> scan_event list" where
  "stream_batches root_text batches =
    (let (s, ev1) = emit_root (stream_new root_text); (s, ev2) = ingest_batches s batches; (s, ev3) = finish s
     in (into_summary s, ev1 @ ev2 @ ev3))"

end
