(* ===== verification/Ntfs_Pipeline.thy ===== *)
theory Ntfs_Pipeline
  imports Ntfs_Reader Ntfs_Stream
begin

text \<open>
  \<open>stream_ntfs_entries\<close> of \<open>WinBlaze.Scanner/src/ntfs.rs\<close>: a reader thread, a parser thread that stitches
  records over block boundaries, and the emit loop. The channels keep the order of their messages, so a thread
  is the list of what it sends; a thread that panics sends nothing more, and the results of the joins are
  ignored by the code.
\<close>

section \<open>The reader thread\<close>

definition records_per_read :: "nat \<Rightarrow> nat" where
  "records_per_read workers = min (max (workers * 1024) 1024) 65536"

fun reader_thread :: "nat \<Rightarrow> volume \<Rightarrow> mft_reader \<Rightarrow> nat \<Rightarrow> (ntfs_error + byte list) list" where
  "reader_thread 0 vol r block_len = []"
| "reader_thread (Suc fuel) vol r block_len =
    (case fill_block vol r block_len [] of
       Inl Panicked \<Rightarrow> []
     | Inl e \<Rightarrow> [Inl e]
     | Inr (block, r) \<Rightarrow> Inr block # (if length block < block_len then [] else reader_thread fuel vol r block_len))"

section \<open>The parser thread\<close>

type_synonym parsed_message = "ntfs_error + (parsed_entry list \<times> extension_sizes list) \<times> u64"

text \<open>The whole records of the carried bytes and a new block, and the bytes carried on.\<close>

definition stitch_block :: "byte list \<Rightarrow> byte list \<Rightarrow> byte list \<times> byte list" where
  "stitch_block carry block =
    (if carry = [] \<and> length block mod NTFS_RECORD_SIZE = 0 then (block, [])
     else let bytes = carry @ block; full_bytes = length bytes div NTFS_RECORD_SIZE * NTFS_RECORD_SIZE
       in (take full_bytes bytes, drop full_bytes bytes))"

fun parser_thread :: "nat \<Rightarrow> nat \<Rightarrow> byte list \<Rightarrow> u64 \<Rightarrow> (ntfs_error + byte list) list \<Rightarrow> parsed_message list" where
  "parser_thread workers bytes_per_sector carry processed_records [] = []"
| "parser_thread workers bytes_per_sector carry processed_records (Inl e # blocks) = [Inl e]"
| "parser_thread workers bytes_per_sector carry processed_records (Inr block # blocks) =
    (if block = [] then []
     else
       let (batch, carry) = stitch_block carry block; full_records = length batch div NTFS_RECORD_SIZE in
       case fixup_and_parse_batch batch full_records workers bytes_per_sector of
         Inr parsed \<Rightarrow>
           let processed_records = sat_add processed_records (word_of_nat full_records)
           in Inr (parsed, processed_records) # parser_thread workers bytes_per_sector carry processed_records blocks
       | Inl Panicked \<Rightarrow> []
       | Inl e \<Rightarrow> [Inl e])"

section \<open>The emit loop\<close>

definition MFT_PROGRESS_RECORD_DELTA :: u64 where "MFT_PROGRESS_RECORD_DELTA = 262144"

definition scan_progress_event :: "u64 \<Rightarrow> u64 \<Rightarrow> scan_event" where
  "scan_progress_event processed_records total_records = Progress
     \<lparr>p_completed_items = processed_records, p_total_items = total_records,
      p_completed_bytes = sat_mul processed_records (word_of_nat NTFS_RECORD_SIZE),
      p_total_bytes = sat_mul total_records (word_of_nat NTFS_RECORD_SIZE)\<rparr>"

definition progress_due :: "u64 \<Rightarrow> u64 \<Rightarrow> u64 \<Rightarrow> bool" where
  "progress_due processed_records total_records last_progress_records \<longleftrightarrow>
     total_records \<le> processed_records
     \<or> MFT_PROGRESS_RECORD_DELTA \<le> sat_sub processed_records last_progress_records"

fun emit_loop :: "u64 \<Rightarrow> u64 \<Rightarrow> stream_state \<Rightarrow> parsed_message list \<Rightarrow> streamed \<times> ntfs_error option" where
  "emit_loop total_records last_progress s [] = ((s, []), None)"
| "emit_loop total_records last_progress s (Inl e # messages) = ((s, []), Some e)"
| "emit_loop total_records last_progress s (Inr ((entries, extensions), processed_records) # messages) =
    (let (s, ev1) = ingest_entries s entries; (s, ev2) = ingest_extensions s extensions;
         due = progress_due processed_records total_records last_progress;
         ((s, ev3), r) = emit_loop total_records (if due then processed_records else last_progress) s messages
     in ((s, ev1 @ ev2 @ (if due then [scan_progress_event processed_records total_records] else []) @ ev3), r))"

definition stream_blocks ::
  "string \<Rightarrow> nat \<Rightarrow> nat \<Rightarrow> u64 \<Rightarrow> (ntfs_error + byte list) list \<Rightarrow> scan_event list \<times> (ntfs_error + scan_summary)" where
  "stream_blocks root_text workers bytes_per_sector total_bytes blocks =
    (let total_records = max (total_bytes div word_of_nat NTFS_RECORD_SIZE) 1;
         (s, ev1) = emit_root (stream_new root_text);
         ((s, ev2), r) = emit_loop total_records 0 s (parser_thread workers bytes_per_sector [] 0 blocks)
     in case r of
          Some e \<Rightarrow> (ev1 @ ev2, Inl e)
        | None \<Rightarrow> let (s, ev3) = finish s in (ev1 @ ev2 @ ev3, Inr (into_summary s)))"

text \<open>The scan of a volume given the opened stream.\<close>

definition stream_ntfs_entries ::
  "nat \<Rightarrow> string \<Rightarrow> volume \<Rightarrow> extent list \<Rightarrow> nat \<Rightarrow> nat \<Rightarrow> scan_event list \<times> (ntfs_error + scan_summary)" where
  "stream_ntfs_entries fuel root_text vol extents bytes_per_sector worker_count =
    (let workers = max worker_count 1; reader = mft_reader_new extents bytes_per_sector;
         block_len = NTFS_RECORD_SIZE * records_per_read workers
     in stream_blocks root_text workers bytes_per_sector (reader_total_bytes reader) (reader_thread fuel vol reader block_len))"

section \<open>Blocks and workers change nothing\<close>

text \<open>All that the parser thread sends, as one result.\<close>

fun collect_messages :: "parsed_message list \<Rightarrow> ntfs_error + parsed_entry list \<times> extension_sizes list" where
  "collect_messages [] = Inr ([], [])"
| "collect_messages (Inl e # messages) = Inl e"
| "collect_messages (Inr ((es, exts), n) # messages) =
    rbind (collect_messages messages) (\<lambda>(es', exts'). Inr (es @ es', exts @ exts'))"

lemma length_div_append:
  "NTFS_RECORD_SIZE dvd length (xs :: byte list) \<Longrightarrow>
   length (xs @ ys) div NTFS_RECORD_SIZE = length xs div NTFS_RECORD_SIZE + length ys div NTFS_RECORD_SIZE"
  by (auto simp: NTFS_RECORD_SIZE_def elim!: dvdE)

lemma parse_table_append:
  fixes xs ys :: "byte list" and F :: "byte list \<Rightarrow> byte list"
  defines "n \<equiv> length xs div NTFS_RECORD_SIZE" and "m \<equiv> length ys div NTFS_RECORD_SIZE"
  assumes "NTFS_RECORD_SIZE dvd length xs"
  shows "parse_range (xs @ ys) [0..<n + m] = rbind (parse_range xs [0..<n]) (\<lambda>(es, exts).
     rbind (parse_range ys [0..<m]) (\<lambda>(es', exts'). Inr (es @ es', exts @ exts')))"
proof -
  have len: "NTFS_RECORD_SIZE * n = length xs" using assms(3) by (simp add: n_def)
  have "[0..<n + m] = [0..<n] @ [n..<n + m]" by (rule upt_add_eq_append) simp
  have "NTFS_RECORD_SIZE * n \<le> length xs" "set [0..<n] \<subseteq> {..<n}" "length xs \<le> length (xs @ ys)" using len by auto
  then have "parse_range (take (length xs) (xs @ ys)) [0..<n] = parse_range (xs @ ys) [0..<n]"
    by (rule parse_range_take)
  then have first: "parse_range (xs @ ys) [0..<n] = parse_range xs [0..<n]" by simp
  have "parse_range (xs @ ys) [n..<n + m] = parse_range (drop (NTFS_RECORD_SIZE * n) (xs @ ys)) [0..<m]"
    using len by (intro parse_range_shift) simp
  then have second: "parse_range (xs @ ys) [n..<n + m] = parse_range ys [0..<m]" unfolding len by simp
  show ?thesis unfolding \<open>[0..<n + m] = [0..<n] @ [n..<n + m]\<close> parse_range_append first second ..
qed

lemma records_safe_append:
  assumes "NTFS_RECORD_SIZE dvd length xs" "records_safe (xs @ ys)"
  shows "records_safe xs \<and> records_safe ys"
proof -
  let ?n = "length xs div NTFS_RECORD_SIZE" and ?m = "length ys div NTFS_RECORD_SIZE"
  have len: "?n * NTFS_RECORD_SIZE = length xs" using assms(1) by simp
  have safe: "parse_record (take NTFS_RECORD_SIZE (drop (i * NTFS_RECORD_SIZE) (xs @ ys))) \<noteq> Inl Panicked" if "i < ?n + ?m" for i
    using assms(2) that length_div_append [OF assms(1), of ys] by (simp add: records_safe_def list_all_iff del: take_append drop_append)
  have "parse_record (take NTFS_RECORD_SIZE (drop (i * NTFS_RECORD_SIZE) xs)) \<noteq> Inl Panicked" if "i < ?n" for i
  proof -
    have "Suc i * NTFS_RECORD_SIZE \<le> length xs" using that len mult_le_mono1 [of "Suc i" ?n NTFS_RECORD_SIZE] by simp
    then have "take NTFS_RECORD_SIZE (drop (i * NTFS_RECORD_SIZE) (xs @ ys)) = take NTFS_RECORD_SIZE (drop (i * NTFS_RECORD_SIZE) xs)"
      by simp
    then show ?thesis using safe [of i] that by (metis trans_less_add1)
  qed
  moreover have "parse_record (take NTFS_RECORD_SIZE (drop (i * NTFS_RECORD_SIZE) ys)) \<noteq> Inl Panicked" if "i < ?m" for i
  proof -
    have "drop ((?n + i) * NTFS_RECORD_SIZE) (xs @ ys) = drop (i * NTFS_RECORD_SIZE) ys" using len by (simp add: add_mult_distrib)
    then show ?thesis using safe [of "?n + i"] that by (metis add_less_cancel_left)
  qed
  ultimately show ?thesis by (simp add: records_safe_def list_all_iff)
qed

lemma stitch_block_split:
  assumes "stitch_block carry block = (batch, carry')"
  shows "batch @ carry' = carry @ block" "NTFS_RECORD_SIZE dvd length batch" "length carry' < NTFS_RECORD_SIZE"
proof -
  let ?bytes = "carry @ block" let ?full = "length ?bytes div NTFS_RECORD_SIZE * NTFS_RECORD_SIZE"
  have "batch @ carry' = carry @ block \<and> NTFS_RECORD_SIZE dvd length batch \<and> length carry' < NTFS_RECORD_SIZE"
  proof (cases "carry = [] \<and> length block mod NTFS_RECORD_SIZE = 0")
    case True
    then show ?thesis using assms by (auto simp: stitch_block_def NTFS_RECORD_SIZE_def)
  next
    case False
    then have eq: "batch = take ?full ?bytes" "carry' = drop ?full ?bytes"
      using assms by (auto simp: stitch_block_def Let_def)
    have "length carry' = length ?bytes mod NTFS_RECORD_SIZE"
      unfolding eq by (simp only: length_drop minus_div_mult_eq_mod)
    moreover have "length batch = ?full" unfolding eq by (simp only: length_take min_absorb2 div_times_less_eq_dividend)
    moreover have "batch @ carry' = ?bytes" unfolding eq by (rule append_take_drop_id)
    moreover have "(0::nat) < NTFS_RECORD_SIZE" by (simp add: NTFS_RECORD_SIZE_def)
    ultimately show ?thesis by simp
  qed
  then show "batch @ carry' = carry @ block" "NTFS_RECORD_SIZE dvd length batch" "length carry' < NTFS_RECORD_SIZE" by blast+
qed

lemma collect_parser_thread:
  assumes "length carry < NTFS_RECORD_SIZE" "[] \<notin> set (butlast blocks)"
    and "records_safe (apply_mft_fixups s (carry @ concat blocks))"
  shows "collect_messages (parser_thread workers s carry p (map Inr blocks))
    = parse_record_range (apply_mft_fixups s (carry @ concat blocks)) 0 (length (carry @ concat blocks) div NTFS_RECORD_SIZE)"
  using assms
proof (induction blocks arbitrary: carry p)
  case Nil
  then show ?case by (simp add: parse_record_range_def)
next
  case (Cons block blocks)
  show ?case
  proof (cases "block = []")
    case True
    then have "blocks = []" using Cons.prems(2) by (auto split: if_splits)
    then show ?thesis using True Cons.prems(1) by (simp add: parse_record_range_def)
  next
    case False
    obtain batch carry' where st: "stitch_block carry block = (batch, carry')" by force
    note split = stitch_block_split [OF st]
    let ?F = "apply_mft_fixups s" and ?k = "length batch div NTFS_RECORD_SIZE"
    let ?rest = "carry' @ concat blocks" let ?m = "length ?rest div NTFS_RECORD_SIZE"
    have bytes: "carry @ concat (block # blocks) = batch @ ?rest" using split(1) by simp
    have F: "?F (batch @ ?rest) = ?F batch @ ?F ?rest" by (rule apply_mft_fixups_append [OF split(2)])
    have safe: "records_safe (?F batch)" "records_safe (?F ?rest)"
      using records_safe_append [of "?F batch" "?F ?rest"] Cons.prems(3) split(2) unfolding bytes F by simp_all
    have "[] \<notin> set (butlast blocks)" using Cons.prems(2) by (auto split: if_splits)
    note IH = Cons.IH [OF split(3) this safe(2)]
    have batch: "fixup_and_parse_batch batch ?k workers s = parse_range (?F batch) [0..<?k]"
      using fixup_batch_workers [OF _ safe(1), of ?k workers] split(2) by (simp add: parse_record_range_def)
    have ok: "parse_range (?F batch) [0..<?k] \<noteq> Inl Panicked"
      using parse_range_no_panic [OF safe(1), of "[0..<?k]"] by (simp add: atLeast0LessThan)
    have whole: "parse_record_range (?F (batch @ ?rest)) 0 (length (batch @ ?rest) div NTFS_RECORD_SIZE)
        = rbind (parse_range (?F batch) [0..<?k]) (\<lambda>(es, exts).
            rbind (parse_range (?F ?rest) [0..<?m]) (\<lambda>(es', exts'). Inr (es @ es', exts @ exts')))"
      using parse_table_append [of "?F batch" "?F ?rest"] split(2)
      by (simp only: F length_div_append [OF split(2)] parse_record_range_def length_apply_mft_fixups)
    show ?thesis
    proof (cases "parse_range (?F batch) [0..<?k]")
      case (Inl e)
      then have "e \<noteq> Panicked" using ok by simp
      then show ?thesis unfolding bytes whole using False Inl by (cases e) (simp_all add: st batch)
    next
      case (Inr r)
      obtain es exts where "r = (es, exts)" by force
      then show ?thesis unfolding bytes whole using False Inr IH
        by (simp add: st batch parse_record_range_def Let_def)
    qed
  qed
qed

end
