(* ===== verification/Stream_Paths.thy ===== *)
theory Stream_Paths
  imports Ntfs_Stream
begin

text \<open>
  What the streaming scan promises about directories: each is emitted exactly once, under the path its chain of
  parents gives it, whatever the order in which the records arrive.
\<close>

section \<open>The specification\<close>

text \<open>
  The links of a table: directory, parent, name. A directory resolves to a path when its
  chain of parents ends in the root or in a directory that is not in the table; the latter counts as the root.
  A directory on a cycle, or below one, has no path.
\<close>

type_synonym link = "u64 \<times> u64 option \<times> string"

definition entry_link :: "parsed_entry \<Rightarrow> link" where
  "entry_link e = (e_file_id e, e_parent_directory_id e, e_name e)"

definition link_parent :: "u64 \<Rightarrow> u64 option \<Rightarrow> u64" where
  "link_parent i p = (case p of Some q \<Rightarrow> if q \<noteq> i then q else 5 | None \<Rightarrow> 5)"

lemma normalized_parent_link: "normalized_parent e = link_parent (e_file_id e) (e_parent_directory_id e)"
  by (simp add: normalized_parent_def link_parent_def NTFS_ROOT_RECORD_def split: option.split)

inductive resolves_to :: "link list \<Rightarrow> string \<Rightarrow> u64 \<Rightarrow> string \<Rightarrow> bool" for G root where
  root: "resolves_to G root 5 root"
| missing: "(i, p, n) \<in> set G \<Longrightarrow> link_parent i p \<notin> insert 5 (fst ` set G) \<Longrightarrow> resolves_to G root i (ntfs_join_path root n)"
| child: "(i, p, n) \<in> set G \<Longrightarrow> resolves_to G root (link_parent i p) q \<Longrightarrow> resolves_to G root i (ntfs_join_path q n)"

inductive_cases resolves_toE: "resolves_to G root i q"

definition links_ok :: "link list \<Rightarrow> bool" where
  "links_ok G \<longleftrightarrow> distinct (map fst G) \<and> 5 \<notin> fst ` set G"

lemma links_ok_unique: "links_ok G \<Longrightarrow> (i, p, n) \<in> set G \<Longrightarrow> (i, p', n') \<in> set G \<Longrightarrow> p = p' \<and> n = n'"
  using eq_key_imp_eq_value [of "map snd G"] by (metis links_ok_def eq_key_imp_eq_value Pair_inject)

lemma resolves_to_known: "resolves_to G root i q \<Longrightarrow> i \<in> insert 5 (fst ` set G)"
  by (erule resolves_toE) force+

lemma resolves_to_entry:
  assumes "links_ok G" "(i, p, n) \<in> set G" "resolves_to G root i q"
  shows "link_parent i p \<notin> insert 5 (fst ` set G) \<and> q = ntfs_join_path root n
    \<or> (\<exists>r. resolves_to G root (link_parent i p) r \<and> q = ntfs_join_path r n)"
  using assms(3)
proof (cases rule: resolves_to.cases)
  case root
  then show ?thesis using assms(1,2) by (force simp: links_ok_def)
next
  case (missing p' n')
  then show ?thesis using links_ok_unique [OF assms(1,2), of p' n'] by auto
next
  case (child p' n' r)
  then show ?thesis using links_ok_unique [OF assms(1,2), of p' n'] by auto
qed

section \<open>The invariant\<close>

definition found_directories :: "scan_event list \<Rightarrow> directory_record list" where
  "found_directories events = concat (map (\<lambda>ev. case ev of DirectoryFound d \<Rightarrow> [d] | _ \<Rightarrow> []) events)"

lemma found_directories_simps [simp]:
  "found_directories [] = []"
  "found_directories (DirectoryFound d # ev) = d # found_directories ev"
  "found_directories (FileFound f # ev) = found_directories ev"
  "found_directories (ev1 @ ev2) = found_directories ev1 @ found_directories ev2"
  by (simp_all add: found_directories_def)

definition found_of :: "stream_state \<Rightarrow> parsed_entry list \<Rightarrow> directory_record list" where
  "found_of s emitted = map (\<lambda>e. stream_directory e (the (ns_resolved_paths s (e_file_id e)))) emitted"

definition known_entries :: "parsed_entry list \<Rightarrow> stream_state \<Rightarrow> link multiset" where
  "known_entries emitted s = image_mset entry_link (mset emitted + mset (ns_cascade s) + mset (waiting_entries s))"

text \<open>An entry whose path may be fixed now: its parent is resolved, or will never be.\<close>

definition ready :: "link list \<Rightarrow> string \<Rightarrow> stream_state \<Rightarrow> parsed_entry \<Rightarrow> bool" where
  "ready G root s e \<longleftrightarrow> ns_resolved_paths s (normalized_parent e) \<noteq> None
     \<or> normalized_parent e \<notin> insert 5 (fst ` set G) \<or> (\<forall>q. \<not> resolves_to G root (e_file_id e) q)"

definition stream_inv :: "link list \<Rightarrow> string \<Rightarrow> parsed_entry list \<Rightarrow> stream_state \<Rightarrow> bool" where
  "stream_inv G root emitted s \<longleftrightarrow>
     ns_root_text s = root
   \<and> known_entries emitted s \<subseteq># mset G
   \<and> dom (ns_resolved_paths s) = insert 5 (e_file_id ` set emitted)
   \<and> distinct (map fst (ns_orphan_dirs s))
   \<and> (\<forall>k es. map_of (ns_orphan_dirs s) k = Some es \<longrightarrow>
        ns_resolved_paths s k = None \<and> (\<forall>e\<in>set es. normalized_parent e = k))
   \<and> (\<forall>i p q. ns_resolved_paths s i = Some p \<longrightarrow> resolves_to G root i q \<longrightarrow> p = q)
   \<and> (\<forall>e\<in>set (ns_cascade s). ready G root s e)"

lemma hm_remove_values:
  "distinct (map fst m) \<Longrightarrow> map_of m k = Some es \<Longrightarrow>
   mset (concat (map snd m)) = mset es + mset (concat (map snd (hm_remove k m)))"
proof (induction m)
  case (Cons a m)
  have "k \<notin> fst ` set m \<Longrightarrow> hm_remove k m = m" by (auto simp: hm_remove_def filter_id_conv image_iff split: prod.splits)
  with Cons show ?case by (cases a) (auto simp: hm_remove_def)
qed simp

lemma hm_remove_none: "map_of m k = None \<Longrightarrow> hm_remove k m = m"
  by (auto simp: hm_remove_def filter_id_conv map_of_eq_None_iff image_iff split: prod.splits)

lemma distinct_hm_remove: "distinct (map fst m) \<Longrightarrow> distinct (map fst (hm_remove k m))"
  by (auto simp: hm_remove_def distinct_map intro: inj_on_subset)

lemma distinct_submset:
  assumes "mset ys \<subseteq># mset xs" "distinct xs"
  shows "distinct ys"
proof -
  obtain C zs where "mset xs = mset ys + C" "mset zs = C" using assms(1) by (metis mset_subset_eq_exists_conv ex_mset)
  then have "mset xs = mset (ys @ zs)" by simp
  then show ?thesis using assms(2) mset_eq_imp_distinct_iff [of xs "ys @ zs"] by simp
qed

lemma emit_directory_inv:
  assumes ok: "links_ok G" and inv: "stream_inv G root emitted s" and cascade: "ns_cascade s = cs @ [e]"
  defines "s' \<equiv> emit_directory e (s\<lparr>ns_cascade := cs\<rparr>)"
  shows "stream_inv G root (emitted @ [e]) s' \<and> known_entries (emitted @ [e]) s' = known_entries emitted s
    \<and> found_of s' (emitted @ [e]) = found_of s emitted @ [stream_directory e (entry_path (s\<lparr>ns_cascade := cs\<rparr>) e)]"
proof -
  let ?s1 = "s\<lparr>ns_cascade := cs\<rparr>"
  let ?children = "case map_of (ns_orphan_dirs s) (e_file_id e) of Some children \<Rightarrow> children | None \<Rightarrow> []"
  have known: "known_entries (emitted @ [e]) s' = known_entries emitted s"
    using inv hm_remove_values [of "ns_orphan_dirs s" "e_file_id e"] hm_remove_none [of "ns_orphan_dirs s" "e_file_id e"]
    by (auto simp: known_entries_def s'_def emit_directory_def waiting_entries_def hm_values_def cascade stream_inv_def
        split: option.splits)
  have sub: "known_entries emitted s \<subseteq># mset G" using inv by (simp add: stream_inv_def)
  have emitted: "image_mset entry_link (add_mset e (mset emitted)) \<subseteq># mset G"
    using sub by (rule subset_mset.trans [rotated]) (simp add: known_entries_def cascade)
  have inG: "entry_link e \<in> set G" "entry_link ` set emitted \<subseteq> set G"
    using mset_subset_eqD [OF emitted] by auto
  then have eG: "(e_file_id e, e_parent_directory_id e, e_name e) \<in> set G" by (simp add: entry_link_def)
  have "distinct (map fst (map entry_link (e # emitted)))"
  proof -
    have "image_mset fst (image_mset entry_link (add_mset e (mset emitted))) \<subseteq># image_mset fst (mset G)"
      by (rule image_mset_subseteq_mono [OF emitted])
    moreover have "image_mset fst (image_mset entry_link (add_mset e (mset emitted))) = mset (map fst (map entry_link (e # emitted)))"
      by (simp add: multiset.map_comp)
    moreover have "distinct (map fst G)" using ok by (simp add: links_ok_def)
    ultimately show ?thesis using distinct_submset [of "map fst (map entry_link (e # emitted))" "map fst G"] by simp
  qed
  then have fresh: "e_file_id e \<notin> e_file_id ` set emitted" by (auto simp: entry_link_def)
  have id5: "e_file_id e \<noteq> 5" using ok eG by (force simp: links_ok_def)
  have path: "entry_path ?s1 e = q" if res: "resolves_to G root (e_file_id e) q" for q
  proof (cases "ns_resolved_paths s (normalized_parent e)")
    case None
    then have "normalized_parent e \<notin> insert 5 (fst ` set G)"
      using inv res by (auto simp: stream_inv_def ready_def cascade)
    then have "q = ntfs_join_path root (e_name e)"
      using resolves_to_entry [OF ok eG res, folded normalized_parent_link] resolves_to_known by blast
    then show ?thesis using None inv by (simp add: entry_path_def stream_inv_def)
  next
    case (Some p)
    have "dom (ns_resolved_paths s) = insert 5 (e_file_id ` set emitted)" using inv by (simp add: stream_inv_def)
    moreover have "e_file_id ` set emitted \<subseteq> fst ` set G" using inG(2) by (force simp: entry_link_def)
    ultimately have "normalized_parent e \<in> insert 5 (fst ` set G)" using Some by blast
    then obtain r where "resolves_to G root (normalized_parent e) r" "q = ntfs_join_path r (e_name e)"
      using resolves_to_entry [OF ok eG res, folded normalized_parent_link] by blast
    moreover from this(1) have "p = r" using Some inv unfolding stream_inv_def by blast
    ultimately show ?thesis using Some by (simp add: entry_path_def)
  qed
  have found: "found_of s' (emitted @ [e]) = found_of s emitted @ [stream_directory e (entry_path ?s1 e)]"
    using fresh by (auto simp: found_of_def s'_def emit_directory_def) (metis imageI)
  have "stream_inv G root (emitted @ [e]) s'"
    unfolding stream_inv_def
  proof (intro conjI)
    show "ns_root_text s' = root" using inv by (simp add: s'_def emit_directory_def stream_inv_def)
    show "known_entries (emitted @ [e]) s' \<subseteq># mset G" using sub known by simp
    show "dom (ns_resolved_paths s') = insert 5 (e_file_id ` set (emitted @ [e]))"
      using inv by (auto simp: s'_def emit_directory_def stream_inv_def)
    show "distinct (map fst (ns_orphan_dirs s'))"
      using inv distinct_hm_remove by (auto simp: s'_def emit_directory_def stream_inv_def)
    show "\<forall>k es. map_of (ns_orphan_dirs s') k = Some es \<longrightarrow>
        ns_resolved_paths s' k = None \<and> (\<forall>e\<in>set es. normalized_parent e = k)"
      using inv by (auto simp: s'_def emit_directory_def stream_inv_def)
    show "\<forall>i p q. ns_resolved_paths s' i = Some p \<longrightarrow> resolves_to G root i q \<longrightarrow> p = q"
      using inv path by (auto simp: s'_def emit_directory_def stream_inv_def)
    have "ready G root s' c" if "c \<in> set cs" for c
      using inv that by (auto simp: stream_inv_def ready_def cascade s'_def emit_directory_def)
    moreover have "ready G root s' c" if "c \<in> set ?children" for c
      using inv that by (auto simp: stream_inv_def ready_def s'_def emit_directory_def split: option.splits)
    ultimately show "\<forall>e\<in>set (ns_cascade s'). ready G root s' e"
      by (auto simp: s'_def emit_directory_def)
  qed
  with known found show ?thesis by blast
qed

text \<open>One method keeps the invariant, reports what it emitted and takes in \<open>news\<close>.\<close>

definition stream_step ::
  "link list \<Rightarrow> string \<Rightarrow> parsed_entry list \<Rightarrow> stream_state \<Rightarrow> link multiset \<Rightarrow> parsed_entry list \<Rightarrow> streamed \<Rightarrow> bool" where
  "stream_step G root emitted s news emitted' r \<longleftrightarrow>
     stream_inv G root emitted' (fst r) \<and> known_entries emitted' (fst r) = known_entries emitted s + news
   \<and> found_of (fst r) emitted' = found_of s emitted @ found_directories (snd r)"

lemma stream_step_trans:
  "stream_step G root em s news em' (s', ev) \<Longrightarrow> stream_step G root em' s' news' em'' (s'', ev') \<Longrightarrow>
   stream_step G root em s (news + news') em'' (s'', ev @ ev')"
  by (simp add: stream_step_def)

lemma drain_cascade_step:
  "links_ok G \<Longrightarrow> stream_inv G root emitted s \<Longrightarrow>
   \<exists>emitted'. stream_step G root emitted s {#} emitted' (drain_cascade s) \<and> ns_cascade (fst (drain_cascade s)) = []"
proof (induction s arbitrary: emitted rule: drain_cascade.induct)
  case (1 s)
  show ?case
  proof (cases "ns_cascade s = []")
    case True
    then have "drain_cascade s = (s, [])" by (simp add: drain_cascade.simps)
    then show ?thesis using True "1.prems" by (auto simp: stream_step_def)
  next
    case False
    define e where "e = last (ns_cascade s)"
    define s1 where "s1 = s\<lparr>ns_cascade := butlast (ns_cascade s)\<rparr>"
    have c: "ns_cascade s = butlast (ns_cascade s) @ [e]" using False by (simp add: e_def)
    note one = emit_directory_inv [OF "1.prems" c, folded s1_def]
    then obtain emitted' where rest: "stream_step G root (emitted @ [e]) (emit_directory e s1) {#} emitted' (drain_cascade (emit_directory e s1))"
        "ns_cascade (fst (drain_cascade (emit_directory e s1))) = []"
      using "1.IH" [OF False e_def s1_def, of "emitted @ [e]"] "1.prems"(1) by blast
    have "drain_cascade s = (fst (drain_cascade (emit_directory e s1)),
        DirectoryFound (stream_directory e (entry_path s1 e)) # snd (drain_cascade (emit_directory e s1)))"
      using False by (subst drain_cascade.simps) (simp add: Let_def case_prod_unfold flip: e_def s1_def)
    moreover have "stream_step G root emitted s {#} (emitted @ [e])
        (emit_directory e s1, [DirectoryFound (stream_directory e (entry_path s1 e))])"
      using one by (simp add: stream_step_def)
    ultimately show ?thesis
      using stream_step_trans [of G root emitted s "{#}" "emitted @ [e]" "emit_directory e s1"
          "[DirectoryFound (stream_directory e (entry_path s1 e))]" "{#}" emitted'] rest
      by (metis add_0 append_Cons append_Nil prod.collapse fst_conv)
  qed
qed

lemma known_entries_cong:
  "ns_cascade s' = ns_cascade s \<Longrightarrow> ns_orphan_dirs s' = ns_orphan_dirs s \<Longrightarrow> known_entries em s' = known_entries em s"
  by (simp add: known_entries_def waiting_entries_def)

text \<open>Methods that leave the directories alone.\<close>

lemma stream_step_idle:
  assumes "stream_inv G root em s" "found_directories ev = []"
    "ns_root_text s' = ns_root_text s" "ns_resolved_paths s' = ns_resolved_paths s"
    "ns_orphan_dirs s' = ns_orphan_dirs s" "ns_cascade s' = ns_cascade s"
  shows "stream_step G root em s {#} em (s', ev)"
proof -
  have "stream_inv G root em s'"
    using assms(1) unfolding stream_inv_def ready_def assms(3-6) known_entries_cong [OF assms(6,5)] .
  then show ?thesis by (simp add: stream_step_def assms(2,4) found_of_def known_entries_cong [OF assms(6,5)])
qed

lemma ingest_extension_step:
  assumes "stream_inv G root em s"
  shows "stream_step G root em s {#} em (ingest_extension s x)"
    "ns_cascade (fst (ingest_extension s x)) = ns_cascade s"
  using stream_step_idle [OF assms]
  by (auto simp: ingest_extension_def Let_def split: option.splits)

lemma hm_insert_waiting:
  assumes "distinct (map fst m)"
  shows "mset (concat (map snd (hm_insert k ((case map_of m k of Some es \<Rightarrow> es | None \<Rightarrow> []) @ [e]) m)))
    = add_mset e (mset (concat (map snd m)))"
  using assms
proof (induction m)
  case (Cons a m)
  then show ?case by (cases "fst a = k") (auto simp: hm_insert_def map_of_eq_None_iff split: option.splits)
qed (simp add: hm_insert_def)

lemma ingest_directory_step:
  assumes ok: "links_ok G" and inv: "stream_inv G root em s" and c: "ns_cascade s = []"
    and new: "add_mset (entry_link e) (known_entries em s) \<subseteq># mset G"
  shows "\<exists>em'. stream_step G root em s {#entry_link e#} em' (ingest_directory s e)
    \<and> ns_cascade (fst (ingest_directory s e)) = []"
proof (cases "ns_resolved_paths s (normalized_parent e) = None")
  case True
  let ?s' = "s\<lparr>ns_orphan_dirs := hm_insert (normalized_parent e)
      ((case map_of (ns_orphan_dirs s) (normalized_parent e) of Some es \<Rightarrow> es | None \<Rightarrow> []) @ [e]) (ns_orphan_dirs s)\<rparr>"
  have run: "ingest_directory s e = (?s', [])" using True by (simp add: ingest_directory_def Let_def)
  have known: "known_entries em ?s' = known_entries em s + {#entry_link e#}"
    using hm_insert_waiting [of "ns_orphan_dirs s" "normalized_parent e" e] inv
    by (simp add: known_entries_def waiting_entries_def hm_values_def stream_inv_def)
  have "stream_inv G root em ?s'"
    unfolding stream_inv_def known
    using inv new True c
    by (auto simp: stream_inv_def ready_def hm_insert_def update_conv' distinct_update split: option.splits if_splits)
  then have "stream_step G root em s {#entry_link e#} em (?s', [])" using known by (simp add: stream_step_def found_of_def)
  then show ?thesis using run c by auto
next
  case False
  let ?s' = "s\<lparr>ns_cascade := ns_cascade s @ [e]\<rparr>"
  have run: "ingest_directory s e = drain_cascade ?s'" using False by (simp add: ingest_directory_def Let_def)
  have known: "known_entries em ?s' = known_entries em s + {#entry_link e#}"
    by (simp add: known_entries_def waiting_entries_def c)
  have inv': "stream_inv G root em ?s'"
    using inv new False c known by (auto simp: stream_inv_def ready_def)
  obtain em' where d: "stream_step G root em ?s' {#} em' (drain_cascade ?s')" "ns_cascade (fst (drain_cascade ?s')) = []"
    using drain_cascade_step [OF ok inv'] by blast
  have "stream_step G root em s {#entry_link e#} em' (drain_cascade ?s')"
    using d(1) known by (simp add: stream_step_def found_of_def)
  then show ?thesis using d(2) run by auto
qed

definition is_subdirectory :: "parsed_entry \<Rightarrow> bool" where
  "is_subdirectory e \<longleftrightarrow> e_is_directory e \<and> e_file_id e \<noteq> 5"

lemma take_pending_facts:
  assumes "take_pending s e = (s', e')"
  shows "entry_link e' = entry_link e" "is_subdirectory e' = is_subdirectory e" "e_is_directory e' = e_is_directory e"
    "e_file_id e' = e_file_id e"
    "stream_inv G root em s \<Longrightarrow> stream_step G root em s {#} em (s', [])" "ns_cascade s' = ns_cascade s"
  using assms stream_step_idle [of G root em s "[]"]
  by (auto simp: take_pending_def entry_link_def merge_sizes_def normalized_parent_link is_subdirectory_def split: option.splits)

lemma emit_file_step:
  assumes "stream_inv G root em s"
  shows "stream_step G root em s {#} em (emit_file s e)" "ns_cascade (fst (emit_file s e)) = ns_cascade s"
  using stream_step_idle [OF assms] by (auto simp: emit_file_def Let_def)

lemma ingest_entry_step:
  assumes ok: "links_ok G" and inv: "stream_inv G root em s" "ns_cascade s = []"
    and new: "(if is_subdirectory e then {#entry_link e#} else {#}) + known_entries em s \<subseteq># mset G"
  shows "\<exists>em'. stream_step G root em s (if is_subdirectory e then {#entry_link e#} else {#}) em' (ingest_entry s e)
    \<and> ns_cascade (fst (ingest_entry s e)) = []"
proof -
  obtain s1 e1 where t: "take_pending s e = (s1, e1)" by force
  note facts = take_pending_facts [OF t]
  have s1: "stream_inv G root em s1" "known_entries em s1 = known_entries em s" "found_of s1 em = found_of s em" "ns_cascade s1 = []"
    using facts(5) [OF inv(1)] facts(6) inv(2) by (simp_all add: stream_step_def)
  show ?thesis
  proof (cases "is_subdirectory e")
    case True
    then have run: "ingest_entry s e = ingest_directory s1 e1"
      using facts by (simp add: ingest_entry_def t is_subdirectory_def NTFS_ROOT_RECORD_def)
    obtain em' where "stream_step G root em s1 {#entry_link e1#} em' (ingest_directory s1 e1)"
        "ns_cascade (fst (ingest_directory s1 e1)) = []"
      using ingest_directory_step [OF ok s1(1,4), of e1] new True facts(1) s1(2) by auto
    then show ?thesis using True run facts(1) s1 by (auto simp: stream_step_def)
  next
    case False
    then consider "ingest_entry s e = (s1, [])" | "ingest_entry s e = emit_file s1 e1"
      using facts by (auto simp: ingest_entry_def t is_subdirectory_def NTFS_ROOT_RECORD_def)
    then show ?thesis
    proof cases
      case 1
      then show ?thesis using False facts(5) [OF inv(1)] s1 by auto
    next
      case 2
      then show ?thesis using False emit_file_step [OF s1(1), of e1] s1 by (auto simp: stream_step_def)
    qed
  qed
qed

definition new_links :: "parsed_entry list \<Rightarrow> link list" where
  "new_links es = map entry_link (filter is_subdirectory es)"

lemma ingest_entries_step:
  assumes "links_ok G" "stream_inv G root em s" "ns_cascade s = []" "mset (new_links es) + known_entries em s \<subseteq># mset G"
  shows "\<exists>em'. stream_step G root em s (mset (new_links es)) em' (ingest_entries s es) \<and> ns_cascade (fst (ingest_entries s es)) = []"
  using assms(2-4)
proof (induction es arbitrary: s em)
  case Nil
  then show ?case by (simp add: stream_step_def new_links_def exI [of _ em])
next
  case (Cons e es)
  let ?n = "if is_subdirectory e then {#entry_link e#} else {#}"
  have n: "mset (new_links (e # es)) = ?n + mset (new_links es)" by (simp add: new_links_def)
  have "?n + known_entries em s \<subseteq># mset G"
    using Cons.prems(3) unfolding n by (rule subset_mset.trans [rotated]) simp
  then obtain em1 where one: "stream_step G root em s ?n em1 (ingest_entry s e)" "ns_cascade (fst (ingest_entry s e)) = []"
    using ingest_entry_step [OF assms(1) Cons.prems(1,2)] by blast
  have known: "known_entries em1 (fst (ingest_entry s e)) = known_entries em s + ?n" using one(1) by (simp add: stream_step_def)
  have "mset (new_links es) + known_entries em1 (fst (ingest_entry s e)) \<subseteq># mset G"
    using Cons.prems(3) unfolding n known by (simp add: ac_simps)
  then obtain em2 where two: "stream_step G root em1 (fst (ingest_entry s e)) (mset (new_links es)) em2 (ingest_entries (fst (ingest_entry s e)) es)"
      "ns_cascade (fst (ingest_entries (fst (ingest_entry s e)) es)) = []"
    using Cons.IH one by (meson stream_step_def)
  have "ingest_entries s (e # es) = (fst (ingest_entries (fst (ingest_entry s e)) es),
      snd (ingest_entry s e) @ snd (ingest_entries (fst (ingest_entry s e)) es))"
    by (simp add: Let_def case_prod_unfold)
  then show ?case
    using stream_step_trans [of G root em s ?n em1 "fst (ingest_entry s e)" "snd (ingest_entry s e)"] one(1) two n
    by (metis prod.collapse fst_conv)
qed

lemma ingest_extensions_step:
  assumes "stream_inv G root em s" "ns_cascade s = []"
  shows "stream_step G root em s {#} em (ingest_extensions s xs) \<and> ns_cascade (fst (ingest_extensions s xs)) = []"
  using assms
proof (induction xs arbitrary: s)
  case (Cons x xs)
  let ?s1 = "fst (ingest_extension s x)"
  have one: "stream_step G root em s {#} em (?s1, snd (ingest_extension s x))" "ns_cascade ?s1 = []"
    using ingest_extension_step [OF Cons.prems(1), of x] Cons.prems(2) by simp_all
  then have two: "stream_step G root em ?s1 {#} em (fst (ingest_extensions ?s1 xs), snd (ingest_extensions ?s1 xs))"
      "ns_cascade (fst (ingest_extensions ?s1 xs)) = []"
    using Cons.IH [of ?s1] by (simp_all add: stream_step_def)
  show ?case using stream_step_trans [OF one(1) two(1)] two(2) by (simp add: Let_def case_prod_unfold)
qed (simp add: stream_step_def)

definition batch_links :: "(parsed_entry list \<times> extension_sizes list) list \<Rightarrow> link list" where
  "batch_links batches = concat (map (new_links \<circ> fst) batches)"

lemma ingest_batches_step:
  assumes "links_ok G" "stream_inv G root em s" "ns_cascade s = []" "mset (batch_links bs) + known_entries em s \<subseteq># mset G"
  shows "\<exists>em'. stream_step G root em s (mset (batch_links bs)) em' (ingest_batches s bs) \<and> ns_cascade (fst (ingest_batches s bs)) = []"
  using assms(2-4)
proof (induction bs arbitrary: s em)
  case Nil
  then show ?case by (simp add: stream_step_def batch_links_def exI [of _ em])
next
  case (Cons b bs)
  obtain es xs where b: "b = (es, xs)" by force
  let ?s1 = "fst (ingest_entries s es)" let ?s2 = "fst (ingest_extensions ?s1 xs)"
  have n: "mset (batch_links (b # bs)) = mset (new_links es) + mset (batch_links bs)" by (simp add: batch_links_def b)
  have "mset (new_links es) + known_entries em s \<subseteq># mset G"
    using Cons.prems(3) unfolding n by (rule subset_mset.trans [rotated]) simp
  then obtain em1 where one: "stream_step G root em s (mset (new_links es)) em1 (ingest_entries s es)" "ns_cascade ?s1 = []"
    using ingest_entries_step [OF assms(1) Cons.prems(1,2)] by blast
  then have two: "stream_step G root em1 ?s1 {#} em1 (ingest_extensions ?s1 xs)" "ns_cascade ?s2 = []"
    using ingest_extensions_step [of G root em1 ?s1 xs] by (simp_all add: stream_step_def)
  have both: "stream_step G root em s (mset (new_links es)) em1 (?s2, snd (ingest_entries s es) @ snd (ingest_extensions ?s1 xs))"
    using stream_step_trans [of G root em s "mset (new_links es)" em1 ?s1 "snd (ingest_entries s es)" "{#}" em1 ?s2
        "snd (ingest_extensions ?s1 xs)"] one(1) two(1) by simp
  then have "mset (batch_links bs) + known_entries em1 ?s2 \<subseteq># mset G" "stream_inv G root em1 ?s2"
    using Cons.prems(3) unfolding n by (simp_all add: stream_step_def ac_simps)
  then obtain em2 where three: "stream_step G root em1 ?s2 (mset (batch_links bs)) em2 (ingest_batches ?s2 bs)"
      "ns_cascade (fst (ingest_batches ?s2 bs)) = []"
    using Cons.IH two(2) by blast
  have "ingest_batches s (b # bs) = (fst (ingest_batches ?s2 bs),
      (snd (ingest_entries s es) @ snd (ingest_extensions ?s1 xs)) @ snd (ingest_batches ?s2 bs))"
    by (simp add: b Let_def case_prod_unfold)
  then show ?case
    using stream_step_trans [OF both, of "mset (batch_links bs)" em2 "fst (ingest_batches ?s2 bs)" "snd (ingest_batches ?s2 bs)"]
      three n by (metis prod.collapse fst_conv)
qed

section \<open>The last pass\<close>

lemma map_of_waiting:
  "distinct (map fst m) \<Longrightarrow> x \<in> set (concat (map snd m)) \<longleftrightarrow> (\<exists>k es. map_of m k = Some es \<and> x \<in> set es)"
  by (force simp: map_of_eq_Some_iff)

lemma waiting_iff:
  "stream_inv G root em s \<Longrightarrow>
   x \<in> set (waiting_entries s) \<longleftrightarrow> (\<exists>es. map_of (ns_orphan_dirs s) (normalized_parent x) = Some es \<and> x \<in> set es)"
proof -
  assume inv: "stream_inv G root em s"
  then have "x \<in> set (waiting_entries s) \<longleftrightarrow> (\<exists>k es. map_of (ns_orphan_dirs s) k = Some es \<and> x \<in> set es)"
    unfolding waiting_entries_def hm_values_def by (intro map_of_waiting) (simp add: stream_inv_def)
  moreover have "k = normalized_parent x" if "map_of (ns_orphan_dirs s) k = Some es" "x \<in> set es" for k es
    using inv that by (auto simp: stream_inv_def)
  ultimately show "x \<in> set (waiting_entries s) \<longleftrightarrow> (\<exists>es. map_of (ns_orphan_dirs s) (normalized_parent x) = Some es \<and> x \<in> set es)"
    by blast
qed

text \<open>When every bucket waits for a waiting directory, nothing that waits has a path.\<close>

lemma cycle_unresolved:
  assumes ok: "links_ok G" and inv: "stream_inv G root em s"
    and all: "known_entries em s = mset G" "ns_cascade s = []"
    and cyc: "\<forall>k \<in> fst ` set (ns_orphan_dirs s). k \<in> e_file_id ` set (waiting_entries s)"
  shows "resolves_to G root i q \<Longrightarrow> i \<notin> e_file_id ` set (waiting_entries s)"
proof -
  let ?W = "set (waiting_entries s)"
  have W: "entry_link ` ?W \<subseteq> set G"
    using arg_cong [OF all(1), of set_mset] by (auto simp: known_entries_def)
  have ids: "e_file_id ` ?W \<subseteq> fst ` set G"
    using image_mono [OF W, of fst] by (simp add: image_image entry_link_def)
  have par: "link_parent i p = normalized_parent e" if "(i, p, n) \<in> set G" "e \<in> ?W" "e_file_id e = i" for i p n e
  proof -
    have "(i, e_parent_directory_id e, e_name e) \<in> set G" using W that(2,3) by (auto simp: entry_link_def)
    then show ?thesis using links_ok_unique [OF ok that(1)] that(3) by (simp add: normalized_parent_link)
  qed
  have key: "normalized_parent e \<in> e_file_id ` ?W" if e: "e \<in> ?W" for e
  proof -
    obtain es where "map_of (ns_orphan_dirs s) (normalized_parent e) = Some es" using waiting_iff [OF inv, of e] e by blast
    then have "normalized_parent e \<in> fst ` set (ns_orphan_dirs s)" by (force dest: map_of_SomeD)
    with cyc show ?thesis by blast
  qed
  show "resolves_to G root i q \<Longrightarrow> i \<notin> e_file_id ` ?W"
  proof (induction rule: resolves_to.induct)
    case root
    then show ?case using ids ok by (auto simp: links_ok_def)
  next
    case (missing i p n)
    show ?case
    proof
      assume "i \<in> e_file_id ` ?W"
      then obtain e where "e \<in> ?W" "e_file_id e = i" by blast
      then show False using par [OF missing.hyps(1)] key [of e] ids missing.hyps(2) by auto
    qed
  next
    case (child i p n q)
    show ?case
    proof
      assume "i \<in> e_file_id ` ?W"
      then obtain e where "e \<in> ?W" "e_file_id e = i" by blast
      then show False using par [OF child.hyps(1)] key [of e] child.IH by simp
    qed
  qed
qed

text \<open>A key whose bucket may be released: its children are ready whenever that happens.\<close>

definition releasable :: "link list \<Rightarrow> string \<Rightarrow> stream_state \<Rightarrow> u64 \<Rightarrow> bool" where
  "releasable G root s k \<longleftrightarrow> k \<notin> insert 5 (fst ` set G)
     \<or> (\<forall>es e q. map_of (ns_orphan_dirs s) k = Some es \<longrightarrow> e \<in> set es \<longrightarrow> \<not> resolves_to G root (e_file_id e) q)"

lemma release_bucket_step:
  assumes ok: "links_ok G" and inv: "stream_inv G root em s" "ns_cascade s = []" and rel: "releasable G root s k"
  shows "\<exists>em'. stream_step G root em s {#} em' (release_bucket s k) \<and> ns_cascade (fst (release_bucket s k)) = []"
proof (cases "map_of (ns_orphan_dirs s) k")
  case None
  then show ?thesis using inv by (auto simp: release_bucket_def stream_step_def)
next
  case (Some children)
  let ?s' = "s\<lparr>ns_orphan_dirs := hm_remove k (ns_orphan_dirs s), ns_cascade := ns_cascade s @ children\<rparr>"
  have known: "known_entries em ?s' = known_entries em s"
    using hm_remove_values [of "ns_orphan_dirs s" k children] Some inv
    by (simp add: known_entries_def waiting_entries_def hm_values_def stream_inv_def)
  have "ready G root ?s' e" if "e \<in> set children" for e
    using rel inv Some that unfolding releasable_def ready_def stream_inv_def by auto
  then have "stream_inv G root em ?s'"
    unfolding stream_inv_def known using inv distinct_hm_remove [of "ns_orphan_dirs s" k]
    by (auto simp: stream_inv_def split: if_splits)
  from drain_cascade_step [OF ok this] obtain em' where
    d: "stream_step G root em ?s' {#} em' (drain_cascade ?s')" "ns_cascade (fst (drain_cascade ?s')) = []" by blast
  then have "stream_step G root em s {#} em' (drain_cascade ?s')"
    using known by (simp add: stream_step_def found_of_def)
  then show ?thesis using d(2) by (auto simp: release_bucket_def Some)
qed

lemma release_buckets_step:
  assumes "links_ok G" "stream_inv G root em s" "ns_cascade s = []"
    and "(\<forall>k\<in>set ks. k \<notin> insert 5 (fst ` set G)) \<or> (\<exists>k. ks = [k] \<and> releasable G root s k)"
  shows "\<exists>em'. stream_step G root em s {#} em' (release_buckets s ks) \<and> ns_cascade (fst (release_buckets s ks)) = []"
  using assms(2-4)
proof (induction ks arbitrary: s em)
  case Nil
  then show ?case by (auto simp: stream_step_def)
next
  case (Cons k ks)
  have "releasable G root s k" using Cons.prems(3) by (auto simp: releasable_def)
  then obtain em1 where one: "stream_step G root em s {#} em1 (release_bucket s k)" "ns_cascade (fst (release_bucket s k)) = []"
    using release_bucket_step [OF assms(1) Cons.prems(1,2)] by blast
  have "stream_inv G root em1 (fst (release_bucket s k))" using one(1) by (simp add: stream_step_def)
  moreover have "(\<forall>k\<in>set ks. k \<notin> insert 5 (fst ` set G)) \<or> ks = []" using Cons.prems(3) by auto
  ultimately obtain em2 where
    two: "stream_step G root em1 (fst (release_bucket s k)) {#} em2 (release_buckets (fst (release_bucket s k)) ks)"
      "ns_cascade (fst (release_buckets (fst (release_bucket s k)) ks)) = []"
    using Cons.IH [of em1 "fst (release_bucket s k)"] one(2) by fastforce
  have "release_buckets s (k # ks) = (fst (release_buckets (fst (release_bucket s k)) ks),
      snd (release_bucket s k) @ snd (release_buckets (fst (release_bucket s k)) ks))"
    by (simp add: Let_def case_prod_unfold)
  then show ?case
    using stream_step_trans [of G root em s "{#}" em1 "fst (release_bucket s k)" "snd (release_bucket s k)" "{#}" em2]
      one(1) two by (metis add_0 prod.collapse fst_conv)
qed

lemma stuck_keys_releasable:
  assumes "links_ok G" "stream_inv G root em s" "known_entries em s = mset G" "ns_cascade s = []" "ns_orphan_dirs s \<noteq> []"
  shows "(\<forall>k\<in>set (stuck_keys s). k \<notin> insert 5 (fst ` set G)) \<or> (\<exists>k. stuck_keys s = [k] \<and> releasable G root s k)"
proof -
  let ?waiting = "e_file_id ` set (waiting_entries s)"
  let ?stuck = "filter (\<lambda>key. key \<notin> set (map e_file_id (waiting_entries s))) (map fst (ns_orphan_dirs s))"
  show ?thesis
  proof (cases "?stuck = []")
    case True
    then have cyc: "\<forall>k \<in> fst ` set (ns_orphan_dirs s). k \<in> ?waiting" by (auto simp: filter_empty_conv)
    have "\<not> resolves_to G root (e_file_id e) q" if "map_of (ns_orphan_dirs s) k = Some es" "e \<in> set es" for k es e q
    proof
      assume "resolves_to G root (e_file_id e) q"
      then have "e_file_id e \<notin> ?waiting" by (rule cycle_unresolved [OF assms(1-4) cyc])
      moreover have "e \<in> set (waiting_entries s)"
        using that by (force simp: waiting_entries_def hm_values_def dest: map_of_SomeD)
      ultimately show False by blast
    qed
    then have "releasable G root s k" for k by (auto simp: releasable_def)
    then show ?thesis using True assms(5) by (simp add: stuck_keys_def Let_def)
  next
    case False
    have G: "fst ` set G = e_file_id ` set em \<union> ?waiting"
      using arg_cong [OF assms(3), of "\<lambda>M. fst ` set_mset M"] assms(4)
      by (simp add: known_entries_def image_Un image_image entry_link_def)
    have "k \<notin> insert 5 (fst ` set G)" if "k \<in> set ?stuck" for k
    proof -
      have "k \<in> fst ` set (ns_orphan_dirs s)" "k \<notin> ?waiting" using that by auto
      moreover from this(1) obtain es where "map_of (ns_orphan_dirs s) k = Some es" by (metis map_of_eq_None_iff not_None_eq)
      ultimately have "k \<notin> dom (ns_resolved_paths s)" using assms(2) unfolding stream_inv_def by blast
      then show ?thesis using assms(2) G \<open>k \<notin> ?waiting\<close> by (simp add: stream_inv_def)
    qed
    moreover have "stuck_keys s = sort ?stuck" using False by (auto simp: stuck_keys_def Let_def)
    ultimately show ?thesis by (metis set_sort)
  qed
qed

lemma finish_step:
  assumes "links_ok G"
  shows "stream_inv G root em s \<Longrightarrow> known_entries em s = mset G \<Longrightarrow> ns_cascade s = [] \<Longrightarrow>
    \<exists>em'. stream_step G root em s {#} em' (finish s) \<and> known_entries em' (fst (finish s)) = image_mset entry_link (mset em')"
proof (induction s arbitrary: em rule: finish.induct)
  case (1 s)
  show ?case
  proof (cases "ns_orphan_dirs s = []")
    case True
    then show ?thesis
      using "1.prems" by (auto simp: finish.simps [of s] stream_step_def known_entries_def waiting_entries_def hm_values_def)
  next
    case False
    define s1 where "s1 = fst (release_buckets s (stuck_keys s))"
    define ev1 where "ev1 = snd (release_buckets s (stuck_keys s))"
    have r: "release_buckets s (stuck_keys s) = (s1, ev1)" by (simp add: s1_def ev1_def)
    obtain em1 where one: "stream_step G root em s {#} em1 (s1, ev1)" "ns_cascade s1 = []"
      using release_buckets_step [OF assms "1.prems"(1,3) stuck_keys_releasable [OF assms "1.prems" False]]
      by (auto simp: r)
    then have "stream_inv G root em1 s1" "known_entries em1 s1 = mset G" using "1.prems"(2) by (simp_all add: stream_step_def)
    then obtain em2 where two: "stream_step G root em1 s1 {#} em2 (fst (finish s1), snd (finish s1))"
        "known_entries em2 (fst (finish s1)) = image_mset entry_link (mset em2)"
      using "1.IH" [OF False r [symmetric] refl, of em1] one(2) by auto
    have "finish s = (fst (finish s1), ev1 @ snd (finish s1))"
      using False by (subst finish.simps) (simp add: r case_prod_unfold Let_def)
    then show ?thesis using stream_step_trans [OF one(1) two(1)] two(2) by auto
  qed
qed

section \<open>The whole scan\<close>

lemma stream_root_inv:
  assumes "links_ok G"
  shows "stream_inv G root [] (fst (emit_root (stream_new root)))"
    "known_entries [] (fst (emit_root (stream_new root))) = {#}" "ns_cascade (fst (emit_root (stream_new root))) = []"
proof -
  have "q = root" if "resolves_to G root 5 q" for q
    using that assms by cases (force simp: links_ok_def)+
  then show "stream_inv G root [] (fst (emit_root (stream_new root)))"
    by (auto simp: stream_inv_def emit_root_def stream_new_def NTFS_ROOT_RECORD_def known_entries_def waiting_entries_def
        hm_values_def)
qed (simp_all add: emit_root_def stream_new_def known_entries_def waiting_entries_def hm_values_def)

lemma stream_batches_emitted:
  fixes batches defines "G \<equiv> batch_links batches"
  assumes ok: "links_ok G"
  shows "\<exists>emitted s. mset (map entry_link emitted) = mset G \<and> stream_inv G root emitted s
    \<and> found_directories (snd (stream_batches root batches)) = stream_root root # found_of s emitted"
proof -
  let ?s0 = "fst (emit_root (stream_new root))" let ?s1 = "fst (ingest_batches ?s0 batches)" let ?s2 = "fst (finish ?s1)"
  obtain em1 where one: "stream_step G root [] ?s0 (mset G) em1 (ingest_batches ?s0 batches)" "ns_cascade ?s1 = []"
    using ingest_batches_step [OF ok stream_root_inv(1,3) [OF ok], of batches] stream_root_inv(2) [OF ok]
    by (auto simp: G_def)
  then have inv1: "stream_inv G root em1 ?s1" "known_entries em1 ?s1 = mset G"
    using stream_root_inv(2) [OF ok] by (simp_all add: stream_step_def)
  obtain em2 where two: "stream_step G root em1 ?s1 {#} em2 (finish ?s1)" "known_entries em2 ?s2 = image_mset entry_link (mset em2)"
    using finish_step [OF ok inv1 one(2)] by blast
  have "found_of ?s2 em2 = found_directories (snd (ingest_batches ?s0 batches)) @ found_directories (snd (finish ?s1))"
    using one(1) two(1) by (simp add: stream_step_def found_of_def)
  moreover have "snd (stream_batches root batches)
      = DirectoryFound (stream_root root) # snd (ingest_batches ?s0 batches) @ snd (finish ?s1)"
    by (simp add: stream_batches_def case_prod_unfold Let_def) (simp add: emit_root_def stream_new_def)
  moreover have "mset (map entry_link em2) = mset G" "stream_inv G root em2 ?s2"
    using two inv1(2) by (simp_all add: stream_step_def)
  ultimately show ?thesis by (metis found_directories_simps(2,4))
qed

lemma stream_resolves_every_directory:
  assumes "links_ok (batch_links batches)"
  shows "mset (map (\<lambda>d. (d_id d, d_parent_directory_id d, d_name d)) (found_directories (snd (stream_batches root batches))))
      = add_mset (5, None, root) (mset (batch_links batches))
    \<and> (\<forall>d\<in>set (found_directories (snd (stream_batches root batches))). \<forall>q.
         resolves_to (batch_links batches) root (d_id d) q \<longrightarrow> d_full_path d = q)"
proof -
  let ?G = "batch_links batches"
  obtain emitted s where em: "mset (map entry_link emitted) = mset ?G" "stream_inv ?G root emitted s"
      "found_directories (snd (stream_batches root batches)) = stream_root root # found_of s emitted"
    using stream_batches_emitted [OF assms] by blast
  have "map (\<lambda>d. (d_id d, d_parent_directory_id d, d_name d)) (found_of s emitted) = map entry_link emitted"
    by (simp add: found_of_def stream_directory_def entry_link_def)
  moreover have "d_full_path d = q" if d: "d \<in> set (found_of s emitted)" "resolves_to ?G root (d_id d) q" for d q
  proof -
    obtain e where e: "e \<in> set emitted" "d = stream_directory e (the (ns_resolved_paths s (e_file_id e)))"
      using d(1) by (auto simp: found_of_def)
    have "e_file_id e \<in> dom (ns_resolved_paths s)" using em(2) e(1) by (simp add: stream_inv_def)
    then obtain p where p: "ns_resolved_paths s (e_file_id e) = Some p" by blast
    have "resolves_to ?G root (e_file_id e) q" using d(2) e(2) by (simp add: stream_directory_def)
    with p have "p = q" using em(2) unfolding stream_inv_def by blast
    then show ?thesis using e p by (simp add: stream_directory_def)
  qed
  moreover have "q = root" if "resolves_to ?G root 5 q" for q
    using that assms by cases (force simp: links_ok_def)+
  ultimately show ?thesis
    using em(1,3) by (auto simp: stream_root_def NTFS_ROOT_RECORD_def simp del: mset_map)
qed

lemma distinct_found:
  assumes "mset (map entry_link emitted) = mset G" "links_ok G"
  shows "distinct (map d_id (stream_root root # found_of s emitted))"
proof -
  have ids: "map fst (map entry_link emitted) = map d_id (found_of s emitted)"
    by (simp add: found_of_def stream_directory_def entry_link_def)
  have "mset (map fst (map entry_link emitted)) = mset (map fst G)" using assms(1) by (metis mset_map)
  then have "distinct (map d_id (found_of s emitted))" "set (map d_id (found_of s emitted)) = fst ` set G"
    using assms(2) mset_eq_imp_distinct_iff unfolding ids links_ok_def by (blast, metis list.set_map mset_eq_setD)
  then show ?thesis using assms(2) by (simp add: stream_root_def NTFS_ROOT_RECORD_def links_ok_def)
qed

text \<open>
  C26. The streaming scan survives a directory that names itself as its parent but passes the link on:
  aggregating the directories it emitted, as the search catalog does, never returns.
\<close>

theorem streamed_self_parent_breaks_aggregation:
  assumes "links_ok (batch_links batches)" and "(entries, extensions) \<in> set batches"
    and "e \<in> set entries" "e_is_directory e" "e_file_id e \<noteq> 5" "e_parent_directory_id e = Some (e_file_id e)"
  shows "aggregate_directory_records (found_directories (snd (stream_batches root batches))) files = None"
proof -
  let ?G = "batch_links batches" let ?ds = "found_directories (snd (stream_batches root batches))"
  obtain emitted s where em: "mset (map entry_link emitted) = mset ?G" "?ds = stream_root root # found_of s emitted"
    using stream_batches_emitted [OF assms(1)] by blast
  have "entry_link e \<in> set ?G"
    using assms(2-5) by (force simp: batch_links_def new_links_def is_subdirectory_def)
  then obtain e' where e': "e' \<in> set emitted" "entry_link e' = entry_link e"
    using mset_eq_setD [OF em(1)] by force
  define d where "d = stream_directory e' (the (ns_resolved_paths s (e_file_id e')))"
  have "d \<in> set (found_of s emitted)" using e'(1) by (auto simp: d_def found_of_def)
  then have "d \<in> set ?ds" using em(2) by simp
  moreover have "d_id d = e_file_id e" "d_parent_directory_id d = Some (e_file_id e)"
    using assms(6) e'(2) by (simp_all add: d_def stream_directory_def entry_link_def)
  ultimately have d: "d \<in> set ?ds" "d_id d = e_file_id e" "d_parent_directory_id d = Some (e_file_id e)" .
  have "index_by d_id ?ds (d_id d) = Some d"
    using distinct_found [OF em(1) assms(1)] d(1) em(2) by (intro index_by_distinct) simp_all
  then have pm: "parent_map_of ?ds (d_id d) = Some (Some (d_id d))" using d by (simp add: parent_map_of_def)
  have "\<not> acyclic_for ?ds files"
  proof
    assume "acyclic_for ?ds files"
    then obtain ps where c: "chain (parent_map_of ?ds) (d_id d) ps"
      using d by (fastforce simp: acyclic_for_def Let_def parents_of_def set_map_filter)
    from c pm obtain qs where "ps = d_id d # qs" by (auto elim: chain.cases)
    then show False using chain_up_notin [OF pm c] by simp
  qed
  then show ?thesis using aggregate_returns_acyclic [of ?ds files]
    by (cases "aggregate_directory_records ?ds files") auto
qed

section \<open>Witnesses\<close>

definition sample_subdirectory :: "u64 \<Rightarrow> u64 \<Rightarrow> string \<Rightarrow> parsed_entry" where
  "sample_subdirectory i p n = named_entry\<lparr>e_file_id := i, e_parent_directory_id := Some p, e_name := n, e_is_directory := True\<rparr>"

lemma stream_resolves_every_directory_witness:
  "mset (map (\<lambda>d. (d_id d, d_parent_directory_id d, d_name d)) (found_directories (snd (stream_batches ''C:''
      [([sample_subdirectory 7 6 ''b''], []), ([sample_subdirectory 6 5 ''a'', named_entry], [])]))))
    = {# (5, None, ''C:''), (7, Some 6, ''b''), (6, Some 5, ''a'') #}"
  using stream_resolves_every_directory
    [of "[([sample_subdirectory 7 6 ''b''], []), ([sample_subdirectory 6 5 ''a'', named_entry], [])]" "''C:''"]
  by (simp add: links_ok_def batch_links_def new_links_def is_subdirectory_def sample_subdirectory_def entry_link_def named_entry_def)

lemma streamed_self_parent_breaks_aggregation_witness:
  "aggregate_directory_records (found_directories (snd (stream_batches ''C:''
      [([sample_subdirectory 7 7 ''b''], [])]))) [] = None"
  by (rule streamed_self_parent_breaks_aggregation [of _ "[sample_subdirectory 7 7 ''b'']" "[]" "sample_subdirectory 7 7 ''b''"])
    (simp_all add: links_ok_def batch_links_def new_links_def is_subdirectory_def sample_subdirectory_def entry_link_def)

end
