(* ===== verification/Scan_Agreement.thy ===== *)
theory Scan_Agreement
  imports Stream_Paths
begin

text \<open>
  The batch parser and the streaming scan resolve paths by different algorithms (a memoised recursion over the
  whole table, a worklist in order of arrival). This theory shows that they agree on every directory whose
  parents lead to the root.
\<close>

section \<open>Well-founded chains\<close>

text \<open>Directory \<open>i\<close> lies \<open>n\<close> levels below the root, under path \<open>q\<close>.\<close>

inductive tree_path :: "(u64 \<rightharpoonup> parsed_entry) \<Rightarrow> string \<Rightarrow> u64 \<Rightarrow> nat \<Rightarrow> string \<Rightarrow> bool" for M root where
  top: "tree_path M root 5 0 root"
| below: "M i = Some e \<Longrightarrow> e_is_directory e \<Longrightarrow> i \<noteq> 5 \<Longrightarrow> e_parent_directory_id e = Some p \<Longrightarrow> p \<noteq> i \<Longrightarrow>
    e_name e \<noteq> [] \<Longrightarrow> tree_path M root p n q \<Longrightarrow> tree_path M root i (Suc n) (ntfs_join_path q (e_name e))"

inductive_cases tree_pathE: "tree_path M root i n q"

lemma tree_path_deterministic: "tree_path M root i n q \<Longrightarrow> tree_path M root i n' q' \<Longrightarrow> n = n' \<and> q = q'"
proof (induction arbitrary: n' q' rule: tree_path.induct)
  case top
  then show ?case by cases auto
next
  case (below i e p n q)
  from below.prems show ?case
  proof cases
    case (below e' p' m r)
    then have "e' = e" "p' = p" using below.hyps by simp_all
    with below show ?thesis using below.IH by blast
  qed (use below.hyps in simp)
qed

lemma tree_path_known: "tree_path M root i n q \<Longrightarrow> i = 5 \<or> M i \<noteq> None"
  by (erule tree_pathE) auto

lemma tree_path_cong:
  "tree_path M root i n q \<Longrightarrow> (\<And>i. i \<noteq> 5 \<Longrightarrow> M' i = M i) \<Longrightarrow> tree_path M' root i n q"
  by (induction rule: tree_path.induct) (auto intro: tree_path.intros)

section \<open>The batch parser\<close>

definition paths_ok :: "(u64 \<rightharpoonup> parsed_entry) \<Rightarrow> string \<Rightarrow> (u64 \<rightharpoonup> string) \<Rightarrow> bool" where
  "paths_ok M root R \<longleftrightarrow> R 5 = Some root \<and> (\<forall>i p n q. R i = Some p \<longrightarrow> tree_path M root i n q \<longrightarrow> p = q)"

lemma paths_ok_update:
  "paths_ok M root R \<Longrightarrow> i \<noteq> 5 \<Longrightarrow> (\<And>n q. tree_path M root i n q \<Longrightarrow> path = q) \<Longrightarrow> paths_ok M root (R(i \<mapsto> path))"
  by (simp add: paths_ok_def)

text \<open>What waits on the recursion stack lies below the directory asked for.\<close>

definition stack_below :: "(u64 \<rightharpoonup> parsed_entry) \<Rightarrow> string \<Rightarrow> u64 \<Rightarrow> u64 list \<Rightarrow> bool" where
  "stack_below M root i stack \<longleftrightarrow> (\<forall>s\<in>set stack. \<forall>m r. tree_path M root s m r \<longrightarrow> (\<exists>n<m. \<exists>q. tree_path M root i n q))"

lemma tree_path_up:
  assumes "tree_path M root i m r" "i \<noteq> 5" "M i = Some e" "e_parent_directory_id e = Some p"
  shows "\<exists>n q. m = Suc n \<and> tree_path M root p n q \<and> r = ntfs_join_path q (e_name e) \<and> e_name e \<noteq> []"
  using assms(1) by cases (use assms in auto)

lemma stack_below_push:
  assumes "stack_below M root i stack" "i \<noteq> 5" "M i = Some e" "e_parent_directory_id e = Some p"
  shows "stack_below M root p (i # stack)"
  unfolding stack_below_def
proof (intro ballI allI impI)
  fix s m r assume s: "s \<in> set (i # stack)" "tree_path M root s m r"
  then obtain n q where n: "n \<le> m" "tree_path M root i n q"
    using assms(1) unfolding stack_below_def by (metis less_imp_le order_refl set_ConsD)
  from tree_path_up [OF n(2) assms(2-4)] n(1) show "\<exists>n<m. \<exists>q. tree_path M root p n q"
    by (metis Suc_le_eq)
qed

lemma resolve_entry_path_correct:
  "paths_ok (map_of entries) root R \<Longrightarrow> stack_below (map_of entries) root i stack \<Longrightarrow>
   paths_ok (map_of entries) root (snd (resolve_entry_path i entries R root stack))
   \<and> (\<forall>n q. tree_path (map_of entries) root i n q \<longrightarrow> fst (resolve_entry_path i entries R root stack) = q)"
proof (induction i entries R root stack rule: resolve_entry_path.induct)
  case (1 i entries R root stack)
  let ?M = "map_of entries"
  note ok = "1.prems"(1) and below = "1.prems"(2)
  note unfold = resolve_entry_path.simps [of i entries R root stack]
  show ?case
  proof (cases "R i")
    case (Some path)
    then show ?thesis using ok unfolding unfold paths_ok_def by auto
  next
    case None
    then have i5: "i \<noteq> 5" using ok by (auto simp: paths_ok_def)
    show ?thesis
    proof (cases "i \<in> set stack")
      case True
      have "\<not> tree_path ?M root i n q" for n q
        using below True tree_path_deterministic unfolding stack_below_def by (metis less_irrefl)
      then show ?thesis using None True ok by (simp add: unfold)
    next
      case out: False
      show ?thesis
      proof (cases "?M i")
        case none: None
        then show ?thesis using None out ok i5 tree_path_known [of ?M root i] by (auto simp: unfold)
      next
        case (Some e)
        note e = this
        show ?thesis
        proof (cases "e_parent_directory_id e")
          case none: None
          then have "\<not> tree_path ?M root i n q" for n q using e i5 by (auto elim: tree_pathE)
          then show ?thesis using None out e none paths_ok_update [OF ok i5] by (simp add: unfold fun_upd_def)
        next
          case (Some p)
          note p = this
          show ?thesis
          proof (cases "p = i")
            case True
            then have "\<not> tree_path ?M root i n q" for n q using e p i5 by (auto elim: tree_pathE)
            then show ?thesis using None out e p True paths_ok_update [OF ok i5] by (simp add: unfold fun_upd_def)
          next
            case False
            show ?thesis
            proof (cases "?M p = None \<and> p \<noteq> 5")
              case True
              have "\<not> tree_path ?M root i n q" for n q
              proof
                assume "tree_path ?M root i n q"
                from tree_path_up [OF this i5 e p] True tree_path_known [of ?M root p] show False by blast
              qed
              then show ?thesis using None out e p False True i5 ok by (simp add: unfold)
            next
              case known: False
              let ?rec = "resolve_entry_path p entries R root (i # stack)"
              let ?path = "if e_name e = [] then fst ?rec else ntfs_join_path (fst ?rec) (e_name e)"
              have IH: "paths_ok ?M root (snd ?rec)" "\<And>n q. tree_path ?M root p n q \<Longrightarrow> fst ?rec = q"
                using "1.IH" [OF None out e p _ known, OF _ ok stack_below_push [OF below i5 e p]] False i5 by auto
              have run: "resolve_entry_path i entries R root stack = (?path, (snd ?rec)(i \<mapsto> ?path))"
                using None out e p False known i5 by (cases "p = 5") (auto simp: unfold case_prod_unfold Let_def)
              have q: "?path = q" if "tree_path ?M root i n q" for n q
                using tree_path_up [OF that i5 e p] IH(2) by auto
              have "paths_ok ?M root ((snd ?rec)(i \<mapsto> ?path))" using q by (rule paths_ok_update [OF IH(1) i5])
              then show ?thesis using q unfolding run fst_conv snd_conv by blast
            qed
          qed
        qed
      qed
    qed
  qed
qed

lemma stack_below_Nil [simp]: "stack_below M root i []"
  by (simp add: stack_below_def)

lemma emit_entries_paths:
  "paths_ok (map_of entries) root R \<Longrightarrow> emit_entries entries root es R = (directories, files, events) \<Longrightarrow>
   map d_id directories = map e_file_id (filter e_is_directory es)
   \<and> (\<forall>d\<in>set directories. \<forall>n q. tree_path (map_of entries) root (d_id d) n q \<longrightarrow> d_full_path d = q)"
proof (induction es arbitrary: R directories files events)
  case (Cons e es)
  show ?case
  proof (cases "e_is_directory e")
    case True
    let ?r = "resolve_entry_path (e_file_id e) entries R root []"
    obtain ds fs evs where rest: "emit_entries entries root es (snd ?r) = (ds, fs, evs)" by (metis prod_cases3)
    have "directories = entry_directory e (fst ?r) # ds" using Cons.prems(2) True rest by (simp add: case_prod_unfold Let_def)
    moreover have r: "paths_ok (map_of entries) root (snd ?r)" "\<And>n q. tree_path (map_of entries) root (e_file_id e) n q \<Longrightarrow> fst ?r = q"
      using resolve_entry_path_correct [OF Cons.prems(1), of "e_file_id e" "[]"] by auto
    ultimately show ?thesis using Cons.IH [OF r(1) rest] True by (auto simp: entry_directory_def)
  next
    case False
    obtain ds fs evs where rest: "emit_entries entries root es R = (ds, fs, evs)" by (metis prod_cases3)
    have "directories = ds" using Cons.prems(2) False rest by (simp add: case_prod_unfold Let_def)
    then show ?thesis using Cons.IH [OF Cons.prems(1) rest] False by simp
  qed
qed simp

lemma aggregate_keeps_directories:
  assumes "aggregate_directory_records ds fs = Some out"
  shows "map (\<lambda>d. (d_id d, d_full_path d)) out = map (\<lambda>d. (d_id d, d_full_path d)) ds"
proof -
  obtain ag where "out = map (store_aggregate ag) ds"
    using assms by (auto simp: aggregate_directory_records_def Let_def bind_eq_Some_conv)
  then show ?thesis by (auto simp: store_aggregate_def split: option.split)
qed

interpretation parsed: record_store "[]" hm_insert map_of hm_values e_file_id "hm_invar e_file_id"
  by (rule hm_store)

lemma image_fibre:
  assumes "(\<lambda>d. (f d, g d)) ` A = (\<lambda>d. (f d, g d)) ` B" "\<forall>d\<in>B. f d = i \<longrightarrow> g d = q" "i \<in> f ` B"
  shows "g ` {d \<in> A. f d = i} = {q}"
proof -
  have sub: "\<exists>b\<in>B. f b = f a \<and> g b = g a" if a: "a \<in> A" for a
  proof -
    have "(f a, g a) \<in> (\<lambda>d. (f d, g d)) ` B" using a unfolding assms(1) [symmetric] by (rule imageI)
    then show ?thesis by auto
  qed
  obtain b where b: "b \<in> B" "f b = i" using assms(3) by blast
  have "(f b, g b) \<in> (\<lambda>d. (f d, g d)) ` A" using b(1) unfolding assms(1) by (rule imageI)
  then obtain a where "a \<in> A" "f a = i" using b(2) by auto
  moreover have "g a = q" if "a \<in> A" "f a = i" for a using sub [OF that(1)] that(2) assms(2) by auto
  ultimately show ?thesis by blast
qed

lemma parse_entries_paths:
  assumes "parse_entries root entries = Some (events, en)" "hm_invar e_file_id entries"
    and "tree_path (map_of entries) root i n q" "i \<noteq> 5"
  shows "d_full_path ` {d \<in> set (en_directories en). d_id d = i} = {q}"
proof -
  define table where "table = (if map_of entries 5 = None then hm_insert 5 ntfs_root_entry entries else entries)"
  have M: "map_of table i = map_of entries i" if "i \<noteq> 5" for i
    using that by (simp add: table_def hm_insert_def update_conv')
  have t: "tree_path (map_of table) root i n q" by (rule tree_path_cong [OF assms(3) M])
  have inv: "hm_invar e_file_id table"
    using assms(2) parsed.invar_insert [of entries ntfs_root_entry] by (simp add: table_def ntfs_root_entry_def)
  obtain ds fs evs where e: "emit_entries table root (sort_key e_file_id (hm_values table)) [5 \<mapsto> root] = (ds, fs, evs)"
    by (metis prod_cases3)
  have "\<And>n q. tree_path (map_of table) root 5 n q \<Longrightarrow> q = root" using tree_path_deterministic tree_path.top by blast
  then have "paths_ok (map_of table) root [5 \<mapsto> root]" by (auto simp: paths_ok_def)
  note paths = emit_entries_paths [OF this e]
  obtain out where out: "aggregate_directory_records (sort_key d_id ds) (sort_key f_id fs) = Some out" "en_directories en = out"
    using assms(1) e by (auto simp: parse_entries_def Let_def table_def [symmetric] case_prod_unfold)
  note keep = aggregate_keeps_directories [OF out(1)]
  have "(\<lambda>d. (d_id d, d_full_path d)) ` set out = (\<lambda>d. (d_id d, d_full_path d)) ` set ds"
    using arg_cong [OF keep, of set] by simp
  moreover have "\<forall>d\<in>set ds. d_id d = i \<longrightarrow> d_full_path d = q" using paths t by blast
  moreover have "i \<in> d_id ` set ds"
  proof -
    from t obtain e' where e': "map_of table i = Some e'" "e_is_directory e'" using assms(4) by (auto elim: tree_pathE)
    then have "e' \<in> set (hm_values table)" "e_file_id e' = i"
      using parsed.values_lookup [OF inv] parsed.lookup_key [OF inv] by auto
    then have "i \<in> set (map e_file_id (filter e_is_directory (sort_key e_file_id (hm_values table))))" using e'(2) by auto
    then show ?thesis using paths by (metis list.set_map)
  qed
  ultimately show ?thesis unfolding out(2) by (rule image_fibre)
qed

section \<open>Agreement\<close>

text \<open>The entries of the table are the directories the scan received.\<close>

definition same_directories :: "parsed_entry hash_map \<Rightarrow> link list \<Rightarrow> bool" where
  "same_directories entries G \<longleftrightarrow> entry_link ` {e \<in> set (hm_values entries). is_subdirectory e} = set G"

lemma tree_path_resolves:
  assumes "hm_invar e_file_id entries" "same_directories entries G"
  shows "tree_path (map_of entries) root i n q \<Longrightarrow> resolves_to G root i q"
proof (induction rule: tree_path.induct)
  case (below i e p n q)
  have "e \<in> set (hm_values entries)" "e_file_id e = i"
    using parsed.values_lookup [OF assms(1)] parsed.lookup_key [OF assms(1)] below.hyps(1) by auto
  then have "entry_link e \<in> set G"
    using below.hyps assms(2) by (auto simp: same_directories_def is_subdirectory_def)
  then have "(i, Some p, e_name e) \<in> set G" using \<open>e_file_id e = i\<close> below.hyps by (simp add: entry_link_def)
  moreover have "link_parent i (Some p) = p" using below.hyps by (simp add: link_parent_def)
  ultimately show ?case using resolves_to.child [of i "Some p" "e_name e" G root q] below.IH by simp
qed (rule resolves_to.root)


section \<open>A witness\<close>

lemma sample_batch_returns:
  "\<exists>events en. parse_entries ''C:'' [(6, sample_subdirectory 6 5 ''a'')] = Some (events, en)"
proof -
  let ?table = "hm_insert 5 ntfs_root_entry [(6, sample_subdirectory 6 5 ''a'')]"
  obtain ds fs evs where e: "emit_entries ?table ''C:'' (sort_key e_file_id (hm_values ?table)) [5 \<mapsto> ''C:''] = (ds, fs, evs)"
    by (metis prod_cases3)
  have order: "sort_key e_file_id (hm_values ?table) = [ntfs_root_entry, sample_subdirectory 6 5 ''a'']"
    by (simp add: hm_insert_def hm_values_def ntfs_root_entry_def sample_subdirectory_def)
  have "resolve_entry_path 5 ?table [5 \<mapsto> ''C:''] ''C:'' [] = (''C:'', [5 \<mapsto> ''C:''])"
    by (simp add: resolve_entry_path.simps [of 5])
  then have ds: "map d_id ds = [5, 6] \<and> map d_parent_directory_id ds = [None, Some 5] \<and> fs = []"
    using e unfolding order by (auto simp: ntfs_root_entry_def sample_subdirectory_def entry_directory_def case_prod_unfold Let_def)
  then obtain d1 d2 where d: "ds = [d1, d2]" "d_id d1 = 5" "d_id d2 = 6"
      "d_parent_directory_id d1 = None" "d_parent_directory_id d2 = Some 5"
    by (auto simp: map_eq_Cons_conv)
  have "parent_map_of [d1, d2] 5 = Some None" using d by (simp add: parent_map_of_def index_by_def)
  then have "chain (parent_map_of [d1, d2]) 5 [5]" by (rule chain.top)
  then have "acyclic_for [d1, d2] []" using d by (auto simp: acyclic_for_def Let_def parents_of_def List.map_filter_simps)
  moreover have "sort_key d_id ds = [d1, d2]" using d by simp
  ultimately have "aggregate_directory_records (sort_key d_id ds) (sort_key f_id fs) \<noteq> None"
    using ds by (simp add: aggregate_value)
  moreover have "map_of [(6::u64, sample_subdirectory 6 5 ''a'')] 5 = None" by simp
  ultimately show ?thesis using e by (auto simp: parse_entries_def Let_def case_prod_unfold)
qed


end
