(* ===== verification/Volume_Scan.thy ===== *)
theory Volume_Scan
  imports Ntfs_Pipeline Scan_Agreement
begin

text \<open>
  The streaming scan as a whole: from the extents of the file table on a volume to the events and the summary.
\<close>

section \<open>From messages to events\<close>

definition no_progress :: "scan_event list \<Rightarrow> scan_event list" where
  "no_progress = filter (\<lambda>ev. case ev of Progress _ \<Rightarrow> False | _ \<Rightarrow> True)"

lemma no_progress_simps [simp]:
  "no_progress [] = []" "no_progress (xs @ ys) = no_progress xs @ no_progress ys"
  "no_progress (Progress p # xs) = no_progress xs"
  by (simp_all add: no_progress_def)

lemma found_no_progress: "found_directories (no_progress ev) = found_directories ev"
  by (induction ev) (auto simp: no_progress_def found_directories_def split: scan_event.split)

definition message_batches :: "parsed_message list \<Rightarrow> (parsed_entry list \<times> extension_sizes list) list" where
  "message_batches messages = map (fst \<circ> projr) messages"

lemma emit_loop_batches:
  "collect_messages messages = Inr r \<Longrightarrow>
   \<exists>s' ev. emit_loop total_records last_progress s messages = ((s', ev), None)
     \<and> s' = fst (ingest_batches s (message_batches messages))
     \<and> no_progress ev = no_progress (snd (ingest_batches s (message_batches messages)))
     \<and> concat (map fst (message_batches messages)) = fst r"
proof (induction messages arbitrary: s last_progress r rule: collect_messages.induct)
  case (3 es exts n messages)
  then obtain r' where r': "collect_messages messages = Inr r'" "r = (es @ fst r', exts @ snd r')"
    by (auto simp: rbind_eq_Inr case_prod_unfold)
  let ?s1 = "fst (ingest_entries s es)" let ?s2 = "fst (ingest_extensions ?s1 exts)"
  let ?lp = "if progress_due n total_records last_progress then n else last_progress"
  from "3.IH" [OF r'(1), of ?lp ?s2] obtain ev where ev:
    "emit_loop total_records ?lp ?s2 messages = ((fst (ingest_batches ?s2 (message_batches messages)), ev), None)"
    "no_progress ev = no_progress (snd (ingest_batches ?s2 (message_batches messages)))"
    "concat (map fst (message_batches messages)) = fst r'" by blast
  then show ?case
    by (simp add: message_batches_def case_prod_unfold Let_def scan_progress_event_def r'(2))
qed (simp_all add: message_batches_def)

lemma batch_links_concat: "batch_links batches = new_links (concat (map fst batches))"
  by (induction batches) (auto simp: batch_links_def new_links_def)

section \<open>The table found\<close>

text \<open>What a table of bytes holds: every record fixed up and parsed, in order.\<close>

definition parse_table :: "nat \<Rightarrow> byte list \<Rightarrow> ntfs_error + parsed_entry list \<times> extension_sizes list" where
  "parse_table bytes_per_sector bytes =
    parse_record_range (apply_mft_fixups bytes_per_sector bytes) 0 (length bytes div NTFS_RECORD_SIZE)"

lemma stream_blocks_table:
  assumes "[] \<notin> set (butlast blocks)" "records_safe (apply_mft_fixups s (concat blocks))"
    and "parse_table s (concat blocks) = Inr (entries, extensions)"
  shows "\<exists>batches. new_links entries = batch_links batches
    \<and> snd (stream_blocks root workers s total_bytes (map Inr blocks)) = Inr (fst (stream_batches root batches))
    \<and> found_directories (fst (stream_blocks root workers s total_bytes (map Inr blocks)))
      = found_directories (snd (stream_batches root batches))"
proof -
  let ?ms = "parser_thread workers s [] 0 (map Inr blocks)" and ?s0 = "fst (emit_root (stream_new root))"
  have "(0::nat) < NTFS_RECORD_SIZE" by (simp add: NTFS_RECORD_SIZE_def)
  then have c: "collect_messages ?ms = Inr (entries, extensions)"
    using collect_parser_thread [of "[]" blocks s workers 0] assms by (simp add: parse_table_def)
  obtain ev where ev: "emit_loop (max (total_bytes div word_of_nat NTFS_RECORD_SIZE) 1) 0 ?s0 ?ms
        = ((fst (ingest_batches ?s0 (message_batches ?ms)), ev), None)"
      "no_progress ev = no_progress (snd (ingest_batches ?s0 (message_batches ?ms)))"
      "concat (map fst (message_batches ?ms)) = entries"
    using emit_loop_batches [OF c, of _ 0 ?s0] by fastforce
  have "found_directories ev = found_directories (snd (ingest_batches ?s0 (message_batches ?ms)))"
    using ev(2) by (metis found_no_progress)
  then show ?thesis
    using ev by (intro exI [of _ "message_batches ?ms"])
      (simp add: batch_links_concat stream_blocks_def stream_batches_def case_prod_unfold Let_def)
qed

lemma reader_thread_blocks:
  "read_blocks fuel vol r block_len = Inr blocks \<Longrightarrow> reader_thread fuel vol r block_len = map Inr blocks"
proof (induction fuel arbitrary: r blocks)
  case (Suc fuel)
  then show ?case by (cases "fill_block vol r block_len []") (auto simp: rbind_eq_Inr split: if_splits)
qed simp

lemma records_per_read_pos: "0 < NTFS_RECORD_SIZE * records_per_read workers"
  by (simp add: records_per_read_def NTFS_RECORD_SIZE_def)

text \<open>
  C24. The streaming scan of a volume is correct end to end: for every readable table whose records parse,
  whatever the block boundaries and the number of workers, it succeeds, reports each directory of the table
  exactly once, after the synthetic root, and gives it the path of its chain of parents, whatever the order of
  the records.
\<close>

theorem volume_scan_finds_table:
  assumes "extents_within es" "map vol (extent_positions es) = map Some bytes"
    and "length (extent_positions es) < fuel * (NTFS_RECORD_SIZE * records_per_read (max worker_count 1))"
    and "records_safe (apply_mft_fixups sector bytes)" "parse_table sector bytes = Inr (entries, extensions)"
    and "links_ok (new_links entries)"
  shows "(\<exists>summary. snd (stream_ntfs_entries fuel root vol es sector worker_count) = Inr summary)
    \<and> mset (map (\<lambda>d. (d_id d, d_parent_directory_id d, d_name d))
          (found_directories (fst (stream_ntfs_entries fuel root vol es sector worker_count))))
      = add_mset (5, None, root) (mset (new_links entries))
    \<and> (\<forall>d\<in>set (found_directories (fst (stream_ntfs_entries fuel root vol es sector worker_count))). \<forall>q.
         resolves_to (new_links entries) root (d_id d) q \<longrightarrow> d_full_path d = q)"
proof -
  let ?len = "NTFS_RECORD_SIZE * records_per_read (max worker_count 1)"
  have "\<forall>i\<in>set (extent_positions es). vol i \<noteq> None"
  proof
    fix i assume "i \<in> set (extent_positions es)"
    then have "vol i \<in> set (map Some bytes)" using assms(2) by (metis image_eqI set_map)
    then show "vol i \<noteq> None" by auto
  qed
  then obtain blocks where blocks: "read_blocks fuel vol (mft_reader_new es sector) ?len = Inr blocks"
      "map Some (concat blocks) = map vol (extent_positions es)" "list_all (\<lambda>b. length b = ?len) (butlast blocks)"
    using read_blocks_deliver [OF assms(1) _ records_per_read_pos assms(3)] by blast
  have bytes: "concat blocks = bytes" using blocks(2) assms(2) by (simp add: inj_map_eq_map)
  have full: "[] \<notin> set (butlast blocks)"
    using blocks(3) records_per_read_pos [of "max worker_count 1"] by (fastforce simp: list_all_iff)
  have run: "stream_ntfs_entries fuel root vol es sector worker_count
      = stream_blocks root (max worker_count 1) sector (reader_total_bytes (mft_reader_new es sector)) (map Inr blocks)"
    by (simp only: stream_ntfs_entries_def Let_def reader_thread_blocks [OF blocks(1)])
  obtain batches where b: "new_links entries = batch_links batches"
    "snd (stream_ntfs_entries fuel root vol es sector worker_count) = Inr (fst (stream_batches root batches))"
    "found_directories (fst (stream_ntfs_entries fuel root vol es sector worker_count))
      = found_directories (snd (stream_batches root batches))"
    using stream_blocks_table [OF full, of sector entries extensions root "max worker_count 1"
        "reader_total_bytes (mft_reader_new es sector)"] assms(4,5) unfolding run bytes by blast
  show ?thesis
    using stream_resolves_every_directory [of batches root] assms(6) unfolding b by simp
qed

lemma volume_scan_finds_table_witness:
  "mset (map (\<lambda>d. (d_id d, d_parent_directory_id d, d_name d)) (found_directories (fst
      (stream_ntfs_entries 2 ''C:'' (\<lambda>i. if i < 1024 then Some (named_record ! i) else None) [(0, 1024)] 512 1))))
    = {# (5, None, ''C:'') #}"
proof -
  let ?vol = "\<lambda>i. if i < 1024 then Some (named_record ! i) else None"
  have pos: "extent_positions [(0, 1024)] = [0..<1024]" by simp
  have bytes: "map ?vol (extent_positions [(0, 1024)]) = map Some named_record"
    unfolding pos by (rule nth_equalityI) (simp_all add: length_named_record)
  have table: "concat (replicate 1 named_record) = named_record" by simp
  note safe = named_records_safe [of 1, unfolded table] and fixed = named_record_fixups [of 1, unfolded table]
  have "parse_range named_record [0] = Inr ([named_entry], [])"
    by (simp add: slice_bytes_def length_named_record NTFS_RECORD_SIZE_def named_record_reads parse_named_record add_outcome_def)
  then have parsed: "parse_table 512 named_record = Inr ([named_entry], [])"
    by (simp add: parse_table_def parse_record_range_def fixed length_named_record) (simp add: NTFS_RECORD_SIZE_def)
  have links: "new_links [named_entry] = []" by (simp add: new_links_def is_subdirectory_def named_entry_def)
  have within: "extents_within [(0, 1024)]" by simp
  have len: "length (extent_positions [(0, 1024)]) < 2 * (NTFS_RECORD_SIZE * records_per_read (max 1 1))"
    unfolding pos by (simp add: NTFS_RECORD_SIZE_def records_per_read_def)
  have "records_safe (apply_mft_fixups 512 named_record)" using safe unfolding fixed .
  from volume_scan_finds_table [OF within bytes len this parsed, of "''C:''"] show ?thesis
    unfolding links by (simp add: links_ok_def)
qed

section \<open>A panic ends the scan without an error\<close>

lemma crafted_record_fixups: "apply_mft_fixups 512 crafted_record = crafted_record"
proof -
  have len: "length crafted_record = 1024" by (simp add: crafted_record_def FILE_RECORD_SIGNATURE_def)
  have tails: "crafted_record ! 4 = 48" "crafted_record ! 5 = 0" "crafted_record ! 6 = 2" "crafted_record ! 7 = 0"
    "crafted_record ! 48 = 0" "crafted_record ! 49 = 0" "crafted_record ! 50 = 0" "crafted_record ! 51 = 0"
    "crafted_record ! 510 = 0" "crafted_record ! 511 = 0"
    by (simp_all add: crafted_record_def FILE_RECORD_SIGNATURE_def nth_append)
  have "crafted_record[510 := 0, 511 := 0] = crafted_record"
    using tails list_update_id [of crafted_record 510] list_update_id [of crafted_record 511] by simp
  then have "apply_record_fixups 512 crafted_record = (True, crafted_record)"
    by (simp add: apply_record_fixups_def len tails from_le_def upt_rec)
  then show ?thesis by (simp add: apply_mft_fixups.simps len NTFS_RECORD_SIZE_def fixup_one_def)
qed


section \<open>Files\<close>

definition found_files :: "scan_event list \<Rightarrow> file_record list" where
  "found_files events = concat (map (\<lambda>ev. case ev of FileFound f \<Rightarrow> [f] | _ \<Rightarrow> []) events)"

lemma found_files_simps [simp]:
  "found_files [] = []" "found_files (FileFound f # ev) = f # found_files ev"
  "found_files (DirectoryFound d # ev) = found_files ev" "found_files (ev1 @ ev2) = found_files ev1 @ found_files ev2"
  by (simp_all add: found_files_def)

text \<open>A step counts the files \<open>es\<close>, sends them, and leaves nothing pending.\<close>

definition file_step :: "stream_state \<Rightarrow> parsed_entry list \<Rightarrow> streamed \<Rightarrow> bool" where
  "file_step s es r \<longleftrightarrow> found_files (snd r) = map stream_file es \<and> ns_pending_extensions (fst r) = ns_pending_extensions s
    \<and> ns_files_seen (fst r) = foldl sat_add (ns_files_seen s) (map (\<lambda>_. 1) es)
    \<and> ns_total_size_bytes (fst r) = foldl sat_add (ns_total_size_bytes s) (map e_size_bytes es)
    \<and> ns_total_allocation_bytes (fst r) = foldl sat_add (ns_total_allocation_bytes s) (map e_allocation_bytes es)"

lemma file_step_trans: "file_step s es (s', ev) \<Longrightarrow> file_step s' es' (s'', ev') \<Longrightarrow> file_step s (es @ es') (s'', ev @ ev')"
  by (simp add: file_step_def)

lemma file_step_drain: "file_step s [] (drain_cascade s)"
proof (induction s rule: drain_cascade.induct)
  case (1 s)
  show ?case
  proof (cases "ns_cascade s = []")
    case True
    then show ?thesis by (simp add: drain_cascade.simps file_step_def)
  next
    case False
    from 1 [OF False refl refl] show ?thesis
      using False by (subst drain_cascade.simps) (simp add: Let_def case_prod_unfold file_step_def emit_directory_def)
  qed
qed

lemma file_step_ingest:
  assumes "ns_pending_extensions s = []"
  shows "file_step s (if e_is_directory e then [] else [e]) (ingest_entry s e)"
proof (cases "e_is_directory e")
  case True
  then show ?thesis
    using assms file_step_drain [of "s\<lparr>ns_cascade := ns_cascade s @ [e]\<rparr>"]
    by (auto simp: ingest_entry_def take_pending_def ingest_directory_def Let_def file_step_def)
qed (simp add: ingest_entry_def take_pending_def assms emit_file_def file_step_def Let_def)

lemma file_step_entries:
  "ns_pending_extensions s = [] \<Longrightarrow> file_step s (filter (\<lambda>e. \<not> e_is_directory e) es) (ingest_entries s es)"
proof (induction es arbitrary: s)
  case (Cons e es)
  have one: "file_step s (if e_is_directory e then [] else [e]) (fst (ingest_entry s e), snd (ingest_entry s e))"
    using file_step_ingest [OF Cons.prems] by simp
  then have "ns_pending_extensions (fst (ingest_entry s e)) = []" using Cons.prems by (simp add: file_step_def)
  from file_step_trans [OF one, of _ "fst (ingest_entries (fst (ingest_entry s e)) es)" "snd (ingest_entries (fst (ingest_entry s e)) es)"]
    Cons.IH [OF this] show ?case by (auto simp: Let_def case_prod_unfold)
qed (simp add: file_step_def)

lemma file_step_batches:
  "ns_pending_extensions s = [] \<Longrightarrow> \<forall>b\<in>set batches. snd b = [] \<Longrightarrow>
   file_step s (filter (\<lambda>e. \<not> e_is_directory e) (concat (map fst batches))) (ingest_batches s batches)"
proof (induction batches arbitrary: s)
  case (Cons b batches)
  let ?r = "ingest_entries s (fst b)"
  have one: "file_step s (filter (\<lambda>e. \<not> e_is_directory e) (fst b)) (fst ?r, snd ?r)"
    using file_step_entries [OF Cons.prems(1)] by simp
  then have "ns_pending_extensions (fst ?r) = []" using Cons.prems by (simp add: file_step_def)
  from file_step_trans [OF one, of _ "fst (ingest_batches (fst ?r) batches)" "snd (ingest_batches (fst ?r) batches)"]
    Cons.IH [OF this] Cons.prems(2) show ?case by (cases b) (simp add: Let_def case_prod_unfold)
qed (simp add: file_step_def)

lemma file_step_release: "file_step s [] (release_buckets s ks)"
proof (induction ks arbitrary: s)
  case (Cons k ks)
  have "file_step s [] (release_bucket s k)"
    using file_step_drain by (auto simp: release_bucket_def file_step_def split: option.split)
  with Cons [of "fst (release_bucket s k)"] show ?case by (simp add: file_step_def Let_def case_prod_unfold)
qed (simp add: file_step_def)

lemma file_step_finish: "file_step s [] (finish s)"
proof (induction s rule: finish.induct)
  case (1 s)
  let ?r = "release_buckets s (stuck_keys s)"
  show ?case
  proof (cases "ns_orphan_dirs s = []")
    case True
    then show ?thesis by (simp add: finish.simps file_step_def)
  next
    case False
    from 1 [OF False refl, of "fst ?r" "snd ?r"] file_step_release [of s "stuck_keys s"] show ?thesis
      using False by (subst finish.simps) (simp add: file_step_def Let_def case_prod_unfold)
  qed
qed

text \<open>
  C28. Without extension records the files of the table are emitted one by one in table order, and the summary
  holds their number and the saturating sums of their sizes.
\<close>

theorem streamed_files_in_order:
  assumes "\<forall>b\<in>set batches. snd b = []"
  shows "let files = filter (\<lambda>e. \<not> e_is_directory e) (concat (map fst batches)) in
     found_files (snd (stream_batches root batches)) = map stream_file files
   \<and> ss_files_seen (fst (stream_batches root batches)) = sat_sum (map (\<lambda>_. 1) files)
   \<and> ss_total_size_bytes (fst (stream_batches root batches)) = sat_sum (map e_size_bytes files)
   \<and> ss_total_allocation_bytes (fst (stream_batches root batches)) = sat_sum (map e_allocation_bytes files)"
proof -
  let ?s0 = "fst (emit_root (stream_new root))" let ?r = "ingest_batches ?s0 batches"
  have s0: "ns_pending_extensions ?s0 = []" "ns_files_seen ?s0 = 0" "ns_total_size_bytes ?s0 = 0"
    "ns_total_allocation_bytes ?s0 = 0" "found_files (snd (emit_root (stream_new root))) = []"
    by (simp_all add: emit_root_def stream_new_def)
  from file_step_batches [OF s0(1) assms] file_step_finish [of "fst ?r"] s0 show ?thesis
    by (simp add: stream_batches_def case_prod_unfold Let_def file_step_def into_summary_def sat_sum_def)
qed

lemma streamed_files_in_order_witness:
  "found_files (snd (stream_batches ''C:'' [([named_entry, sample_subdirectory 6 5 ''b''], []), ([named_entry], [])]))
    = [stream_file named_entry, stream_file named_entry]"
  using streamed_files_in_order [of "[([named_entry, sample_subdirectory 6 5 ''b''], []), ([named_entry], [])]" "''C:''"]
  by (simp add: Let_def sample_subdirectory_def) (simp add: named_entry_def)

end
