(* ===== verification/Snapshot_Codec.thy ===== *)
theory Snapshot_Codec
  imports Record_Stores
begin

text \<open>
  The binary snapshot format of \<open>WinBlaze.Index/src/store.rs\<close>: the \<open>SnapshotReader\<close> with its count
  of remaining bytes, the primitive and record codecs and the collection length checks. The locale
  \<open>codec\<close> states what a reader promises about its writer; every record codec is an interpretation,
  and the collection codec is proved once inside the locale.
\<close>

section \<open>Readers\<close>

datatype io_error_kind = UnexpectedEof | NotFoundError | OtherIo

datatype index_storage_error = Io io_error_kind | CorruptSnapshot string

text \<open>\<open>inner\<close> is what the underlying reader still delivers; \<open>remaining\<close> counts down from the length
  the caller announced (the file size from its metadata), which need not agree with it.\<close>

record snapshot_reader =
  inner :: "byte list"
  remaining :: nat

type_synonym 'a decoder = "snapshot_reader \<Rightarrow> index_storage_error + 'a \<times> snapshot_reader"

definition snapshot_reader_new :: "byte list \<Rightarrow> nat \<Rightarrow> snapshot_reader" where
  "snapshot_reader_new bytes len = \<lparr>inner = bytes, remaining = len\<rparr>"

definition read_exact :: "nat \<Rightarrow> byte list decoder" where
  "read_exact n c =
    (if n > remaining c then Inl (Io UnexpectedEof)
     else if n > length (inner c) then Inl (Io UnexpectedEof)
     else Inr (take n (inner c), \<lparr>inner = drop n (inner c), remaining = remaining c - n\<rparr>))"

text \<open>Sequencing with \<open>?\<close>, plain results, and early error returns.\<close>

definition dbind :: "'a decoder \<Rightarrow> ('a \<Rightarrow> 'b decoder) \<Rightarrow> 'b decoder" where
  "dbind p f c = rbind (p c) (\<lambda>(x, c'). f x c')"

definition dret :: "'a \<Rightarrow> 'a decoder" where
  "dret x c = Inr (x, c)"

definition corrupt :: "string \<Rightarrow> 'a decoder" where
  "corrupt message c = Inl (CorruptSnapshot message)"

definition read_u8 :: "byte decoder" where
  "read_u8 = dbind (read_exact 1) (\<lambda>value. dret (value ! 0))"

definition read_u32 :: "u32 decoder" where
  "read_u32 = dbind (read_exact 4) (\<lambda>value. dret (from_le value))"

definition read_u64 :: "u64 decoder" where
  "read_u64 = dbind (read_exact 8) (\<lambda>value. dret (from_le value))"

definition read_i64 :: "i64 decoder" where
  "read_i64 = dbind (read_exact 8) (\<lambda>value. dret (from_le value))"

definition read_len :: "nat decoder" where
  "read_len = dbind read_u64 (\<lambda>value. dret (unat value))"

definition remaining_bytes :: "nat decoder" where
  "remaining_bytes c = Inr (remaining c, c)"

definition validate_collection_len :: "nat \<Rightarrow> nat \<Rightarrow> string \<Rightarrow> unit decoder" where
  "validate_collection_len len min_bytes_per_item label =
    (if min_bytes_per_item = 0 then dret ()
     else dbind remaining_bytes (\<lambda>remaining.
       let max_possible = remaining div min_bytes_per_item
       in if len > max_possible
          then corrupt (label @ '' length exceeds remaining snapshot data'')
          else dret ()))"

definition MAX_SNAPSHOT_STRING_BYTES :: nat where
  "MAX_SNAPSHOT_STRING_BYTES = 1024 * 1024"

definition read_string :: "string decoder" where
  "read_string = dbind read_len (\<lambda>len.
     if len > MAX_SNAPSHOT_STRING_BYTES then corrupt ''string length exceeds maximum''
     else dbind remaining_bytes (\<lambda>remaining.
       if len > remaining then corrupt ''string length exceeds remaining snapshot data''
       else dbind (read_exact len) (\<lambda>value.
         case from_utf8 value of
           Some s \<Rightarrow> dret s
         | None \<Rightarrow> corrupt ''invalid utf-8 string'')))"

definition read_snapshot_path :: "u32 \<Rightarrow> string decoder" where
  "read_snapshot_path version =
    (if version < 2 then read_string
     else dbind read_u8 (\<lambda>flag.
       if flag = 0 then dret []
       else if flag = 1 then read_string
       else corrupt ''invalid path-present flag''))"

definition read_option_string :: "string option decoder" where
  "read_option_string = dbind read_u8 (\<lambda>flag.
     if flag = 0 then dret None
     else if flag = 1 then dbind read_string (\<lambda>s. dret (Some s))
     else corrupt ''invalid optional string flag'')"

definition read_option_i64 :: "i64 option decoder" where
  "read_option_i64 = dbind read_u8 (\<lambda>flag.
     if flag = 0 then dret None
     else if flag = 1 then dbind read_i64 (\<lambda>v. dret (Some v))
     else corrupt ''invalid optional integer flag'')"

fun read_times :: "nat \<Rightarrow> 'a decoder \<Rightarrow> 'a list decoder" where
  "read_times 0 p = dret []"
| "read_times (Suc n) p = dbind p (\<lambda>x. dbind (read_times n p) (\<lambda>xs. dret (x # xs)))"

text \<open>\<open>read_len\<close>, the length check and the \<open>for _ in 0..len\<close> loop shared by all collections.\<close>

definition read_collection :: "nat \<Rightarrow> string \<Rightarrow> 'a decoder \<Rightarrow> 'a list decoder" where
  "read_collection min_bytes_per_item label item = dbind read_len (\<lambda>len.
     dbind (validate_collection_len len min_bytes_per_item label) (\<lambda>_. read_times len item))"

section \<open>Writers\<close>

text \<open>Writing appends bytes; the only failures of the writers are I/O errors of the sink, which
  appear at the level of the file-system model.\<close>

definition write_u8 :: "byte \<Rightarrow> byte list" where "write_u8 v = [v]"
definition write_u32 :: "u32 \<Rightarrow> byte list" where "write_u32 v = to_le 4 v"
definition write_u64 :: "u64 \<Rightarrow> byte list" where "write_u64 v = to_le 8 v"
definition write_len :: "nat \<Rightarrow> byte list" where "write_len n = write_u64 (word_of_nat n)"

definition write_string :: "string \<Rightarrow> byte list" where
  "write_string s = write_len (length (as_bytes s)) @ as_bytes s"

definition write_option_string :: "string option \<Rightarrow> byte list" where
  "write_option_string v = (case v of Some s \<Rightarrow> write_u8 1 @ write_string s | None \<Rightarrow> write_u8 0)"

definition push_snapshot_path :: "string \<Rightarrow> byte list" where
  "push_snapshot_path s = (if s = [] then [0] else [1] @ write_string s)"

definition push_option_i64 :: "i64 option \<Rightarrow> byte list" where
  "push_option_i64 v = (case v of Some x \<Rightarrow> [1] @ to_le 8 x | None \<Rightarrow> [0])"

definition write_collection :: "('a \<Rightarrow> byte list) \<Rightarrow> 'a list \<Rightarrow> byte list" where
  "write_collection enc xs = write_len (length xs) @ concat (map enc xs)"

section \<open>The laws\<close>

text \<open>\<open>decodes p bs x\<close>: in front of any further input \<open>p\<close> reads exactly \<open>bs\<close> and returns \<open>x\<close>.\<close>

definition decodes :: "'a decoder \<Rightarrow> byte list \<Rightarrow> 'a \<Rightarrow> bool" where
  "decodes p bs x \<longleftrightarrow> (\<forall>ys k. p \<lparr>inner = bs @ ys, remaining = length bs + k\<rparr>
      = Inr (x, \<lparr>inner = ys, remaining = k\<rparr>))"

text \<open>\<open>streaming p\<close>: a successful read is not changed by input behind it, and it never takes more
  than it is given.\<close>

definition streaming :: "'a decoder \<Rightarrow> bool" where
  "streaming p \<longleftrightarrow> (\<forall>c x c'. p c = Inr (x, c') \<longrightarrow>
     (\<exists>n \<le> length (inner c). n \<le> remaining c \<and> inner c' = drop n (inner c) \<and> remaining c' = remaining c - n) \<and>
     (\<forall>ys k. p \<lparr>inner = inner c @ ys, remaining = remaining c + k\<rparr>
        = Inr (x, \<lparr>inner = inner c' @ ys, remaining = remaining c' + k\<rparr>)))"

named_theorems stream_intros \<open>streaming of composed readers\<close>
named_theorems decode_intros \<open>decode-after-encode of composed readers\<close>

lemma decodes_dret [decode_intros]: "decodes (dret x) [] x"
  by (simp add: decodes_def dret_def)

lemma decodes_dbind: "decodes p as x \<Longrightarrow> decodes (f x) bs y \<Longrightarrow> decodes (dbind p f) (as @ bs) y"
  by (simp add: decodes_def dbind_def add.assoc)

lemma decodes_read_exact: "n = length bs \<Longrightarrow> decodes (read_exact n) bs bs"
  by (simp add: decodes_def read_exact_def)

lemma decodes_map: "decodes p bs x \<Longrightarrow> y = g x \<Longrightarrow> decodes (dbind p (\<lambda>x. dret (g x))) bs y"
  using decodes_dbind [OF _ decodes_dret] by fastforce

lemma streaming_dret [stream_intros]: "streaming (dret x)"
  by (auto simp: streaming_def dret_def intro!: exI [of _ 0])

lemma streaming_corrupt [stream_intros]: "streaming (corrupt m)"
  by (simp add: streaming_def corrupt_def)

lemma streaming_read_exact [stream_intros]: "streaming (read_exact n)"
  by (auto simp: streaming_def read_exact_def split: if_splits intro!: exI [of _ n])

lemma streamingD:
  assumes "streaming p" "p c = Inr (x, c')"
  obtains n where "n \<le> length (inner c)" "n \<le> remaining c" "inner c' = drop n (inner c)"
    "remaining c' = remaining c - n"
    "\<And>ys k. p \<lparr>inner = inner c @ ys, remaining = remaining c + k\<rparr>
        = Inr (x, \<lparr>inner = inner c' @ ys, remaining = remaining c' + k\<rparr>)"
  using assms unfolding streaming_def by blast

lemma streaming_dbind [stream_intros]:
  assumes p: "streaming p" and f: "\<And>x. streaming (f x)"
  shows "streaming (dbind p f)"
  unfolding streaming_def
proof (intro allI impI)
  fix c y c2 assume "dbind p f c = Inr (y, c2)"
  then obtain x c1 where 1: "p c = Inr (x, c1)" and 2: "f x c1 = Inr (y, c2)"
    by (auto simp: dbind_def rbind_eq_Inr)
  from streamingD [OF p 1] obtain n where n: "n \<le> length (inner c)" "n \<le> remaining c"
    "inner c1 = drop n (inner c)" "remaining c1 = remaining c - n"
    "\<And>ys k. p \<lparr>inner = inner c @ ys, remaining = remaining c + k\<rparr>
        = Inr (x, \<lparr>inner = inner c1 @ ys, remaining = remaining c1 + k\<rparr>)" by blast
  from streamingD [OF f 2] obtain m where m: "m \<le> length (inner c1)" "m \<le> remaining c1"
    "inner c2 = drop m (inner c1)" "remaining c2 = remaining c1 - m"
    "\<And>ys k. f x \<lparr>inner = inner c1 @ ys, remaining = remaining c1 + k\<rparr>
        = Inr (y, \<lparr>inner = inner c2 @ ys, remaining = remaining c2 + k\<rparr>)" by blast
  have "\<exists>q\<le>length (inner c). q \<le> remaining c \<and> inner c2 = drop q (inner c) \<and> remaining c2 = remaining c - q"
    using n(1-4) m(1-4) by (intro exI [of _ "n + m"]) (auto simp: add.commute)
  moreover have "dbind p f \<lparr>inner = inner c @ ys, remaining = remaining c + k\<rparr>
        = Inr (y, \<lparr>inner = inner c2 @ ys, remaining = remaining c2 + k\<rparr>)" for ys k
    by (simp add: dbind_def n(5) m(5))
  ultimately show "(\<exists>q\<le>length (inner c). q \<le> remaining c \<and> inner c2 = drop q (inner c) \<and>
      remaining c2 = remaining c - q) \<and> (\<forall>ys k. dbind p f \<lparr>inner = inner c @ ys, remaining = remaining c + k\<rparr>
        = Inr (y, \<lparr>inner = inner c2 @ ys, remaining = remaining c2 + k\<rparr>))" by blast
qed

lemma streaming_if [stream_intros]: "streaming p \<Longrightarrow> streaming q \<Longrightarrow> streaming (if b then p else q)"
  by simp

lemma streaming_option [stream_intros]:
  "streaming q \<Longrightarrow> (\<And>x. streaming (f x)) \<Longrightarrow> streaming (case v of Some x \<Rightarrow> f x | None \<Rightarrow> q)"
  by (cases v) auto

text \<open>A length check that only fails when too little is left.\<close>

lemma streaming_guard [stream_intros]:
  assumes "\<And>r k. bad (r + k) \<Longrightarrow> bad r" and "streaming p"
  shows "streaming (dbind remaining_bytes (\<lambda>r. if bad r then corrupt m else p))"
proof -
  have "dbind remaining_bytes (\<lambda>r. if bad r then corrupt m else p) c = Inr (x, c') \<longleftrightarrow>
      \<not> bad (remaining c) \<and> p c = Inr (x, c')" for c x c'
    by (simp add: dbind_def remaining_bytes_def corrupt_def)
  then show ?thesis using assms unfolding streaming_def by simp blast
qed

lemma decodes_guard:
  assumes "\<And>k. \<not> bad (length bs + k)" and "decodes p bs x"
  shows "decodes (dbind remaining_bytes (\<lambda>r. if bad r then corrupt m else p)) bs x"
  using assms by (simp add: decodes_def dbind_def remaining_bytes_def)

section \<open>Primitive codecs\<close>

lemma streaming_read_prims [stream_intros]:
  "streaming read_u8" "streaming read_u32" "streaming read_u64" "streaming read_i64" "streaming read_len"
  by (simp_all only: read_u8_def read_u32_def read_u64_def read_i64_def read_len_def)
    (intro stream_intros)+

lemma streaming_validate [stream_intros]: "streaming (validate_collection_len len m label)"
  unfolding validate_collection_len_def Let_def
  by (intro stream_intros) (meson div_le_mono le_add1 le_less_trans)

lemma streaming_read_string [stream_intros]: "streaming read_string"
  unfolding read_string_def by (intro stream_intros) simp

lemma streaming_read_flags [stream_intros]:
  "streaming (read_snapshot_path version)" "streaming read_option_string" "streaming read_option_i64"
  unfolding read_snapshot_path_def read_option_string_def read_option_i64_def
  by (intro stream_intros)+

lemma streaming_read_times [stream_intros]: "streaming p \<Longrightarrow> streaming (read_times n p)"
  by (induction n) (auto intro!: stream_intros)

lemma streaming_read_collection [stream_intros]: "streaming p \<Longrightarrow> streaming (read_collection m l p)"
  unfolding read_collection_def by (intro stream_intros)

lemma decodes_u8 [decode_intros]: "decodes read_u8 (write_u8 v) v"
  unfolding read_u8_def write_u8_def by (rule decodes_map [OF decodes_read_exact]) simp_all

lemma decodes_u32 [decode_intros]: "decodes read_u32 (write_u32 v) v"
  unfolding read_u32_def write_u32_def
  by (rule decodes_map [OF decodes_read_exact]) (simp_all add: from_le_to_le_32)

lemma decodes_u64 [decode_intros]: "decodes read_u64 (write_u64 v) v"
  unfolding read_u64_def write_u64_def
  by (rule decodes_map [OF decodes_read_exact]) (simp_all add: from_le_to_le_64)

lemma decodes_i64 [decode_intros]: "decodes read_i64 (to_le 8 v) v"
  unfolding read_i64_def by (rule decodes_map [OF decodes_read_exact]) (simp_all add: from_le_to_le_64)

lemma decodes_len: "n < 2 ^ 64 \<Longrightarrow> decodes read_len (write_len n) n"
  unfolding read_len_def write_len_def by (rule decodes_map [OF decodes_u64]) (simp add: unat_of_nat)

text \<open>The strings a snapshot can carry: UTF-8 of at most one mebibyte.\<close>

definition storable :: "string \<Rightarrow> bool" where
  "storable s \<longleftrightarrow> is_str s \<and> length s \<le> MAX_SNAPSHOT_STRING_BYTES"

lemma decodes_string [decode_intros]:
  assumes "storable s" shows "decodes read_string (write_string s) s"
  unfolding read_string_def write_string_def
proof (rule decodes_dbind [OF decodes_len])
  show "length (as_bytes s) < 2 ^ 64"
    using assms by (simp add: storable_def MAX_SNAPSHOT_STRING_BYTES_def)
  have "decodes (dbind remaining_bytes (\<lambda>remaining.
       if length (as_bytes s) > remaining then corrupt m
       else dbind (read_exact (length (as_bytes s))) (\<lambda>value.
         case from_utf8 value of Some s \<Rightarrow> dret s | None \<Rightarrow> corrupt m'))) (as_bytes s @ []) s" for m m'
    using assms by (intro decodes_guard decodes_dbind [OF decodes_read_exact])
      (simp_all add: storable_def from_utf8_as_bytes decodes_dret)
  then show "decodes (if length (as_bytes s) > MAX_SNAPSHOT_STRING_BYTES then corrupt ''string length exceeds maximum''
      else dbind remaining_bytes (\<lambda>remaining. if length (as_bytes s) > remaining
        then corrupt ''string length exceeds remaining snapshot data''
        else dbind (read_exact (length (as_bytes s))) (\<lambda>value.
          case from_utf8 value of Some s \<Rightarrow> dret s | None \<Rightarrow> corrupt ''invalid utf-8 string'')))
      (as_bytes s) s"
    using assms by (simp add: storable_def)
qed

text \<open>A flag byte in front of a payload.\<close>

lemma decodes_flag:
  "decodes (f flag) bs x \<Longrightarrow> decodes (dbind read_u8 f) (flag # bs) x"
  using decodes_dbind [OF decodes_u8, of f flag bs x] by (simp add: write_u8_def)

lemma decodes_snapshot_path [decode_intros]:
  assumes "s = [] \<or> storable s" shows "decodes (read_snapshot_path 2) (push_snapshot_path s) s"
proof (cases "s = []")
  case True
  then show ?thesis unfolding read_snapshot_path_def push_snapshot_path_def
    by (simp add: decodes_flag decodes_dret)
next
  case False
  with assms show ?thesis unfolding read_snapshot_path_def push_snapshot_path_def
    by (simp add: decodes_flag decodes_string)
qed

lemma decodes_option_string [decode_intros]:
  "(\<And>s. v = Some s \<Longrightarrow> storable s) \<Longrightarrow> decodes read_option_string (write_option_string v) v"
  unfolding read_option_string_def write_option_string_def
  by (cases v) (simp_all add: write_u8_def decodes_flag decodes_dret decodes_map [OF decodes_string])

lemma decodes_option_i64 [decode_intros]: "decodes read_option_i64 (push_option_i64 v) v"
  unfolding read_option_i64_def push_option_i64_def
  by (cases v) (simp_all add: decodes_flag decodes_dret decodes_map [OF decodes_i64])

section \<open>The codec interface\<close>

text \<open>
  A record codec: the reader undoes the writer on the values \<open>ok\<close> allows, is a stream reader, and a
  written record is at least \<open>min_bytes\<close> long, the constant its collection check uses.
\<close>

locale codec =
  fixes enc :: "'a \<Rightarrow> byte list"
    and dec :: "'a decoder"
    and ok :: "'a \<Rightarrow> bool"
    and min_bytes :: nat
  assumes dec_enc: "ok x \<Longrightarrow> decodes dec (enc x) x"
    and dec_streaming: "streaming dec"
    and enc_length: "min_bytes \<le> length (enc x)"
begin

lemma decodes_times: "list_all ok xs \<Longrightarrow> decodes (read_times (length xs) dec) (concat (map enc xs)) xs"
proof (induction xs)
  case (Cons x xs)
  then have "decodes (dbind dec (\<lambda>x. dbind (read_times (length xs) dec) (\<lambda>xs. dret (x # xs))))
      (enc x @ concat (map enc xs)) (x # xs)"
    by (intro decodes_dbind [OF dec_enc] decodes_map) auto
  then show ?case by simp
qed (simp add: decodes_dret)

lemma length_concat_enc: "min_bytes * length xs \<le> length (concat (map enc xs))"
proof (induction xs)
  case (Cons x xs)
  with enc_length [of x] show ?case by simp
qed simp

lemma decodes_collection [decode_intros]:
  assumes "list_all ok xs" "length xs < 2 ^ 64"
  shows "decodes (read_collection min_bytes label dec) (write_collection enc xs) xs"
  unfolding read_collection_def write_collection_def
proof (rule decodes_dbind [OF decodes_len [OF assms(2)]])
  let ?bs = "concat (map enc xs)"
  have times: "decodes (read_times (length xs) dec) ?bs xs" using assms(1) by (rule decodes_times)
  have "validate_collection_len (length xs) min_bytes label \<lparr>inner = ?bs @ ys, remaining = length ?bs + k\<rparr>
      = Inr ((), \<lparr>inner = ?bs @ ys, remaining = length ?bs + k\<rparr>)" for ys k
  proof (cases "min_bytes = 0")
    case False
    then have "length xs \<le> (length ?bs + k) div min_bytes"
      using length_concat_enc [of xs] by (simp add: less_eq_div_iff_mult_less_eq mult.commute)
    with False show ?thesis
      by (simp add: validate_collection_len_def dbind_def remaining_bytes_def dret_def)
  qed (simp add: validate_collection_len_def dret_def)
  with times show "decodes (dbind (validate_collection_len (length xs) min_bytes label)
      (\<lambda>_. read_times (length xs) dec)) ?bs xs"
    by (simp add: decodes_def dbind_def)
qed

lemma streaming_collection [stream_intros]: "streaming (read_collection min_bytes label dec)"
  by (intro stream_intros dec_streaming)

end

end
