(* ===== verification/Snapshot_Format.thy ===== *)
theory Snapshot_Format
  imports Snapshot_Codec
begin

text \<open>
  The record codecs of \<open>store.rs\<close> and the whole snapshot: \<open>write_state\<close>, \<open>write_sorted_records\<close>
  and \<open>deserialize_state_from_reader\<close> over \<open>BufferedIndexTransaction\<close>.
\<close>

section \<open>Enumerations\<close>

definition dlift :: "index_storage_error + 'a \<Rightarrow> 'a decoder" where
  "dlift r c = rbind r (\<lambda>x. Inr (x, c))"

lemma streaming_dlift [stream_intros]: "streaming (dlift r)"
  by (cases r) (auto simp: streaming_def dlift_def intro!: exI [of _ 0])

fun encode_file_system_kind :: "file_system_kind \<Rightarrow> byte" where
  "encode_file_system_kind Ntfs = 1"
| "encode_file_system_kind Refs = 2"
| "encode_file_system_kind Fat32 = 3"
| "encode_file_system_kind ExFat = 4"
| "encode_file_system_kind UnknownFs = 0"

definition decode_file_system_kind :: "byte \<Rightarrow> index_storage_error + file_system_kind" where
  "decode_file_system_kind value =
    (if value = 0 then Inr UnknownFs else if value = 1 then Inr Ntfs else if value = 2 then Inr Refs
     else if value = 3 then Inr Fat32 else if value = 4 then Inr ExFat
     else Inl (CorruptSnapshot ''invalid filesystem kind''))"

fun encode_scan_state :: "scan_state \<Rightarrow> byte" where
  "encode_scan_state Idle = 0"
| "encode_scan_state Initializing = 1"
| "encode_scan_state Scanning = 2"
| "encode_scan_state Indexing = 3"
| "encode_scan_state Completed = 4"
| "encode_scan_state Failed = 5"
| "encode_scan_state Cancelled = 6"

definition decode_scan_state :: "byte \<Rightarrow> index_storage_error + scan_state" where
  "decode_scan_state value =
    (if value = 0 then Inr Idle else if value = 1 then Inr Initializing else if value = 2 then Inr Scanning
     else if value = 3 then Inr Indexing else if value = 4 then Inr Completed else if value = 5 then Inr Failed
     else if value = 6 then Inr Cancelled else Inl (CorruptSnapshot ''invalid scan state''))"

fun encode_file_change_kind :: "file_change_kind \<Rightarrow> byte" where
  "encode_file_change_kind Added = 0"
| "encode_file_change_kind Removed = 1"
| "encode_file_change_kind Modified = 2"
| "encode_file_change_kind Renamed = 3"
| "encode_file_change_kind Moved = 4"

definition decode_file_change_kind :: "byte \<Rightarrow> index_storage_error + file_change_kind" where
  "decode_file_change_kind value =
    (if value = 0 then Inr Added else if value = 1 then Inr Removed else if value = 2 then Inr Modified
     else if value = 3 then Inr Renamed else if value = 4 then Inr Moved
     else Inl (CorruptSnapshot ''invalid file change kind''))"

lemma decode_encode_file_system_kind [wb_codec]:
  "decode_file_system_kind (encode_file_system_kind k) = Inr k"
  by (cases k) (simp_all add: decode_file_system_kind_def)

lemma decode_encode_scan_state [wb_codec]: "decode_scan_state (encode_scan_state k) = Inr k"
  by (cases k) (simp_all add: decode_scan_state_def)

lemma decode_encode_file_change_kind [wb_codec]:
  "decode_file_change_kind (encode_file_change_kind k) = Inr k"
  by (cases k) (simp_all add: decode_file_change_kind_def)

lemma decodes_enum: "d v = Inr x \<Longrightarrow> decodes (dbind read_u8 (\<lambda>b. dlift (d b))) (write_u8 v) x"
  unfolding write_u8_def by (rule decodes_flag) (simp add: decodes_def dlift_def)

section \<open>Records\<close>

definition write_volume_record :: "volume_record \<Rightarrow> byte list" where
  "write_volume_record volume =
     write_u64 (v_id volume) @ write_string (v_mount_point volume)
     @ write_option_string (v_label volume)
     @ write_u8 (encode_file_system_kind (v_file_system volume))
     @ write_u64 (v_total_bytes volume) @ write_u64 (v_free_bytes volume)
     @ write_u64 (v_root_directory_id volume)"

definition read_volume_record :: "volume_record decoder" where
  "read_volume_record = dbind read_u64 (\<lambda>i. dbind read_string (\<lambda>mount_point.
     dbind read_option_string (\<lambda>label. dbind (dbind read_u8 (\<lambda>b. dlift (decode_file_system_kind b))) (\<lambda>fs.
     dbind read_u64 (\<lambda>tot. dbind read_u64 (\<lambda>free. dbind read_u64 (\<lambda>root. dret
       \<lparr>v_id = i, v_mount_point = mount_point, v_label = label, v_file_system = fs,
        v_total_bytes = tot, v_free_bytes = free, v_root_directory_id = root\<rparr>)))))))"

definition write_session_record :: "scan_session \<Rightarrow> byte list" where
  "write_session_record session =
     write_u64 (s_session_id session) @ write_u64 (s_volume_id session)
     @ write_string (s_root_path session) @ write_u8 (encode_scan_state (s_state session))
     @ write_u64 (p_completed_items (s_progress session)) @ write_u64 (p_total_items (s_progress session))
     @ write_u64 (p_completed_bytes (s_progress session)) @ write_u64 (p_total_bytes (s_progress session))"

definition read_session_record :: "scan_session decoder" where
  "read_session_record = dbind read_u64 (\<lambda>i. dbind read_u64 (\<lambda>volume. dbind read_string (\<lambda>root_path.
     dbind (dbind read_u8 (\<lambda>b. dlift (decode_scan_state b))) (\<lambda>state.
     dbind read_u64 (\<lambda>ci. dbind read_u64 (\<lambda>ti. dbind read_u64 (\<lambda>cb. dbind read_u64 (\<lambda>tb. dret
       \<lparr>s_session_id = i, s_volume_id = volume, s_root_path = root_path, s_state = state,
        s_progress = \<lparr>p_completed_items = ci, p_total_items = ti,
          p_completed_bytes = cb, p_total_bytes = tb\<rparr>\<rparr>))))))))"

definition push_directory_parent :: "u64 option \<Rightarrow> byte list" where
  "push_directory_parent parent = (case parent of Some p \<Rightarrow> [1] @ write_u64 p | None \<Rightarrow> [0])"

definition read_directory_parent :: "u64 option decoder" where
  "read_directory_parent = dbind read_u8 (\<lambda>flag.
     if flag = 0 then dret None
     else if flag = 1 then dbind read_u64 (\<lambda>p. dret (Some p))
     else corrupt ''invalid directory parent flag'')"

definition write_directory_record :: "directory_record \<Rightarrow> byte list" where
  "write_directory_record directory =
     write_u64 (d_id directory) @ push_directory_parent (d_parent_directory_id directory)
     @ write_string (d_name directory) @ write_string (d_full_path directory)
     @ write_u64 (d_direct_bytes directory) @ write_u64 (d_total_bytes directory)
     @ write_u64 (d_direct_entries directory) @ write_u64 (d_total_entries directory)"

definition read_directory_record :: "directory_record decoder" where
  "read_directory_record = dbind read_u64 (\<lambda>i. dbind read_directory_parent (\<lambda>parent.
     dbind read_string (\<lambda>name. dbind read_string (\<lambda>full_path.
     dbind read_u64 (\<lambda>db. dbind read_u64 (\<lambda>tb. dbind read_u64 (\<lambda>de. dbind read_u64 (\<lambda>te. dret
       \<lparr>d_id = i, d_parent_directory_id = parent, d_name = name, d_full_path = full_path,
        d_direct_bytes = db, d_total_bytes = tb, d_direct_entries = de, d_total_entries = te\<rparr>))))))))"

definition write_file_record :: "file_record \<Rightarrow> byte list" where
  "write_file_record file =
     write_u64 (f_id file) @ write_u64 (f_parent_directory_id file)
     @ write_string (f_name file) @ push_snapshot_path (f_full_path file)
     @ write_u64 (f_size_bytes file) @ write_u64 (f_allocation_bytes file)
     @ write_u32 (f_attributes file) @ push_option_i64 (f_created_utc file)
     @ push_option_i64 (f_modified_utc file) @ push_option_i64 (f_accessed_utc file)"

definition read_file_record :: "u32 \<Rightarrow> file_record decoder" where
  "read_file_record version = dbind read_u64 (\<lambda>i. dbind read_u64 (\<lambda>parent.
     dbind read_string (\<lambda>name. dbind (read_snapshot_path version) (\<lambda>full_path.
     dbind read_u64 (\<lambda>size. dbind read_u64 (\<lambda>allocation. dbind read_u32 (\<lambda>attributes.
     dbind read_option_i64 (\<lambda>created. dbind read_option_i64 (\<lambda>modified. dbind read_option_i64 (\<lambda>accessed. dret
       \<lparr>f_id = i, f_parent_directory_id = parent, f_name = name, f_full_path = full_path,
        f_size_bytes = size, f_allocation_bytes = allocation, f_attributes = attributes,
        f_timestamps = timestamps_new created modified accessed\<rparr>))))))))))"

definition write_bool :: "bool \<Rightarrow> byte list" where
  "write_bool b = write_u8 (if b then 1 else 0)"

definition read_bool :: "bool decoder" where
  "read_bool = dbind read_u8 (\<lambda>v. dret (v \<noteq> 0))"

definition write_lineage_record :: "file_lineage_record \<Rightarrow> byte list" where
  "write_lineage_record lineage =
     write_u64 (l_file_id lineage) @ write_u64 (l_previous_parent_directory_id lineage)
     @ write_u64 (l_current_parent_directory_id lineage)
     @ write_string (l_previous_full_path lineage) @ write_string (l_current_full_path lineage)
     @ write_bool (l_renamed lineage) @ write_bool (l_moved lineage)"

definition read_lineage_record :: "file_lineage_record decoder" where
  "read_lineage_record = dbind read_u64 (\<lambda>i. dbind read_u64 (\<lambda>pp. dbind read_u64 (\<lambda>cp.
     dbind read_string (\<lambda>ppath. dbind read_string (\<lambda>cpath. dbind read_bool (\<lambda>renamed. dbind read_bool (\<lambda>moved. dret
       \<lparr>l_file_id = i, l_previous_parent_directory_id = pp, l_current_parent_directory_id = cp,
        l_previous_full_path = ppath, l_current_full_path = cpath, l_renamed = renamed, l_moved = moved\<rparr>)))))))"

definition write_change_record :: "file_change_record \<Rightarrow> byte list" where
  "write_change_record change =
     write_u64 (c_file_id change) @ write_u8 (encode_file_change_kind (c_kind change))
     @ write_option_string (c_previous_full_path change)
     @ write_option_string (c_current_full_path change)"

definition read_change_record :: "file_change_record decoder" where
  "read_change_record = dbind read_u64 (\<lambda>i. dbind (dbind read_u8 (\<lambda>b. dlift (decode_file_change_kind b))) (\<lambda>kind.
     dbind read_option_string (\<lambda>ppath. dbind read_option_string (\<lambda>cpath. dret
       \<lparr>c_file_id = i, c_kind = kind, c_previous_full_path = ppath, c_current_full_path = cpath\<rparr>))))"

definition write_change_set :: "file_change_set \<Rightarrow> byte list" where
  "write_change_set = write_collection write_change_record"

definition read_change_set :: "file_change_set decoder" where
  "read_change_set = read_collection 10 ''file changes'' read_change_record"

text \<open>The collection readers with the constants of their length checks.\<close>

definition read_volume_records :: "volume_record list decoder" where
  "read_volume_records = read_collection 34 ''volume records'' read_volume_record"
definition read_session_records :: "scan_session list decoder" where
  "read_session_records = read_collection 41 ''session records'' read_session_record"
definition read_directory_records :: "directory_records decoder" where
  "read_directory_records = dbind (read_collection 41 ''directory records'' read_directory_record)
     (\<lambda>records. dret (dirs_from_iter (map (\<lambda>r. (d_id r, r)) records)))"
definition read_file_records :: "(file_records \<Rightarrow> nat) \<Rightarrow> u32 \<Rightarrow> file_records decoder" where
  "read_file_records capacity version =
     dbind (read_collection (if version \<ge> 2 then 48 else 57) ''file records'' (read_file_record version))
       (\<lambda>records. dret (files_from_iter capacity (length records) (map (\<lambda>r. (f_id r, r)) records)))"
definition read_lineage_records :: "file_lineage_record list decoder" where
  "read_lineage_records = read_collection 34 ''lineage records'' read_lineage_record"
definition read_change_sets :: "file_change_set list decoder" where
  "read_change_sets = read_collection 8 ''change sets'' read_change_set"

section \<open>Every record codec is a codec\<close>

definition volume_ok :: "volume_record \<Rightarrow> bool" where
  "volume_ok v \<longleftrightarrow> storable (v_mount_point v) \<and> pred_option storable (v_label v)"
definition session_ok :: "scan_session \<Rightarrow> bool" where
  "session_ok s \<longleftrightarrow> storable (s_root_path s)"
definition directory_ok :: "directory_record \<Rightarrow> bool" where
  "directory_ok d \<longleftrightarrow> storable (d_name d) \<and> storable (d_full_path d)"
definition file_ok :: "file_record \<Rightarrow> bool" where
  "file_ok f \<longleftrightarrow> storable (f_name f) \<and> storable (f_full_path f) \<and> ts_canonical (f_timestamps f)"
definition lineage_ok :: "file_lineage_record \<Rightarrow> bool" where
  "lineage_ok l \<longleftrightarrow> storable (l_previous_full_path l) \<and> storable (l_current_full_path l)"
definition change_ok :: "file_change_record \<Rightarrow> bool" where
  "change_ok c \<longleftrightarrow> pred_option storable (c_previous_full_path c) \<and> pred_option storable (c_current_full_path c)"
definition change_set_ok :: "file_change_set \<Rightarrow> bool" where
  "change_set_ok cs \<longleftrightarrow> list_all change_ok cs \<and> length cs < 2 ^ 64"

lemmas ok_defs = volume_ok_def session_ok_def directory_ok_def file_ok_def lineage_ok_def change_ok_def

lemma length_writers [simp]:
  "length (write_u8 v8) = 1" "length (write_u32 v32) = 4" "length (write_u64 v64) = 8" "length (write_len n) = 8"
  "length (write_string s) = 8 + length s" "length (write_bool b) = 1"
  "length (write_option_string os) = (case os of None \<Rightarrow> 1 | Some s \<Rightarrow> 9 + length s)"
  by (auto simp: write_u8_def write_u32_def write_u64_def write_len_def write_string_def write_bool_def
      write_option_string_def split: option.splits)

lemma decodes_bool [decode_intros]: "decodes read_bool (write_bool b) b"
  unfolding read_bool_def write_bool_def by (rule decodes_map [OF decodes_u8]) simp

lemma decodes_directory_parent [decode_intros]: "decodes read_directory_parent (push_directory_parent p) p"
  unfolding read_directory_parent_def push_directory_parent_def
  by (cases p) (simp_all add: decodes_flag decodes_dret decodes_map [OF decodes_u64])

lemma streaming_bool [stream_intros]: "streaming read_bool"
  unfolding read_bool_def by (intro stream_intros)

lemma streaming_directory_parent [stream_intros]: "streaming read_directory_parent"
  unfolding read_directory_parent_def by (intro stream_intros)

interpretation volume: codec write_volume_record read_volume_record volume_ok 34
proof
  show "decodes read_volume_record (write_volume_record v) v" if "volume_ok v" for v
    unfolding read_volume_record_def write_volume_record_def
    by (insert that, (rule decodes_dbind decode_intros decodes_enum wb_codec decodes_map [OF decodes_u64]
        | force simp: volume_ok_def)+)
  show "streaming read_volume_record" unfolding read_volume_record_def by (intro stream_intros)
  show "34 \<le> length (write_volume_record v)" for v by (simp add: write_volume_record_def)
qed

interpretation session: codec write_session_record read_session_record session_ok 41
proof
  show "decodes read_session_record (write_session_record v) v" if "session_ok v" for v
    unfolding read_session_record_def write_session_record_def
    by (insert that, (rule decodes_dbind decode_intros decodes_enum wb_codec decodes_map [OF decodes_u64]
        | force simp: session_ok_def)+)
  show "streaming read_session_record" unfolding read_session_record_def by (intro stream_intros)
  show "41 \<le> length (write_session_record v)" for v by (simp add: write_session_record_def)
qed

interpretation directory: codec write_directory_record read_directory_record directory_ok 41
proof
  show "decodes read_directory_record (write_directory_record v) v" if "directory_ok v" for v
    unfolding read_directory_record_def write_directory_record_def
    by (insert that, (rule decodes_dbind decode_intros decodes_map [OF decodes_u64]
        | force simp: directory_ok_def)+)
  show "streaming read_directory_record" unfolding read_directory_record_def by (intro stream_intros)
  show "41 \<le> length (write_directory_record v)" for v by (simp add: write_directory_record_def)
qed

lemma decodes_file_record:
  "file_ok f \<Longrightarrow> decodes (read_file_record 2) (write_file_record f) f"
  unfolding read_file_record_def write_file_record_def
    by (rule decodes_dbind decode_intros decodes_map [OF decodes_option_i64]
        | force simp: file_ok_def ts_canonical_def f_created_utc_def f_modified_utc_def f_accessed_utc_def)+

interpretation file_rec: codec write_file_record "read_file_record 2" file_ok 48
proof
  show "decodes (read_file_record 2) (write_file_record f) f" if "file_ok f" for f
    using that by (rule decodes_file_record)
  show "streaming (read_file_record 2)" unfolding read_file_record_def by (intro stream_intros)
  show "48 \<le> length (write_file_record f)" for f
    by (auto simp: write_file_record_def push_snapshot_path_def push_option_i64_def split: option.splits)
qed

interpretation lineage: codec write_lineage_record read_lineage_record lineage_ok 34
proof
  show "decodes read_lineage_record (write_lineage_record v) v" if "lineage_ok v" for v
    unfolding read_lineage_record_def write_lineage_record_def
    by (insert that, (rule decodes_dbind decode_intros decodes_map [OF decodes_bool]
        | force simp: lineage_ok_def)+)
  show "streaming read_lineage_record" unfolding read_lineage_record_def by (intro stream_intros)
  show "34 \<le> length (write_lineage_record v)" for v by (simp add: write_lineage_record_def)
qed

interpretation change: codec write_change_record read_change_record change_ok 10
proof
  show "decodes read_change_record (write_change_record v) v" if "change_ok v" for v
    unfolding read_change_record_def write_change_record_def
    by (insert that, (rule decodes_dbind decode_intros decodes_enum wb_codec decodes_map [OF decodes_option_string]
        | force simp: change_ok_def)+)
  show "streaming read_change_record" unfolding read_change_record_def by (intro stream_intros)
  show "10 \<le> length (write_change_record v)" for v
    by (auto simp: write_change_record_def split: option.splits)
qed

interpretation change_set: codec write_change_set read_change_set change_set_ok 8
proof
  show "decodes read_change_set (write_change_set v) v" if "change_set_ok v" for v
    using that unfolding read_change_set_def write_change_set_def change_set_ok_def
    by (intro change.decodes_collection) auto
  show "streaming read_change_set" unfolding read_change_set_def by (rule change.streaming_collection)
  show "8 \<le> length (write_change_set v)" for v by (simp add: write_change_set_def write_collection_def)
qed

end
