(* ===== verification/Snapshot_State.thy ===== *)
theory Snapshot_State
  imports Snapshot_Format Index_Transaction
begin

text \<open>
  The whole snapshot of \<open>store.rs\<close>: \<open>write_state\<close>, \<open>write_sorted_records\<close> and
  \<open>deserialize_state_from_reader\<close>. A written index reads back as the same index, and no proper
  prefix of a written snapshot is accepted.
\<close>

definition INDEX_MAGIC :: "byte list" where "INDEX_MAGIC = as_bytes ''WBIX''"
definition INDEX_FORMAT_VERSION :: u32 where "INDEX_FORMAT_VERSION = 2"

definition write_sorted_records ::
  "volume_record list \<Rightarrow> scan_session list \<Rightarrow> directory_record list \<Rightarrow> file_record list \<Rightarrow>
   file_lineage_record list \<Rightarrow> file_change_set list \<Rightarrow> byte list" where
  "write_sorted_records volumes sessions directories files lineages file_changes =
     INDEX_MAGIC @ write_u32 INDEX_FORMAT_VERSION
     @ write_collection write_volume_record volumes
     @ write_collection write_session_record sessions
     @ write_collection write_directory_record directories
     @ write_collection write_file_record files
     @ write_collection write_lineage_record lineages
     @ write_collection write_change_set file_changes"

text \<open>The four unstable sorts of \<open>write_state\<close> leave equal keys in the orders of \<open>fv fs fd ff\<close>.\<close>

definition write_state ::
  "(volume_record list \<Rightarrow> volume_record list) \<Rightarrow> (scan_session list \<Rightarrow> scan_session list) \<Rightarrow>
   (directory_record list \<Rightarrow> directory_record list) \<Rightarrow> (file_record list \<Rightarrow> file_record list) \<Rightarrow>
   buffered_index_transaction \<Rightarrow> byte list" where
  "write_state fv fs fd ff state =
    (let volumes = sort_unstable_by_key fv v_id (hm_values (t_volumes state));
         sessions = sort_unstable_by_key fs s_session_id (hm_values (t_sessions state));
         directories = sort_unstable_by_key fd d_id (dirs_values (t_directories state));
         files = sort_unstable_by_key ff f_id (files_values (t_files state))
     in INDEX_MAGIC @ write_u32 INDEX_FORMAT_VERSION
        @ write_collection write_volume_record volumes
        @ write_collection write_session_record sessions
        @ write_collection write_directory_record directories
        @ write_collection write_file_record files
        @ write_collection write_lineage_record (t_lineages state)
        @ write_collection write_change_set (t_file_changes state))"

definition read_snapshot :: "(file_records \<Rightarrow> nat) \<Rightarrow> buffered_index_transaction decoder" where
  "read_snapshot capacity = dbind (read_exact 4) (\<lambda>magic.
     if magic \<noteq> INDEX_MAGIC then corrupt ''invalid magic''
     else dbind read_u32 (\<lambda>version.
       if \<not> (1 \<le> version \<and> version \<le> INDEX_FORMAT_VERSION) then corrupt ''unsupported format version''
       else dbind read_volume_records (\<lambda>volumes. dbind read_session_records (\<lambda>sessions.
         dbind read_directory_records (\<lambda>directories. dbind (read_file_records capacity version) (\<lambda>files.
         dbind read_lineage_records (\<lambda>lineages. dbind read_change_sets (\<lambda>file_changes. dret
           \<lparr>t_volumes = foldl (\<lambda>m v. hm_insert (v_id v) v m) [] volumes,
            t_sessions = foldl (\<lambda>m s. hm_insert (s_session_id s) s m) [] sessions,
            t_directories = directories, t_files = files, t_lineages = lineages,
            t_file_changes = file_changes, t_committed = False\<rparr>))))))))"

definition deserialize_state_from_reader ::
  "(file_records \<Rightarrow> nat) \<Rightarrow> byte list \<Rightarrow> nat \<Rightarrow> index_storage_error + buffered_index_transaction" where
  "deserialize_state_from_reader capacity bytes len =
     rbind (read_snapshot capacity \<lparr>inner = bytes, remaining = len\<rparr>) (\<lambda>(t, _). Inr t)"

section \<open>Reading back a written snapshot\<close>

text \<open>What an index must be like to be written: every string is UTF-8 of at most one mebibyte.\<close>

definition transaction_ok :: "buffered_index_transaction \<Rightarrow> bool" where
  "transaction_ok t \<longleftrightarrow>
     list_all volume_ok (hm_values (t_volumes t)) \<and> length (t_volumes t) < 2 ^ 64
     \<and> list_all session_ok (hm_values (t_sessions t)) \<and> length (t_sessions t) < 2 ^ 64
     \<and> list_all directory_ok (dirs_values (t_directories t)) \<and> length (dirs_values (t_directories t)) < 2 ^ 64
     \<and> list_all file_ok (files_values (t_files t)) \<and> length (files_values (t_files t)) < 2 ^ 64
     \<and> list_all lineage_ok (t_lineages t) \<and> length (t_lineages t) < 2 ^ 64
     \<and> list_all change_set_ok (t_file_changes t) \<and> length (t_file_changes t) < 2 ^ 64"

text \<open>Two indexes with the same contents, whatever the order of their containers.\<close>

definition same_index :: "buffered_index_transaction \<Rightarrow> buffered_index_transaction \<Rightarrow> bool" where
  "same_index t u \<longleftrightarrow> map_of (t_volumes t) = map_of (t_volumes u) \<and> map_of (t_sessions t) = map_of (t_sessions u)
     \<and> dirs_get (t_directories t) = dirs_get (t_directories u) \<and> files_lookup (t_files t) = files_lookup (t_files u)
     \<and> t_lineages t = t_lineages u \<and> t_file_changes t = t_file_changes u"

definition loaded_index ::
  "(file_records \<Rightarrow> nat) \<Rightarrow> volume_record list \<Rightarrow> scan_session list \<Rightarrow> directory_record list \<Rightarrow> file_record list \<Rightarrow>
   file_lineage_record list \<Rightarrow> file_change_set list \<Rightarrow> buffered_index_transaction" where
  "loaded_index capacity volumes sessions directories files lineages file_changes =
     \<lparr>t_volumes = volumes.insert_all volumes [], t_sessions = sessions.insert_all sessions [],
      t_directories = dirs.insert_all directories dirs_with_capacity,
      t_files = files.insert_all capacity files (files_with_capacity (length files)),
      t_lineages = lineages, t_file_changes = file_changes, t_committed = False\<rparr>"

lemma dirs_from_iter_insert_all:
  "dirs_from_iter (map (\<lambda>r. (d_id r, r)) rs) = dirs.insert_all rs dirs_with_capacity"
  by (simp add: dirs_from_iter_def dirs.insert_all_def foldl_map)

lemma files_from_iter_insert_all:
  "files_from_iter capacity n (map (\<lambda>r. (f_id r, r)) rs) = files.insert_all capacity rs (files_with_capacity n)"
  by (simp add: files_from_iter_def files.insert_all_def foldl_map)

lemma decodes_snapshot:
  assumes "list_all volume_ok volumes" "length volumes < 2 ^ 64"
    and "list_all session_ok sessions" "length sessions < 2 ^ 64"
    and "list_all directory_ok directories" "length directories < 2 ^ 64"
    and "list_all file_ok files" "length files < 2 ^ 64"
    and "list_all lineage_ok lineages" "length lineages < 2 ^ 64"
    and "list_all change_set_ok file_changes" "length file_changes < 2 ^ 64"
  shows "decodes (read_snapshot capacity)
    (write_sorted_records volumes sessions directories files lineages file_changes)
    (loaded_index capacity volumes sessions directories files lineages file_changes)"
proof -
  have v: "decodes read_volume_records (write_collection write_volume_record volumes) volumes"
    unfolding read_volume_records_def by (rule volume.decodes_collection [OF assms(1,2)])
  have s: "decodes read_session_records (write_collection write_session_record sessions) sessions"
    unfolding read_session_records_def by (rule session.decodes_collection [OF assms(3,4)])
  have d: "decodes read_directory_records (write_collection write_directory_record directories)
      (dirs.insert_all directories dirs_with_capacity)"
    unfolding read_directory_records_def
    by (rule decodes_map [OF directory.decodes_collection [OF assms(5,6)]]) (rule dirs_from_iter_insert_all [symmetric])
  have f: "decodes (read_file_records capacity 2) (write_collection write_file_record files)
      (files.insert_all capacity files (files_with_capacity (length files)))"
  proof -
    have "decodes (dbind (read_collection 48 ''file records'' (read_file_record 2))
        (\<lambda>rs. dret (files_from_iter capacity (length rs) (map (\<lambda>r. (f_id r, r)) rs))))
      (write_collection write_file_record files)
      (files.insert_all capacity files (files_with_capacity (length files)))"
      by (rule decodes_map [OF file_rec.decodes_collection [OF assms(7,8)]]) (simp add: files_from_iter_insert_all)
    then show ?thesis by (simp add: read_file_records_def)
  qed
  have l: "decodes read_lineage_records (write_collection write_lineage_record lineages) lineages"
    unfolding read_lineage_records_def by (rule lineage.decodes_collection [OF assms(9,10)])
  have c: "decodes read_change_sets (write_collection write_change_set file_changes) file_changes"
    unfolding read_change_sets_def by (rule change_set.decodes_collection [OF assms(11,12)])
  note body = decodes_dbind [OF v decodes_dbind [OF s decodes_dbind [OF d decodes_dbind [OF f
      decodes_dbind [OF l decodes_map [OF c]]]]]]
  have magic: "decodes (read_exact 4) INDEX_MAGIC INDEX_MAGIC"
    by (rule decodes_read_exact) (simp add: INDEX_MAGIC_def)
  show ?thesis
    unfolding read_snapshot_def write_sorted_records_def
    by (rule decodes_dbind [OF magic], simp, rule decodes_dbind [OF decodes_u32],
        simp add: INDEX_FORMAT_VERSION_def, rule body)
      (simp add: loaded_index_def volumes.insert_all_def sessions.insert_all_def)
qed

lemma streaming_read_snapshot: "streaming (read_snapshot capacity)"
proof -
  have "streaming (read_file_record v)" for v
    unfolding read_file_record_def by (intro stream_intros)
  then have "streaming (read_file_records capacity v)" for v
    unfolding read_file_records_def by (intro stream_intros)
  then show ?thesis
    unfolding read_snapshot_def read_volume_records_def read_session_records_def read_directory_records_def
      read_lineage_records_def read_change_sets_def
    by (intro stream_intros volume.streaming_collection session.streaming_collection
        directory.streaming_collection lineage.streaming_collection change_set.streaming_collection)
qed

lemma write_state_sorted:
  assumes "transaction_invar t" "shuffles fv" "shuffles fs" "shuffles fd" "shuffles ff"
  shows "write_state fv fs fd ff t = write_sorted_records (volumes.snapshot (t_volumes t))
    (sessions.snapshot (t_sessions t)) (dirs.snapshot (t_directories t)) (files.snapshot (t_files t))
    (t_lineages t) (t_file_changes t)"
  using assms
  by (simp add: write_state_def write_sorted_records_def transaction_invar_def volumes.sort_unstable_snapshot
      sessions.sort_unstable_snapshot dirs.sort_unstable_snapshot files.sort_unstable_snapshot)

lemma decodes_write_state:
  assumes "transaction_invar t" "transaction_ok t" "shuffles fv" "shuffles fs" "shuffles fd" "shuffles ff"
  shows "decodes (read_snapshot capacity) (write_state fv fs fd ff t)
    (loaded_index capacity (volumes.snapshot (t_volumes t)) (sessions.snapshot (t_sessions t))
      (dirs.snapshot (t_directories t)) (files.snapshot (t_files t)) (t_lineages t) (t_file_changes t))"
  unfolding write_state_sorted [OF assms(1,3-6)]
  by (rule decodes_snapshot)
    (use assms(2) in \<open>simp_all add: transaction_ok_def list_all_iff volumes.snapshot_def sessions.snapshot_def
      dirs.snapshot_def files.snapshot_def hm_values_def\<close>)

lemma same_index_loaded:
  assumes "transaction_invar t"
  shows "same_index t (loaded_index capacity (volumes.snapshot (t_volumes t)) (sessions.snapshot (t_sessions t))
      (dirs.snapshot (t_directories t)) (files.snapshot (t_files t)) (t_lineages t) (t_file_changes t))"
  using assms
  by (simp add: same_index_def loaded_index_def transaction_invar_def volumes.snapshot_insert_all
      sessions.snapshot_insert_all dirs.snapshot_insert_all files.snapshot_insert_all)

lemma loaded_index_invar: "transaction_invar (loaded_index capacity vs ss ds fs ls cs)"
  by (simp add: transaction_invar_def loaded_index_def volumes.insert_all_correct volumes.invar_empty
      sessions.insert_all_correct sessions.invar_empty dirs.insert_all_correct dirs.invar_empty
      files.insert_all_correct files.invar_empty)


lemma deserialize_write_state:
  assumes "transaction_invar t" "transaction_ok t" "shuffles fv" "shuffles fs" "shuffles fd" "shuffles ff"
  shows "\<exists>t'. deserialize_state_from_reader capacity (write_state fv fs fd ff t)
        (length (write_state fv fs fd ff t)) = Inr t' \<and> transaction_invar t' \<and> same_index t t'"
proof -
  have "read_snapshot capacity \<lparr>inner = write_state fv fs fd ff t @ [],
      remaining = length (write_state fv fs fd ff t) + 0\<rparr> =
    Inr (loaded_index capacity (volumes.snapshot (t_volumes t)) (sessions.snapshot (t_sessions t))
      (dirs.snapshot (t_directories t)) (files.snapshot (t_files t)) (t_lineages t) (t_file_changes t),
      \<lparr>inner = [], remaining = 0\<rparr>)"
    using decodes_write_state [OF assms] unfolding decodes_def by blast
  then show ?thesis
    using same_index_loaded [OF assms(1)] loaded_index_invar
    by (fastforce simp: deserialize_state_from_reader_def)
qed


lemma streaming_no_prefix:
  assumes "streaming p" "decodes p bs x" "n < length bs"
  shows "\<exists>e. p \<lparr>inner = take n bs, remaining = n\<rparr> = Inl e"
proof (cases "p \<lparr>inner = take n bs, remaining = n\<rparr>")
  case (Inr r)
  obtain y c' where "r = (y, c')" by force
  with Inr have r: "p \<lparr>inner = take n bs, remaining = n\<rparr> = Inr (y, c')" by simp
  have "\<forall>ys k. p \<lparr>inner = take n bs @ ys, remaining = n + k\<rparr>
      = Inr (y, \<lparr>inner = inner c' @ ys, remaining = remaining c' + k\<rparr>)"
    using assms(1) r unfolding streaming_def by (metis snapshot_reader.select_convs)
  then have "p \<lparr>inner = take n bs @ drop n bs, remaining = n + (length bs - n)\<rparr>
      = Inr (y, \<lparr>inner = inner c' @ drop n bs, remaining = remaining c' + (length bs - n)\<rparr>)"
    by blast
  moreover have "p \<lparr>inner = bs @ [], remaining = length bs + 0\<rparr> = Inr (x, \<lparr>inner = [], remaining = 0\<rparr>)"
    using assms(2) unfolding decodes_def by blast
  ultimately show ?thesis using assms(3) by simp
qed simp

text \<open>
  C10. Every strict prefix of a written snapshot is rejected with an error, so a torn write can not be
  mistaken for a smaller index.
\<close>

theorem truncated_snapshot_rejected:
  assumes "transaction_invar t" "transaction_ok t" "shuffles fv" "shuffles fs" "shuffles fd" "shuffles ff"
    and "n < length (write_state fv fs fd ff t)"
  shows "\<exists>e. deserialize_state_from_reader capacity (take n (write_state fv fs fd ff t)) n = Inl e"
proof -
  obtain e where "read_snapshot capacity \<lparr>inner = take n (write_state fv fs fd ff t), remaining = n\<rparr> = Inl e"
    using streaming_no_prefix [OF streaming_read_snapshot decodes_write_state [OF assms(1-6)] assms(7)] by blast
  then show ?thesis by (simp add: deserialize_state_from_reader_def)
qed

text \<open>Two indexes with the same contents are written to the same bytes: the unstable sorts and the
  iteration orders of the containers do not show.\<close>

text \<open>
  The bytes of a snapshot depend only on the index it stores: two transactions with the same records
  serialize identically whatever the insertion history and enumeration order of their tables.
\<close>

theorem snapshot_canonical:
  assumes "transaction_invar t" "transaction_invar u" "same_index t u"
    and "shuffles fv" "shuffles fs" "shuffles fd" "shuffles ff"
    and "shuffles gv" "shuffles gs" "shuffles gd" "shuffles gf"
  shows "write_state fv fs fd ff t = write_state gv gs gd gf u"
proof -
  have "volumes.snapshot (t_volumes t) = volumes.snapshot (t_volumes u)"
    using assms by (intro volumes.snapshot_eqI) (auto simp: transaction_invar_def same_index_def)
  moreover have "sessions.snapshot (t_sessions t) = sessions.snapshot (t_sessions u)"
    using assms by (intro sessions.snapshot_eqI) (auto simp: transaction_invar_def same_index_def)
  moreover have "dirs.snapshot (t_directories t) = dirs.snapshot (t_directories u)"
    using assms by (intro dirs.snapshot_eqI) (auto simp: transaction_invar_def same_index_def)
  moreover have "files.snapshot (t_files t) = files.snapshot (t_files u)"
    using assms by (intro files.snapshot_eqI) (auto simp: transaction_invar_def same_index_def)
  ultimately show ?thesis
    using assms by (simp add: write_state_sorted same_index_def)
qed


section \<open>A sample index\<close>

definition sample_index :: buffered_index_transaction where
  "sample_index = upsert_volume (sample_volume 1 5) (upsert_directory (sample_directory 5 None ''C:'' ''C:'')
     (upsert_file (\<lambda>_. 0) (sample_file 7 5 ''a.txt'' 10) transaction_default))"

lemma sample_index_invar: "transaction_invar sample_index"
  unfolding sample_index_def by (intro transaction_invar_upsert transaction_invar_default)

lemma storable_samples: "storable []" "storable ''C:''" "storable ''a.txt''"
  by (simp_all add: storable_def MAX_SNAPSHOT_STRING_BYTES_def is_str_def as_bytes_def char_byte_def of_char_def)

lemma sample_index_ok: "transaction_ok sample_index"
proof -
  have "volume_ok (sample_volume 1 5)" "directory_ok (sample_directory 5 None ''C:'' ''C:'')"
    "file_ok (sample_file 7 5 ''a.txt'' 10)"
    by (simp_all add: ok_defs sample_defs storable_samples)
  then show ?thesis
    by (simp add: transaction_ok_def sample_index_def transaction_default_def upsert_volume_def
        upsert_directory_def upsert_file_def hm_insert_def hm_values_def dirs_insert_def dirs_values_def
        dirs_with_capacity_def files_insert_def files_values_def files_default_def Let_def)
qed


lemma truncated_snapshot_rejected_witness:
  "\<exists>e. deserialize_state_from_reader (\<lambda>_. 0) (take 7 (write_state rev id rev id sample_index)) 7 = Inl e"
  by (rule truncated_snapshot_rejected [OF sample_index_invar sample_index_ok])
    (simp_all add: shuffles_id write_state_def INDEX_MAGIC_def)

lemma snapshot_canonical_witness:
  "write_state rev id rev id sample_index = write_state id rev id rev sample_index"
  by (rule snapshot_canonical [OF sample_index_invar sample_index_invar])
    (simp_all add: shuffles_id same_index_def)

end
