(* ===== verification/Path_Remap.thy ===== *)
theory Path_Remap
  imports Index_Transaction
begin

text \<open>
  \<open>remap_current_directory_ids_by_path\<close> and \<open>remap_current_files_by_path\<close> of \<open>store.rs\<close>: the ids of
  a rescan are renamed so that a path known from the previous index keeps its id.
\<close>

section \<open>Directories\<close>

definition max_id :: "u64 list \<Rightarrow> u64" where
  "max_id ids = foldl max 0 ids"

definition path_index :: "('r \<Rightarrow> string) \<Rightarrow> ('r \<Rightarrow> 'v) \<Rightarrow> 'r list \<Rightarrow> string \<rightharpoonup> 'v" where
  "path_index path f rs = foldl (\<lambda>m r. m(path r \<mapsto> f r)) Map.empty rs"

definition directory_ids_by_path :: "directory_records \<Rightarrow> string \<rightharpoonup> u64" where
  "directory_ids_by_path previous =
    path_index d_full_path d_id (filter (\<lambda>r. d_full_path r \<noteq> []) (dirs_values previous))"

text \<open>The references a rescan makes to directories, in the order the code visits them.\<close>

definition directory_references :: "directory_record list \<Rightarrow> file_record list \<Rightarrow> volume_record hash_map \<Rightarrow> u64 list" where
  "directory_references current files volumes =
    List.map_filter d_parent_directory_id current @ map f_parent_directory_id files
    @ map v_root_directory_id (hm_values volumes)"

definition first_free_id ::
  "directory_records \<Rightarrow> directory_record list \<Rightarrow> file_record list \<Rightarrow> volume_record hash_map \<Rightarrow> u64" where
  "first_free_id previous current files volumes =
    sat_add (max_id (map d_id (dirs_values previous) @ map d_id current
      @ directory_references current files volumes)) 1"

definition assign_directory :: "(string \<rightharpoonup> u64) \<Rightarrow> directory_record \<Rightarrow> u64 \<times> u64 hash_map \<Rightarrow> u64 \<times> u64 hash_map" where
  "assign_directory previous_by_path r = (\<lambda>(next_id, ids).
    (case previous_by_path (d_full_path r) of
       Some i \<Rightarrow> (next_id, hm_insert (d_id r) i ids)
     | None \<Rightarrow> (sat_add next_id 1, hm_insert (d_id r) next_id ids)))"

definition assign_reference :: "directory_records \<Rightarrow> u64 \<Rightarrow> u64 \<times> u64 hash_map \<Rightarrow> u64 \<times> u64 hash_map" where
  "assign_reference previous reference = (\<lambda>(next_id, ids).
    (if map_of ids reference \<noteq> None then (next_id, ids)
     else if dirs_get previous reference \<noteq> None \<or> reference \<in> set (hm_values ids)
     then (sat_add next_id 1, hm_insert reference next_id ids)
     else (next_id, hm_insert reference reference ids)))"

definition directory_id_map ::
  "directory_records \<Rightarrow> directory_record list \<Rightarrow> file_record list \<Rightarrow> volume_record hash_map \<Rightarrow> u64 hash_map" where
  "directory_id_map previous current files volumes =
    snd (fold (assign_reference previous) (directory_references current files volumes)
      (fold (assign_directory (directory_ids_by_path previous)) current
        (first_free_id previous current files volumes, [])))"

text \<open>\<open>ids[&k]\<close> panics on a missing key: \<open>None\<close>.\<close>

fun map_result :: "('a \<Rightarrow> 'b option) \<Rightarrow> 'a list \<Rightarrow> 'b list option" where
  "map_result f [] = Some []"
| "map_result f (x # xs) = Option.bind (f x) (\<lambda>y. map_option (Cons y) (map_result f xs))"

definition rename_directory :: "(u64 \<rightharpoonup> u64) \<Rightarrow> directory_record \<Rightarrow> directory_record option" where
  "rename_directory ids r = Option.bind (ids (d_id r)) (\<lambda>i.
     case d_parent_directory_id r of
       None \<Rightarrow> Some (r\<lparr>d_id := i, d_parent_directory_id := None\<rparr>)
     | Some p \<Rightarrow> map_option (\<lambda>q. r\<lparr>d_id := i, d_parent_directory_id := Some q\<rparr>) (ids p))"

definition rename_file_parent :: "(u64 \<rightharpoonup> u64) \<Rightarrow> file_record \<Rightarrow> file_record option" where
  "rename_file_parent ids r = map_option (\<lambda>p. r\<lparr>f_parent_directory_id := p\<rparr>) (ids (f_parent_directory_id r))"

definition rename_volume_root :: "(u64 \<rightharpoonup> u64) \<Rightarrow> u64 \<times> volume_record \<Rightarrow> (u64 \<times> volume_record) option" where
  "rename_volume_root ids = (\<lambda>(k, v).
     map_option (\<lambda>d. (k, v\<lparr>v_root_directory_id := d\<rparr>)) (ids (v_root_directory_id v)))"

definition remap_current_directory_ids_by_path ::
  "directory_records \<Rightarrow> directory_record list \<Rightarrow> file_record list \<Rightarrow> volume_record hash_map \<Rightarrow>
   (directory_record list \<times> file_record list \<times> volume_record hash_map) option" where
  "remap_current_directory_ids_by_path previous current files volumes =
    (let ids = map_of (directory_id_map previous current files volumes)
     in Option.bind (map_result (rename_directory ids) current) (\<lambda>current.
        Option.bind (map_result (rename_file_parent ids) files) (\<lambda>files.
        map_option (\<lambda>volumes. (current, files, volumes)) (map_result (rename_volume_root ids) volumes))))"

section \<open>Files\<close>

definition assign_file :: "(string \<rightharpoonup> file_record) \<Rightarrow> file_record \<Rightarrow> u64 \<Rightarrow> file_record \<times> u64" where
  "assign_file previous_by_path r next_id =
    (case previous_by_path (f_full_path r) of
       Some p \<Rightarrow> (r\<lparr>f_id := f_id p\<rparr>, next_id)
     | None \<Rightarrow> (r\<lparr>f_id := next_id\<rparr>, sat_add next_id 1))"

fun assign_files :: "(string \<rightharpoonup> file_record) \<Rightarrow> file_record list \<Rightarrow> u64 \<Rightarrow> file_record list" where
  "assign_files previous_by_path [] next_id = []"
| "assign_files previous_by_path (r # rs) next_id =
    (let (r, next_id) = assign_file previous_by_path r next_id
     in r # assign_files previous_by_path rs next_id)"

definition remap_current_files_by_path :: "file_record list \<Rightarrow> file_record list \<Rightarrow> file_record list" where
  "remap_current_files_by_path previous current =
    (let previous_by_path = path_index f_full_path (\<lambda>r. r) previous;
         next_id = sat_add (max_id (map f_id (previous @ current))) 1
     in assign_files previous_by_path current next_id)"

section \<open>Facts on the indexes\<close>

lemma max_id_ge: "x \<in> set xs \<Longrightarrow> x \<le> max_id xs"
proof -
  have ge: "m \<le> foldl max m xs" "x \<in> set xs \<Longrightarrow> x \<le> foldl max m xs" for m :: u64 and xs
    by (induction xs arbitrary: m) (auto intro: order_trans [OF max.cobounded1] order_trans [OF max.cobounded2])
  then show "x \<in> set xs \<Longrightarrow> x \<le> max_id xs" by (simp add: max_id_def)
qed

lemma path_index_Some: "path_index path f rs p = Some v \<Longrightarrow> \<exists>r\<in>set rs. path r = p \<and> f r = v"
proof -
  have "foldl (\<lambda>m r. m(path r \<mapsto> f r)) m rs p = Some v \<Longrightarrow> m p = Some v \<or> (\<exists>r\<in>set rs. path r = p \<and> f r = v)" for m
    by (induction rs arbitrary: m) (fastforce split: if_splits)+
  then show "path_index path f rs p = Some v \<Longrightarrow> ?thesis" by (auto simp: path_index_def)
qed

lemma path_index_None: "path_index path f rs p = None \<longleftrightarrow> p \<notin> path ` set rs"
proof -
  have "foldl (\<lambda>m r. m(path r \<mapsto> f r)) m rs p = None \<longleftrightarrow> m p = None \<and> p \<notin> path ` set rs" for m
    by (induction rs arbitrary: m) auto
  then show ?thesis by (simp add: path_index_def)
qed

lemma hm_insert_new: "k \<notin> fst ` set m \<Longrightarrow> hm_insert k v m = m @ [(k, v)]"
  unfolding hm_insert_def by (induction m) auto

lemma directory_ids_by_path_Some:
  "directory_ids_by_path previous p = Some i \<Longrightarrow> \<exists>r\<in>set (dirs_values previous). d_full_path r = p \<and> d_id r = i"
  by (auto simp: directory_ids_by_path_def dest!: path_index_Some)

lemma directory_ids_by_path_inj:
  assumes "dirs_invar previous" "directory_ids_by_path previous p = Some i" "directory_ids_by_path previous q = Some i"
  shows "p = q"
proof -
  have "distinct (map d_id (dirs_values previous))" using assms(1) by (rule dirs.values_distinct)
  then show ?thesis using assms(2,3)
    by (auto dest!: directory_ids_by_path_Some simp: distinct_map dest: inj_onD)
qed


lemma map_le_SomeD: "m \<subseteq>\<^sub>m m' \<Longrightarrow> m k = Some v \<Longrightarrow> m' k = Some v"
  unfolding map_le_def by (drule bspec [of _ _ k]) auto

lemma sat_add_1:
  "unat n + 1 < 2 ^ 64 \<Longrightarrow> unat (sat_add n 1) = unat n + 1 \<and> n < sat_add n 1" for n :: u64
  by (simp add: unat_sat_add word_less_nat_alt)

section \<open>The directory renaming is injective\<close>

text \<open>After the directories \<open>ds\<close>: their new ids are distinct and below the next free id, and a
  known path has its previous id.\<close>

definition directories_assigned ::
  "(string \<rightharpoonup> u64) \<Rightarrow> u64 \<Rightarrow> directory_record list \<Rightarrow> u64 \<times> u64 hash_map \<Rightarrow> bool" where
  "directories_assigned prev n0 ds = (\<lambda>(n, ids).
     unat n0 \<le> unat n \<and> unat n \<le> unat n0 + length ds \<and> map fst ids = map d_id ds
     \<and> distinct (map snd ids)
     \<and> (\<forall>(k, v)\<in>set ids. v < n \<and> (\<exists>r\<in>set ds. d_id r = k \<and>
          (case prev (d_full_path r) of Some i \<Rightarrow> v = i | None \<Rightarrow> n0 \<le> v))))"

lemma assign_directory_step:
  assumes st: "directories_assigned prev n0 ds (n, ids)"
    and new: "d_id r \<notin> d_id ` set ds" "d_full_path r \<notin> d_full_path ` set ds"
    and room: "unat n0 + length ds + 1 < 2 ^ 64"
    and below: "\<And>p i. prev p = Some i \<Longrightarrow> i < n0"
    and inj: "\<And>p q i. prev p = Some i \<Longrightarrow> prev q = Some i \<Longrightarrow> p = q"
  shows "directories_assigned prev n0 (ds @ [r]) (assign_directory prev r (n, ids))"
proof -
  have "set (map fst ids) = set (map d_id ds)"
    using st unfolding directories_assigned_def split_conv by metis
  then have key: "d_id r \<notin> fst ` set ids" using new by auto
  have n: "unat (sat_add n 1) = unat n + 1" "n < sat_add n 1"
    using sat_add_1 [of n] st room by (auto simp: directories_assigned_def)
  have lt: "v < n" if "(k, v) \<in> set ids" for k v
    using st that by (auto simp: directories_assigned_def)
  show ?thesis
  proof (cases "prev (d_full_path r)")
    case None
    have "n \<notin> snd ` set ids" using lt by fastforce
    moreover have "v < sat_add n 1" if "(k, v) \<in> set ids" for k v
      using lt [OF that] n(2) by (rule less_trans)
    ultimately show ?thesis using st None n
      by (fastforce simp: directories_assigned_def assign_directory_def hm_insert_new [OF key] word_le_nat_alt)
  next
    case (Some i)
    have "i \<notin> snd ` set ids"
    proof
      assume "i \<in> snd ` set ids"
      then obtain k where "(k, i) \<in> set ids" by auto
      then obtain q where q: "q \<in> set ds" "case prev (d_full_path q) of Some j \<Rightarrow> i = j | None \<Rightarrow> n0 \<le> i"
        using st by (fastforce simp: directories_assigned_def)
      show False
      proof (cases "prev (d_full_path q)")
        case None
        then show False using q below [OF Some] by simp
      next
        case (Some j)
        then have "d_full_path q = d_full_path r" using q inj \<open>prev (d_full_path r) = Some i\<close> by simp
        then show False using q(1) new(2) by (metis image_eqI)
      qed
    qed
    moreover have "i < n"
      using below [OF Some] st by (auto simp: directories_assigned_def word_less_nat_alt)
    ultimately show ?thesis using st Some
      by (fastforce simp: directories_assigned_def assign_directory_def hm_insert_new [OF key])
  qed
qed

lemma assign_directories:
  assumes "directories_assigned prev n0 ds st"
    and "distinct (map d_id (ds @ rs))" "distinct (map d_full_path (ds @ rs))"
    and room: "unat n0 + length (ds @ rs) < 2 ^ 64"
    and below: "\<And>p i. prev p = Some i \<Longrightarrow> i < n0"
    and inj: "\<And>p q i. prev p = Some i \<Longrightarrow> prev q = Some i \<Longrightarrow> p = q"
  shows "directories_assigned prev n0 (ds @ rs) (fold (assign_directory prev) rs st)"
  using assms(1-4)
proof (induction rs arbitrary: ds st)
  case (Cons r rs)
  obtain n ids where st: "st = (n, ids)" by force
  have "directories_assigned prev n0 (ds @ [r]) (assign_directory prev r st)"
    unfolding st by (rule assign_directory_step [OF _ _ _ _ below inj]) (use Cons.prems in \<open>auto simp: st\<close>)
  with Cons.IH [of "ds @ [r]"] Cons.prems show ?case by simp
qed simp

text \<open>While references are assigned, the map stays injective and below the next free id.\<close>

definition injective_below :: "nat \<Rightarrow> u64 \<times> u64 hash_map \<Rightarrow> bool" where
  "injective_below b = (\<lambda>(n, ids). b \<le> unat n \<and> distinct (map fst ids) \<and> distinct (map snd ids)
     \<and> (\<forall>v\<in>snd ` set ids. v < n))"

lemma assign_reference_step:
  assumes st: "injective_below b st" and x: "unat x < b" and room: "unat (fst st) + 1 < 2 ^ 64"
    and prev: "\<And>i. dirs_get previous i \<noteq> None \<Longrightarrow> unat i < b"
  shows "injective_below b (assign_reference previous x st)
    \<and> map_of (snd (assign_reference previous x st)) x \<noteq> None
    \<and> map_of (snd st) \<subseteq>\<^sub>m map_of (snd (assign_reference previous x st))
    \<and> unat (fst (assign_reference previous x st)) \<le> unat (fst st) + 1
    \<and> (map_of (snd st) x = None \<longrightarrow>
         (\<exists>v. map_of (snd (assign_reference previous x st)) x = Some v \<and> dirs_get previous v = None))
    \<and> (\<forall>y. y \<noteq> x \<longrightarrow> map_of (snd (assign_reference previous x st)) y = map_of (snd st) y)"
proof -
  obtain n ids where s: "st = (n, ids)" by force
  have n: "unat (sat_add n 1) = unat n + 1" "n < sat_add n 1" using sat_add_1 [of n] room by (auto simp: s)
  show ?thesis
  proof (cases "x \<in> fst ` set ids")
    case True
    then obtain y where "map_of ids x = Some y" by (metis map_of_eq_None_iff not_Some_eq)
    then show ?thesis using st by (simp add: s assign_reference_def)
  next
    case key: False
    then have none: "map_of ids x = None" by (simp add: map_of_eq_None_iff)
    have ext: "map_of ids \<subseteq>\<^sub>m map_of (ids @ [(x, v)])" "map_of (ids @ [(x, v)]) x = Some v" for v
      using none by (auto simp: map_le_def map_add_def)
    have lt: "v < n" if "v \<in> snd ` set ids" for v
      using st that by (auto simp: s injective_below_def)
    then have fresh: "n \<notin> snd ` set ids" by blast
    have up: "v < sat_add n 1" if "v \<in> snd ` set ids" for v
      using lt [OF that] n(2) by (rule less_trans)
    have "dirs_get previous n = None"
      using prev [of n] st by (force simp: s injective_below_def)
    moreover have "map_of (ids @ [(x, v)]) y = map_of ids y" if "y \<noteq> x" for v y
      using that by (auto simp: map_add_def split: option.splits)
    moreover have "x < n" using st x by (auto simp: s injective_below_def word_less_nat_alt)
    ultimately show ?thesis
      using st key none ext fresh up n
      by (auto simp: s assign_reference_def hm_insert_new [OF key] injective_below_def hm_values_def)
  qed
qed

lemma assign_references:
  assumes "injective_below b st" "\<And>x. x \<in> set xs \<Longrightarrow> unat x < b" "unat (fst st) + length xs < 2 ^ 64"
    and prev: "\<And>i. dirs_get previous i \<noteq> None \<Longrightarrow> unat i < b"
  shows "injective_below b (fold (assign_reference previous) xs st)
    \<and> (\<forall>x\<in>set xs. map_of (snd (fold (assign_reference previous) xs st)) x \<noteq> None)
    \<and> map_of (snd st) \<subseteq>\<^sub>m map_of (snd (fold (assign_reference previous) xs st))
    \<and> (\<forall>x\<in>set xs. map_of (snd st) x = None \<longrightarrow>
         (\<exists>v. map_of (snd (fold (assign_reference previous) xs st)) x = Some v \<and> dirs_get previous v = None))"
  using assms(1-3)
proof (induction xs arbitrary: st)
  case (Cons x xs)
  let ?st = "assign_reference previous x st" and ?fin = "fold (assign_reference previous) xs"
  have s: "injective_below b ?st" "map_of (snd ?st) x \<noteq> None" "map_of (snd st) \<subseteq>\<^sub>m map_of (snd ?st)"
    "unat (fst ?st) \<le> unat (fst st) + 1"
    "map_of (snd st) x = None \<Longrightarrow> \<exists>v. map_of (snd ?st) x = Some v \<and> dirs_get previous v = None"
    "\<And>y. y \<noteq> x \<Longrightarrow> map_of (snd ?st) y = map_of (snd st) y"
  proof -
    have "unat x < b" "unat (fst st) + 1 < 2 ^ 64" using Cons.prems(2,3) by auto
    note step = assign_reference_step [OF Cons.prems(1) this prev]
    show "injective_below b ?st" "map_of (snd ?st) x \<noteq> None" "map_of (snd st) \<subseteq>\<^sub>m map_of (snd ?st)"
      "unat (fst ?st) \<le> unat (fst st) + 1"
      "map_of (snd st) x = None \<Longrightarrow> \<exists>v. map_of (snd ?st) x = Some v \<and> dirs_get previous v = None"
      "\<And>y. y \<noteq> x \<Longrightarrow> map_of (snd ?st) y = map_of (snd st) y"
      using step by blast+
  qed
  have r: "injective_below b (?fin ?st)" "\<forall>x\<in>set xs. map_of (snd (?fin ?st)) x \<noteq> None"
    "map_of (snd ?st) \<subseteq>\<^sub>m map_of (snd (?fin ?st))"
    "\<forall>x\<in>set xs. map_of (snd ?st) x = None \<longrightarrow>
         (\<exists>v. map_of (snd (?fin ?st)) x = Some v \<and> dirs_get previous v = None)"
  proof -
    have "unat (fst ?st) + length xs < 2 ^ 64" using s(4) Cons.prems(3) by simp
    moreover have "unat y < b" if "y \<in> set xs" for y using Cons.prems(2) that by simp
    ultimately show "injective_below b (?fin ?st)" "\<forall>x\<in>set xs. map_of (snd (?fin ?st)) x \<noteq> None"
      "map_of (snd ?st) \<subseteq>\<^sub>m map_of (snd (?fin ?st))"
      "\<forall>x\<in>set xs. map_of (snd ?st) x = None \<longrightarrow>
         (\<exists>v. map_of (snd (?fin ?st)) x = Some v \<and> dirs_get previous v = None)"
      using Cons.IH [OF s(1)] by blast+
  qed
  have keep: "map_of (snd ?st) y = Some v \<Longrightarrow> map_of (snd (?fin ?st)) y = Some v" for y v
    using r(3) by (rule map_le_SomeD)
  have "map_of (snd (?fin ?st)) x \<noteq> None" using s(2) keep by blast
  moreover have "\<exists>v. map_of (snd (?fin ?st)) y = Some v \<and> dirs_get previous v = None"
    if "y \<in> set (x # xs)" "map_of (snd st) y = None" for y
  proof (cases "y = x")
    case True
    then have "map_of (snd st) x = None" using that by simp
    then obtain v where "map_of (snd ?st) x = Some v" "dirs_get previous v = None" using s(5) by blast
    then show ?thesis unfolding True using keep by blast
  next
    case False
    with that s(6) r(4) show ?thesis by simp
  qed
  moreover have "map_of (snd st) \<subseteq>\<^sub>m map_of (snd (?fin ?st))" using s(3) r(3) by (rule map_le_trans)
  ultimately show ?case using r(1,2) by (simp del: not_None_eq)
qed simp

lemma map_result_map: "(\<And>x. x \<in> set xs \<Longrightarrow> f x = Some (g x)) \<Longrightarrow> map_result f xs = Some (map g xs)"
  by (induction xs) auto


definition renamed_directory :: "(u64 \<Rightarrow> u64) \<Rightarrow> directory_record \<Rightarrow> directory_record" where
  "renamed_directory g r = r\<lparr>d_id := g (d_id r), d_parent_directory_id := map_option g (d_parent_directory_id r)\<rparr>"

text \<open>All ids the renaming has to cover, and the room it needs above the largest one.\<close>

definition remap_room ::
  "directory_records \<Rightarrow> directory_record list \<Rightarrow> file_record list \<Rightarrow> volume_record hash_map \<Rightarrow> bool" where
  "remap_room previous current files volumes \<longleftrightarrow>
     (let refs = directory_references current files volumes
      in unat (max_id (map d_id (dirs_values previous) @ map d_id current @ refs))
           + length current + length refs + 1 < 2 ^ 64)"

lemma dirs_get_mem:
  "dirs_invar s \<Longrightarrow> dirs_get s i = None \<longleftrightarrow> i \<notin> d_id ` set (dirs_values s)"
proof -
  assume inv: "dirs_invar s"
  have "i \<in> d_id ` set (dirs_values s) \<longleftrightarrow> (\<exists>r. dirs_get s i = Some r)"
  proof
    assume "i \<in> d_id ` set (dirs_values s)"
    then show "\<exists>r. dirs_get s i = Some r" using dirs.values_lookup [OF inv] by auto
  next
    assume "\<exists>r. dirs_get s i = Some r"
    then obtain r where r: "dirs_get s i = Some r" by blast
    then have "d_id r = i" using dirs.lookup_key [OF inv] by blast
    with r show "i \<in> d_id ` set (dirs_values s)" using dirs.values_lookup [OF inv] by auto
  qed
  then show ?thesis by (metis not_None_eq)
qed

lemma directory_id_map_correct:
  assumes inv: "dirs_invar previous" and ids: "distinct (map d_id current)"
    and paths: "distinct (map d_full_path current)" and room: "remap_room previous current files volumes"
  defines "m \<equiv> map_of (directory_id_map previous current files volumes)"
    and "refs \<equiv> directory_references current files volumes"
  shows "d_id ` set current \<union> set refs \<subseteq> dom m" "inj_on m (dom m)"
    "d \<in> set current \<Longrightarrow> \<exists>i. m (d_id d) = Some i \<and> (case directory_ids_by_path previous (d_full_path d) of
        Some j \<Rightarrow> i = j | None \<Rightarrow> dirs_get previous i = None)"
    "x \<in> set refs - d_id ` set current \<Longrightarrow> \<exists>i. m x = Some i \<and> dirs_get previous i = None"
proof -
  define n0 where "n0 = first_free_id previous current files volumes"
  define prev where "prev = directory_ids_by_path previous"
  define st where "st = fold (assign_directory prev) current (n0, [])"
  define xs where "xs = map d_id (dirs_values previous) @ map d_id current @ refs"
  have n0: "unat n0 = unat (max_id xs) + 1"
    using room by (simp add: n0_def xs_def first_free_id_def remap_room_def unat_sat_add Let_def refs_def)
  have all: "unat x < unat n0" if "x \<in> set xs" for x
    using max_id_ge [OF that] n0 by (simp add: word_le_nat_alt)
  have prev_ids: "unat i < unat n0" if "dirs_get previous i \<noteq> None" for i
    using that all [of i] by (auto simp: dirs_get_mem [OF inv] xs_def)
  have below: "i < n0" if "prev p = Some i" for p i
    using directory_ids_by_path_Some [of previous p i] that all [of i]
    by (auto simp: prev_def xs_def word_less_nat_alt)
  have inj: "p = q" if "prev p = Some i" "prev q = Some i" for p q i
    using directory_ids_by_path_inj [OF inv] that by (simp add: prev_def)
  have "unat n0 + length current + length refs < 2 ^ 64"
    using room by (simp add: n0 remap_room_def Let_def xs_def refs_def)
  note bound = this
  have "directories_assigned prev n0 ([] @ current) st"
    unfolding st_def
    by (rule assign_directories [OF _ _ _ _ below inj]) (use ids paths bound in \<open>auto simp: directories_assigned_def\<close>)
  then have asg: "directories_assigned prev n0 current st" by simp
  have keys: "map fst (snd st) = map d_id current" using asg by (auto simp: directories_assigned_def split: prod.splits)
  have ib: "injective_below (unat n0) st"
    using asg ids keys by (auto simp: directories_assigned_def injective_below_def split: prod.splits)
  have st_room: "unat (fst st) + length refs < 2 ^ 64"
    using asg bound by (auto simp: directories_assigned_def split: prod.splits)
  have m: "m = map_of (snd (fold (assign_reference previous) refs st))"
    by (simp add: m_def directory_id_map_def st_def refs_def n0_def prev_def)
  have fin: "injective_below (unat n0) (fold (assign_reference previous) refs st)"
    "\<forall>x\<in>set refs. m x \<noteq> None" "map_of (snd st) \<subseteq>\<^sub>m m"
    "\<forall>x\<in>set refs. map_of (snd st) x = None \<longrightarrow> (\<exists>v. m x = Some v \<and> dirs_get previous v = None)"
    unfolding m using assign_references [OF ib _ st_room prev_ids] all by (auto simp: xs_def)
  have mkey: "map_of (snd st) k = None \<longleftrightarrow> k \<notin> d_id ` set current" for k
    by (simp add: map_of_eq_None_iff flip: keys set_map)
  show dom: "d_id ` set current \<union> set refs \<subseteq> dom m"
  proof -
    have "k \<in> dom m" if "k \<in> d_id ` set current" for k
      using that mkey [of k] map_le_SomeD [OF fin(3), of k] by (auto simp del: not_None_eq)
    then show ?thesis using fin(2) by blast
  qed
  show "inj_on m (dom m)"
    using fin(1) unfolding m injective_below_def
    by (auto simp: inj_on_def distinct_map dest!: map_of_SomeD split: prod.splits) (metis prod.inject snd_conv)
  show "\<exists>i. m (d_id d) = Some i \<and> (case directory_ids_by_path previous (d_full_path d) of
        Some j \<Rightarrow> i = j | None \<Rightarrow> dirs_get previous i = None)" if "d \<in> set current"
  proof -
    have "map_of (snd st) (d_id d) \<noteq> None" using mkey that by blast
    then obtain i where i: "map_of (snd st) (d_id d) = Some i" by blast
    then have "(d_id d, i) \<in> set (snd st)" by (rule map_of_SomeD)
    then obtain r where "r \<in> set current" "d_id r = d_id d"
      "case prev (d_full_path r) of Some j \<Rightarrow> i = j | None \<Rightarrow> n0 \<le> i"
      using asg by (fastforce simp: directories_assigned_def split: prod.splits)
    moreover from this have "r = d" using ids that by (metis distinct_map inj_onD)
    moreover have "dirs_get previous i = None" if "n0 \<le> i"
      using that prev_ids [of i] unfolding word_le_nat_alt by (metis leD)
    ultimately have "case prev (d_full_path d) of Some j \<Rightarrow> i = j | None \<Rightarrow> dirs_get previous i = None"
      by (auto split: option.splits)
    with map_le_SomeD [OF fin(3) i] show ?thesis unfolding prev_def by blast
  qed
  show "\<exists>i. m x = Some i \<and> dirs_get previous i = None" if "x \<in> set refs - d_id ` set current"
    using that fin(4) mkey by blast
qed




section \<open>The file renaming\<close>

lemma assign_files_spec:
  assumes "unat n + length rs < 2 ^ 64"
  shows "map (\<lambda>r. r\<lparr>f_id := 0\<rparr>) (assign_files prev rs n) = map (\<lambda>r. r\<lparr>f_id := 0\<rparr>) rs
    \<and> (\<forall>r\<in>set (assign_files prev rs n). f_full_path r \<in> f_full_path ` set rs \<and>
        (case prev (f_full_path r) of Some p \<Rightarrow> f_id r = f_id p | None \<Rightarrow> n \<le> f_id r))"
  using assms
proof (induction rs arbitrary: n)
  case (Cons r rs)
  have n: "unat (sat_add n 1) = unat n + 1" "n < sat_add n 1" using sat_add_1 [of n] Cons.prems by auto
  have up: "sat_add n 1 \<le> i \<Longrightarrow> n \<le> i" for i using n(2) by (rule order_trans [OF less_imp_le])
  show ?case
  proof (cases "prev (f_full_path r)")
    case None
    with Cons.IH [of "sat_add n 1"] Cons.prems n up show ?thesis
      by (fastforce simp: assign_file_def Let_def split: option.splits)
  next
    case (Some p)
    with Cons.IH [of n] Cons.prems show ?thesis by (fastforce simp: assign_file_def Let_def)
  qed
qed simp

lemma assign_files_distinct:
  assumes "unat n + length rs < 2 ^ 64" "distinct (map f_full_path rs)"
    and below: "\<And>q p. prev q = Some p \<Longrightarrow> f_full_path p = q \<and> f_id p < n"
    and inj: "\<And>q q' p p'. prev q = Some p \<Longrightarrow> prev q' = Some p' \<Longrightarrow> f_id p = f_id p' \<Longrightarrow> p = p'"
  shows "distinct (map f_id (assign_files prev rs n))"
  using assms(1-3)
proof (induction rs arbitrary: n)
  case (Cons r rs)
  have n: "unat (sat_add n 1) = unat n + 1" "n < sat_add n 1" using sat_add_1 [of n] Cons.prems by auto
  show ?case
  proof (cases "prev (f_full_path r)")
    case None
    have "distinct (map f_id (assign_files prev rs (sat_add n 1)))"
      using Cons.prems n less_trans [OF _ n(2)] by (intro Cons.IH) auto
    moreover have "f_id x \<noteq> n" if x: "x \<in> set (assign_files prev rs (sat_add n 1))" for x
    proof -
      have "case prev (f_full_path x) of Some p \<Rightarrow> f_id x = f_id p | None \<Rightarrow> sat_add n 1 \<le> f_id x"
        using assign_files_spec [of "sat_add n 1" rs prev] x Cons.prems n by auto
      then show ?thesis using Cons.prems(3) n(2) by (auto split: option.splits)
    qed
    ultimately show ?thesis using None by (auto simp: assign_file_def Let_def)
  next
    case (Some p)
    have "distinct (map f_id (assign_files prev rs n))" using Cons.prems by (intro Cons.IH) auto
    moreover have "f_id x \<noteq> f_id p" if x: "x \<in> set (assign_files prev rs n)" for x
    proof
      assume eq: "f_id x = f_id p"
      have spec: "f_full_path x \<in> f_full_path ` set rs"
        "case prev (f_full_path x) of Some q \<Rightarrow> f_id x = f_id q | None \<Rightarrow> n \<le> f_id x"
        using assign_files_spec [of n rs prev] x Cons.prems by auto
      show False
      proof (cases "prev (f_full_path x)")
        case None
        then have "n \<le> f_id p" using spec(2) eq by simp
        then show False using Cons.prems(3) [OF \<open>prev (f_full_path r) = Some p\<close>] by (metis leD)
      next
        case q: (Some q)
        then have "p = q" using spec(2) eq inj [OF \<open>prev (f_full_path r) = Some p\<close> q] by simp
        then have "f_full_path x = f_full_path r"
          using Cons.prems(3) [OF q] Cons.prems(3) [OF \<open>prev (f_full_path r) = Some p\<close>] by simp
        then show False using spec(1) Cons.prems(2) by simp
      qed
    qed
    ultimately have "f_id p \<notin> f_id ` set (assign_files prev rs n)" "distinct (map f_id (assign_files prev rs n))"
      by (auto simp: image_iff) metis
    then show ?thesis using Some by (simp add: assign_file_def Let_def)
  qed
qed simp



section \<open>Witnesses\<close>

definition sample_previous :: directory_records where
  "sample_previous = dirs_insert 5 (sample_directory 5 None ''C:'' ''C:'') dirs_with_capacity"

lemma sample_previous_invar: "dirs_invar sample_previous"
  using dirs.invar_insert [OF dirs.invar_empty, of "sample_directory 5 None ''C:'' ''C:''"]
  by (simp add: sample_previous_def sample_directory_def)



end
