(* ===== verification/Index_Store.thy ===== *)
theory Index_Store
  imports Snapshot_State Path_Remap
begin

text \<open>
  \<open>SqliteIndexRepository\<close> of \<open>store.rs\<close> over a model of the file system: a map from paths to contents
  and a schedule that says of every system call whether it succeeds, fails, or never happens
  because the process died before it.
\<close>

section \<open>Paths\<close>

text \<open>A path with a file name: the components of its parent and the name. \<open>split_extension\<close> is the
  standard library's rule: the last dot separates, unless the name has none or only a leading one.\<close>

type_synonym path = "string list \<times> string"

definition split_extension :: "string \<Rightarrow> (string \<times> string) option" where
  "split_extension name =
    (let r = rev name; after = takeWhile (\<lambda>c. c \<noteq> CHR ''.'') r; before = rev (drop (length after + 1) r)
     in if name = ''..'' \<or> length after = length r \<or> before = [] then None else Some (before, rev after))"

definition with_extension :: "path \<Rightarrow> string \<Rightarrow> path" where
  "with_extension p extension =
    (fst p, (case split_extension (snd p) of Some (stem, _) \<Rightarrow> stem | None \<Rightarrow> snd p) @ ''.'' @ extension)"

definition resolve_storage_path :: "path \<Rightarrow> path" where
  "resolve_storage_path p =
    (if split_extension (snd p) \<noteq> None then p else (fst p @ [snd p], ''winblaze.index.bin''))"

definition backup_storage_path :: "path \<Rightarrow> path" where "backup_storage_path p = with_extension p ''bak''"
definition temp_storage_path :: "path \<Rightarrow> path" where "temp_storage_path p = with_extension p ''tmp''"

text \<open>The three files of an index are different files when its extension is neither of the two.\<close>

definition plain_storage_path :: "path \<Rightarrow> bool" where
  "plain_storage_path p \<longleftrightarrow> (case split_extension (snd p) of
     Some (_, e) \<Rightarrow> e \<noteq> ''bak'' \<and> e \<noteq> ''tmp'' | None \<Rightarrow> False)"

lemma split_extension_append: "split_extension name = Some (stem, e) \<Longrightarrow> name = stem @ ''.'' @ e"
proof -
  assume a: "split_extension name = Some (stem, e)"
  let ?r = "rev name" let ?a = "takeWhile (\<lambda>c. c \<noteq> CHR ''.'') ?r"
  from a have ne: "length ?a \<noteq> length ?r" and e: "e = rev ?a" and s: "stem = rev (drop (length ?a + 1) ?r)"
    by (auto simp: split_extension_def Let_def split: if_splits)
  have lt: "length ?a < length ?r" using ne length_takeWhile_le [of _ ?r] by (metis le_neq_implies_less)
  have "?r ! length ?a = CHR ''.''" using nth_length_takeWhile [OF lt] by simp
  then have "drop (length ?a) ?r = CHR ''.'' # drop (length ?a + 1) ?r"
    using Cons_nth_drop_Suc [OF lt] by simp
  moreover have "take (length ?a) ?r = ?a" by (metis takeWhile_eq_take)
  ultimately have "?r = ?a @ CHR ''.'' # drop (length ?a + 1) ?r" by (metis append_take_drop_id)
  then have "rev ?r = rev (?a @ CHR ''.'' # drop (length ?a + 1) ?r)" by (rule arg_cong)
  then show "name = stem @ ''.'' @ e" using e s by simp
qed

lemma storage_paths_distinct:
  assumes "plain_storage_path p"
  shows "p \<noteq> backup_storage_path p" "p \<noteq> temp_storage_path p" "backup_storage_path p \<noteq> temp_storage_path p"
proof -
  obtain stem e where e: "split_extension (snd p) = Some (stem, e)" "e \<noteq> ''bak''" "e \<noteq> ''tmp''"
    using assms by (auto simp: plain_storage_path_def split: option.splits)
  then have "snd p = stem @ ''.'' @ e" using split_extension_append by blast
  then show "p \<noteq> backup_storage_path p" "p \<noteq> temp_storage_path p" "backup_storage_path p \<noteq> temp_storage_path p"
    using e by (auto simp: backup_storage_path_def temp_storage_path_def with_extension_def prod_eq_iff)
qed

lemma resolve_storage_path_split: "split_extension (snd (resolve_storage_path p)) \<noteq> None"
  by (simp add: resolve_storage_path_def split_extension_def)

section \<open>System calls\<close>

type_synonym file_system = "path \<rightharpoonup> byte list"

text \<open>One entry per call, in order: whether it succeeds. An exhausted schedule is a crash.\<close>

type_synonym schedule = "bool list"

datatype 'a outcome = Returned 'a | Errored index_storage_error | Crashed

type_synonym 'a io = "file_system \<times> schedule \<Rightarrow> 'a outcome \<times> file_system \<times> schedule"

definition io_return :: "'a \<Rightarrow> 'a io" where "io_return x w = (Returned x, w)"

definition io_bind :: "'a io \<Rightarrow> ('a \<Rightarrow> 'b io) \<Rightarrow> 'b io" where
  "io_bind m f w = (case m w of
     (Returned x, w') \<Rightarrow> f x w' | (Errored e, w') \<Rightarrow> (Errored e, w') | (Crashed, w') \<Rightarrow> (Crashed, w'))"

text \<open>\<open>let _ = ...\<close>: the error is dropped.\<close>

definition io_ignore :: "unit io \<Rightarrow> unit io" where
  "io_ignore m w = (case m w of (Errored e, w') \<Rightarrow> (Returned (), w') | r \<Rightarrow> r)"

definition syscall :: "(file_system \<Rightarrow> io_error_kind + file_system) \<Rightarrow> unit io" where
  "syscall f = (\<lambda>(fs, os). case os of
     [] \<Rightarrow> (Crashed, fs, [])
   | ok # os' \<Rightarrow> if ok then (case f fs of Inr fs' \<Rightarrow> (Returned (), fs', os') | Inl e \<Rightarrow> (Errored (Io e), fs, os'))
       else (Errored (Io OtherIo), fs, os'))"

definition fs_create_dir_all :: "path \<Rightarrow> unit io" where
  "fs_create_dir_all p = syscall Inr"

definition fs_create :: "path \<Rightarrow> unit io" where
  "fs_create p = syscall (\<lambda>fs. Inr (fs(p \<mapsto> [])))"

definition fs_append :: "path \<Rightarrow> byte list \<Rightarrow> unit io" where
  "fs_append p bs = syscall (\<lambda>fs. case fs p of
     Some old \<Rightarrow> Inr (fs(p \<mapsto> old @ bs)) | None \<Rightarrow> Inl NotFoundError)"

definition fs_remove_file :: "path \<Rightarrow> unit io" where
  "fs_remove_file p = syscall (\<lambda>fs. if fs p = None then Inl NotFoundError else Inr (fs(p := None)))"

text \<open>\<open>fs::rename\<close> replaces an existing target.\<close>

definition fs_rename :: "path \<Rightarrow> path \<Rightarrow> unit io" where
  "fs_rename p q = syscall (\<lambda>fs. case fs p of
     Some bs \<Rightarrow> Inr ((fs(p := None))(q \<mapsto> bs)) | None \<Rightarrow> Inl NotFoundError)"

text \<open>\<open>Path::exists\<close> answers false when it cannot tell.\<close>

definition path_exists :: "path \<Rightarrow> bool io" where
  "path_exists p = (\<lambda>(fs, os). case os of
     [] \<Rightarrow> (Crashed, fs, []) | ok # os' \<Rightarrow> (Returned (ok \<and> fs p \<noteq> None), fs, os'))"

section \<open>Writing and removing a snapshot\<close>

text \<open>The buffered writer hands the file the serialized bytes in some pieces, \<open>chunks\<close>.\<close>

fun write_chunks :: "path \<Rightarrow> byte list list \<Rightarrow> unit io" where
  "write_chunks p [] = io_return ()"
| "write_chunks p (c # cs) = io_bind (fs_append p c) (\<lambda>_. write_chunks p cs)"

definition persist_snapshot_with :: "path \<Rightarrow> byte list list \<Rightarrow> unit io" where
  "persist_snapshot_with storage chunks =
    (let temp = temp_storage_path storage; backup = backup_storage_path storage in
     io_bind (fs_create_dir_all storage) (\<lambda>_.
     io_bind (fs_create temp) (\<lambda>_.
     io_bind (write_chunks temp chunks) (\<lambda>_.
     io_bind (path_exists storage) (\<lambda>b.
     io_bind (if b then
         io_bind (path_exists backup) (\<lambda>b.
         io_bind (if b then io_ignore (fs_remove_file backup) else io_return ()) (\<lambda>_.
         fs_rename storage backup))
       else io_return ()) (\<lambda>_.
     io_bind (fs_rename temp storage) (\<lambda>_.
     io_bind (path_exists backup) (\<lambda>b.
     if b then io_ignore (fs_remove_file backup) else io_return ()))))))))"

text \<open>A missing file is fine, any other error ends the loop.\<close>

fun remove_candidates :: "path list \<Rightarrow> unit io" where
  "remove_candidates [] = io_return ()"
| "remove_candidates (p # ps) = (\<lambda>w. case fs_remove_file p w of
     (Returned _, w') \<Rightarrow> remove_candidates ps w'
   | (Errored e, w') \<Rightarrow> if e = Io NotFoundError then remove_candidates ps w' else (Errored e, w')
   | (Crashed, w') \<Rightarrow> (Crashed, w'))"

definition remove_snapshot_files :: "path \<Rightarrow> unit io" where
  "remove_snapshot_files storage =
     remove_candidates [storage, backup_storage_path storage, temp_storage_path storage]"

definition remove_auxiliary_snapshot_files :: "path \<Rightarrow> unit io" where
  "remove_auxiliary_snapshot_files storage =
     remove_candidates [backup_storage_path storage, temp_storage_path storage]"

section \<open>Loading\<close>

definition load_index_state ::
  "(file_records \<Rightarrow> nat) \<Rightarrow> file_system \<Rightarrow> path \<Rightarrow> index_storage_error + buffered_index_transaction" where
  "load_index_state capacity fs p = (case fs p of
     None \<Rightarrow> Inl (Io NotFoundError)
   | Some bytes \<Rightarrow> deserialize_state_from_reader capacity bytes (length bytes))"

text \<open>The state \<open>open\<close> starts from: the snapshot, else its backup, else an empty index.\<close>

definition open_state :: "(file_records \<Rightarrow> nat) \<Rightarrow> file_system \<Rightarrow> path \<Rightarrow> buffered_index_transaction" where
  "open_state capacity fs storage = (case load_index_state capacity fs storage of
     Inr t \<Rightarrow> t
   | Inl _ \<Rightarrow> (case load_index_state capacity fs (backup_storage_path storage) of
       Inr t \<Rightarrow> t | Inl _ \<Rightarrow> transaction_default))"


section \<open>Crash Hoare logic\<close>

text \<open>From a state in \<open>P\<close> the operation returns in \<open>Q\<close>, and wherever it fails or the process dies
  the file system satisfies \<open>C\<close>.\<close>

definition crash_triple ::
  "(file_system \<Rightarrow> bool) \<Rightarrow> 'a io \<Rightarrow> ('a \<Rightarrow> file_system \<Rightarrow> bool) \<Rightarrow> (file_system \<Rightarrow> bool) \<Rightarrow> bool" where
  "crash_triple P m Q C \<longleftrightarrow> (\<forall>fs os. P fs \<longrightarrow> (case m (fs, os) of
     (Returned x, fs', os') \<Rightarrow> Q x fs' | (_, fs', os') \<Rightarrow> C fs'))"

named_theorems crash_rules \<open>rules of the crash logic\<close>

lemma crash_return: "(\<And>fs. P fs \<Longrightarrow> Q x fs) \<Longrightarrow> crash_triple P (io_return x) Q C"
  by (simp add: crash_triple_def io_return_def)

lemma crash_bind:
  assumes "crash_triple P m Q C" "\<And>x. crash_triple (Q x) (f x) R C"
  shows "crash_triple P (io_bind m f) R C"
  unfolding crash_triple_def
proof (intro allI impI)
  fix fs os assume "P fs"
  obtain r fs' os' where m: "m (fs, os) = (r, fs', os')" by (metis prod_cases3)
  then have q: "case r of Returned x \<Rightarrow> Q x fs' | _ \<Rightarrow> C fs'"
    using assms(1) [unfolded crash_triple_def, rule_format, OF \<open>P fs\<close>, of os] by (cases r) simp_all
  show "case io_bind m f (fs, os) of (Returned x, fs', os') \<Rightarrow> R x fs' | (_, fs', os') \<Rightarrow> C fs'"
  proof (cases r)
    case (Returned x)
    with q m have "io_bind m f (fs, os) = f x (fs', os')" "Q x fs'" by (simp_all add: io_bind_def)
    with assms(2) [of x] show ?thesis unfolding crash_triple_def by simp
  qed (use q m in \<open>simp_all add: io_bind_def\<close>)
qed

lemma crash_ignore:
  "crash_triple P m (\<lambda>_. Q) C \<Longrightarrow> (\<And>fs os e w. P fs \<Longrightarrow> m (fs, os) = (Errored e, w) \<Longrightarrow> Q (fst w))
    \<Longrightarrow> crash_triple P (io_ignore m) (\<lambda>_. Q) C"
  unfolding crash_triple_def io_ignore_def
  by (fastforce split: prod.splits outcome.splits)

lemma crash_syscall:
  "(\<And>fs fs'. P fs \<Longrightarrow> f fs = Inr fs' \<Longrightarrow> Q fs') \<Longrightarrow> (\<And>fs. P fs \<Longrightarrow> C fs)
    \<Longrightarrow> crash_triple P (syscall f) (\<lambda>_. Q) C"
  by (auto simp: crash_triple_def syscall_def split: list.splits sum.splits)

lemma crash_exists:
  "(\<And>fs. P fs \<Longrightarrow> C fs) \<Longrightarrow> crash_triple P (path_exists p) (\<lambda>b fs. P fs \<and> (b \<longrightarrow> fs p \<noteq> None)) C"
  by (auto simp: crash_triple_def path_exists_def split: list.splits)

lemma crash_weaken:
  "crash_triple P m Q C \<Longrightarrow> (\<And>fs. P' fs \<Longrightarrow> P fs) \<Longrightarrow> (\<And>x fs. Q x fs \<Longrightarrow> Q' x fs) \<Longrightarrow> crash_triple P' m Q' C"
  unfolding crash_triple_def by (fastforce split: outcome.splits prod.splits)

lemma crash_create:
  "(\<And>fs. P fs \<Longrightarrow> Q (fs(p \<mapsto> [])) \<and> C fs) \<Longrightarrow> crash_triple P (fs_create p) (\<lambda>_. Q) C"
  unfolding fs_create_def by (rule crash_syscall) auto

lemma crash_append:
  "(\<And>fs old. P fs \<Longrightarrow> fs p = Some old \<Longrightarrow> Q (fs(p \<mapsto> old @ bs))) \<Longrightarrow> (\<And>fs. P fs \<Longrightarrow> C fs)
    \<Longrightarrow> crash_triple P (fs_append p bs) (\<lambda>_. Q) C"
  unfolding fs_append_def by (rule crash_syscall) (auto split: option.splits)

lemma crash_rename:
  "(\<And>fs bs. P fs \<Longrightarrow> fs p = Some bs \<Longrightarrow> Q ((fs(p := None))(q \<mapsto> bs))) \<Longrightarrow> (\<And>fs. P fs \<Longrightarrow> C fs)
    \<Longrightarrow> crash_triple P (fs_rename p q) (\<lambda>_. Q) C"
  unfolding fs_rename_def by (rule crash_syscall) (auto split: option.splits)

lemma crash_remove_ignored:
  "(\<And>fs. P fs \<Longrightarrow> Q fs \<and> Q (fs(p := None)) \<and> C fs) \<Longrightarrow> crash_triple P (io_ignore (fs_remove_file p)) (\<lambda>_. Q) C"
  unfolding fs_remove_file_def
proof (rule crash_ignore)
  assume Q: "\<And>fs. P fs \<Longrightarrow> Q fs \<and> Q (fs(p := None)) \<and> C fs"
  show "crash_triple P (syscall (\<lambda>fs. if fs p = None then Inl NotFoundError else Inr (fs(p := None)))) (\<lambda>_. Q) C"
    by (rule crash_syscall) (use Q in \<open>auto split: if_splits\<close>)
  show "Q (fst w)" if "P fs"
    "syscall (\<lambda>fs. if fs p = None then Inl NotFoundError else Inr (fs(p := None))) (fs, os) = (Errored e, w)" for fs os e w
    using that Q [of fs] by (auto simp: syscall_def split: list.splits if_splits)
qed

lemma crash_chunks:
  assumes "\<And>fs c. P fs \<Longrightarrow> P (fs(p \<mapsto> c))" "\<And>fs. P fs \<Longrightarrow> C fs"
  shows "crash_triple (\<lambda>fs. P fs \<and> fs p = Some old) (write_chunks p cs)
    (\<lambda>_ fs. P fs \<and> fs p = Some (old @ concat cs)) C"
proof (induction cs arbitrary: old)
  case Nil
  show ?case by (simp add: crash_return)
next
  case (Cons c cs)
  have "crash_triple (\<lambda>fs. P fs \<and> fs p = Some old) (fs_append p c)
      (\<lambda>_ fs. P fs \<and> fs p = Some (old @ c)) C"
    using assms by (intro crash_append) auto
  with Cons [of "old @ c"] show ?case by (auto intro: crash_bind)
qed

section \<open>Crash safety of persisting\<close>

lemma open_state_cong:
  "fs s = fs' s \<Longrightarrow> fs (backup_storage_path s) = fs' (backup_storage_path s) \<Longrightarrow>
    open_state capacity fs s = open_state capacity fs' s"
proof -
  assume "fs s = fs' s" "fs (backup_storage_path s) = fs' (backup_storage_path s)"
  then have l: "load_index_state capacity fs s = load_index_state capacity fs' s"
    "load_index_state capacity fs (backup_storage_path s) = load_index_state capacity fs' (backup_storage_path s)"
    by (simp_all add: load_index_state_def)
  show ?thesis unfolding open_state_def l ..
qed

lemma open_state_storage:
  "fs s = Some bs \<Longrightarrow> deserialize_state_from_reader capacity bs (length bs) = Inr t \<Longrightarrow> open_state capacity fs s = t"
  by (simp add: open_state_def load_index_state_def)

lemma open_state_backup:
  "fs s = None \<Longrightarrow> fs (backup_storage_path s) = Some bs \<Longrightarrow>
    deserialize_state_from_reader capacity bs (length bs) = Inr t \<Longrightarrow> open_state capacity fs s = t"
  by (simp add: open_state_def load_index_state_def)

lemma persist_crash_triple:
  assumes paths: "plain_storage_path storage"
    and old: "fs0 storage = None \<or> (\<exists>t. load_index_state capacity fs0 storage = Inr t)"
    and new: "deserialize_state_from_reader capacity (concat chunks) (length (concat chunks)) = Inr t'"
  shows "crash_triple (\<lambda>fs. fs storage = fs0 storage \<and> fs (backup_storage_path storage) = fs0 (backup_storage_path storage))
    (persist_snapshot_with storage chunks) (\<lambda>_ fs. fs storage = Some (concat chunks))
    (\<lambda>fs. open_state capacity fs storage \<in> {open_state capacity fs0 storage, t'})"
proof -
  let ?b = "backup_storage_path storage" and ?t = "temp_storage_path storage"
  let ?P = "\<lambda>fs. fs storage = fs0 storage \<and> fs ?b = fs0 ?b"
  let ?C = "\<lambda>fs. open_state capacity fs storage \<in> {open_state capacity fs0 storage, t'}"
  let ?W = "\<lambda>fs. ?P fs \<and> fs ?t = Some (concat chunks)"
  let ?M = "\<lambda>fs. fs storage = fs0 storage \<and> fs0 storage \<noteq> None \<and> fs ?t = Some (concat chunks)"
  let ?R = "\<lambda>fs. fs ?t = Some (concat chunks) \<and> ?C fs"
  let ?N = "\<lambda>fs. fs storage = Some (concat chunks)"
  note ne = storage_paths_distinct [OF paths]
  have PC: "?C fs" if "?P fs" for fs
    using open_state_cong [of fs storage fs0] that by simp
  have MC: "?C fs" if "?M fs" for fs
  proof -
    from that old obtain t bs where "fs0 storage = Some bs" "load_index_state capacity fs0 storage = Inr t"
      by (metis not_None_eq)
    with that show ?thesis by (simp add: open_state_storage load_index_state_def)
  qed
  have NC: "?C fs" if "?N fs" for fs
    using open_state_storage [of fs storage, OF that new] by simp
  have swap: "?R ((fs(storage := None))(?b \<mapsto> bs))" if "?M fs" "fs storage = Some bs" for fs bs
  proof -
    from that have s0: "fs0 storage = Some bs" by simp
    with old obtain t where t: "deserialize_state_from_reader capacity bs (length bs) = Inr t" "fs0 storage = Some bs"
      by (auto simp: load_index_state_def)
    then have "open_state capacity ((fs(storage := None))(?b \<mapsto> bs)) storage = open_state capacity fs0 storage"
      using open_state_backup [of "(fs(storage := None))(?b \<mapsto> bs)" storage bs] open_state_storage [of fs0 storage bs] ne
      by simp
    with that ne show ?thesis by simp
  qed
  have backup: "crash_triple ?M (io_bind (path_exists ?b) (\<lambda>b.
       io_bind (if b then io_ignore (fs_remove_file ?b) else io_return ()) (\<lambda>_. fs_rename storage ?b))) (\<lambda>_. ?R) ?C"
  proof (rule crash_bind [OF crash_exists])
    show "?C fs" if "?M fs" for fs using that by (rule MC)
    have "crash_triple ?M (io_ignore (fs_remove_file ?b)) (\<lambda>_. ?M) ?C"
    proof (rule crash_remove_ignored)
      fix fs assume m: "?M fs"
      then have "?M (fs(?b := None))" using ne by simp
      with m MC show "?M fs \<and> ?M (fs(?b := None)) \<and> ?C fs" by blast
    qed
    moreover have "crash_triple ?M (io_return ()) (\<lambda>_. ?M) ?C" by (rule crash_return)
    ultimately have rm: "crash_triple ?M (if b then io_ignore (fs_remove_file ?b) else io_return ()) (\<lambda>_. ?M) ?C" for b
      by simp
    have mv: "crash_triple ?M (fs_rename storage ?b) (\<lambda>_. ?R) ?C"
      by (rule crash_rename) (fact swap, fact MC)
    show "crash_triple (\<lambda>fs. ?M fs \<and> (b \<longrightarrow> fs ?b \<noteq> None))
        (io_bind (if b then io_ignore (fs_remove_file ?b) else io_return ()) (\<lambda>_. fs_rename storage ?b)) (\<lambda>_. ?R) ?C" for b
      by (rule crash_bind [OF crash_weaken [OF rm] mv]) blast+
  qed
  have restore: "crash_triple (\<lambda>fs. ?W fs \<and> (b \<longrightarrow> fs storage \<noteq> None))
      (if b then io_bind (path_exists ?b) (\<lambda>b.
         io_bind (if b then io_ignore (fs_remove_file ?b) else io_return ()) (\<lambda>_. fs_rename storage ?b))
       else io_return ()) (\<lambda>_. ?R) ?C" for b
  proof (cases b)
    case True
    show ?thesis unfolding if_P [OF True] by (rule crash_weaken [OF backup]) (use True in metis, assumption)
  next
    case False
    show ?thesis unfolding if_not_P [OF False] by (rule crash_return) (use PC in auto)
  qed
  have replace: "crash_triple ?R (fs_rename ?t storage) (\<lambda>_. ?N) ?C"
    by (rule crash_rename) auto
  have clean: "crash_triple (\<lambda>fs. ?N fs \<and> (b \<longrightarrow> fs ?b \<noteq> None))
      (if b then io_ignore (fs_remove_file ?b) else io_return ()) (\<lambda>_. ?N) ?C" for b
    using NC ne by (auto intro!: crash_remove_ignored crash_return)
  have create: "crash_triple ?P (fs_create ?t) (\<lambda>_ fs. ?P fs \<and> fs ?t = Some []) ?C"
    by (rule crash_create) (use PC ne in auto)
  have chunks: "crash_triple (\<lambda>fs. ?P fs \<and> fs ?t = Some []) (write_chunks ?t chunks) (\<lambda>_. ?W) ?C"
    by (rule crash_weaken, rule crash_chunks [where P = ?P and old = "[]"]) (use PC ne in auto)
  have mkdir: "crash_triple ?P (fs_create_dir_all storage) (\<lambda>_. ?P) ?C"
    unfolding fs_create_dir_all_def by (rule crash_syscall) (use PC in auto)
  have exists: "crash_triple ?W (path_exists storage) (\<lambda>b fs. ?W fs \<and> (b \<longrightarrow> fs storage \<noteq> None)) ?C"
    by (rule crash_exists) (use PC in auto)
  have exists': "crash_triple ?N (path_exists ?b) (\<lambda>b fs. ?N fs \<and> (b \<longrightarrow> fs ?b \<noteq> None)) ?C"
    by (rule crash_exists) (use NC in auto)
  show ?thesis
    unfolding persist_snapshot_with_def Let_def
    by (rule crash_bind [OF mkdir crash_bind [OF create crash_bind [OF chunks crash_bind [OF exists
          crash_bind [OF restore crash_bind [OF replace crash_bind [OF exists' clean]]]]]]])
qed


definition persist_index_state ::
  "(buffered_index_transaction \<Rightarrow> byte list) \<Rightarrow> (byte list \<Rightarrow> byte list list) \<Rightarrow> path \<Rightarrow>
   buffered_index_transaction \<Rightarrow> unit io" where
  "persist_index_state serialize split_writes storage state =
     persist_snapshot_with storage (split_writes (serialize state))"


section \<open>Persisting and removing when every call succeeds\<close>

lemma syscall_ok: "f fs = Inr fs' \<Longrightarrow> syscall f (fs, True # os) = (Returned (), fs', os)"
  by (simp add: syscall_def)

lemma write_chunks_ok:
  "fs p = Some old \<Longrightarrow> length chunks \<le> n \<Longrightarrow>
   write_chunks p chunks (fs, replicate n True) =
     (Returned (), fs(p \<mapsto> old @ concat chunks), replicate (n - length chunks) True)"
proof (induction chunks arbitrary: fs old n)
  case (Cons c cs)
  then obtain m where n: "n = Suc m" by (cases n) auto
  with Cons.prems Cons.IH [of "fs(p \<mapsto> old @ c)" "old @ c" m] show ?case
    by (simp add: io_bind_def fs_append_def syscall_ok del: fun_upd_apply) (simp add: fun_upd_def)
qed (simp add: io_return_def fun_upd_idem)

lemma call_ok:
  "fs_create_dir_all p (fs, True # os) = (Returned (), fs, os)"
  "fs_create p (fs, True # os) = (Returned (), fs(p \<mapsto> []), os)"
  "fs p = Some bs \<Longrightarrow> fs_rename p q (fs, True # os) = (Returned (), (fs(p := None))(q \<mapsto> bs), os)"
  "path_exists p (fs, True # os) = (Returned (fs p \<noteq> None), fs, os)"
  "fs p \<noteq> None \<Longrightarrow> io_ignore (fs_remove_file p) (fs, True # os) = (Returned (), fs(p := None), os)"
  by (simp_all add: fs_create_dir_all_def fs_create_def fs_rename_def path_exists_def fs_remove_file_def
      io_ignore_def syscall_ok)

lemma io_bind_crash: "m w = (Crashed, w') \<Longrightarrow> io_bind m f w = (Crashed, w')"
  by (simp add: io_bind_def)

lemma rename_crash: "fs_rename p q (fs, []) = (Crashed, fs, [])"
  by (simp add: fs_rename_def syscall_def)

lemma io_bind_ok: "m w = (Returned x, w') \<Longrightarrow> io_bind m f w = f x w'"
  by (simp add: io_bind_def)

text \<open>
  When no system call fails, a save returns successfully, the storage path then holds exactly the
  serialized bytes, and neither a backup nor a temporary file is left.
\<close>

theorem persist_succeeds:
  assumes "plain_storage_path storage" "length chunks + 9 \<le> n"
  shows "\<exists>os. persist_snapshot_with storage chunks (fs, replicate n True) =
    (Returned (), fs(storage \<mapsto> concat chunks, backup_storage_path storage := None,
       temp_storage_path storage := None), os)"
proof -
  let ?b = "backup_storage_path storage" and ?t = "temp_storage_path storage"
  note ne = storage_paths_distinct [OF assms(1)]
  define m where "m = n - length chunks - 9"
  have n: "replicate n True = True # True # replicate (length chunks + (m + 7)) True"
    using assms(2) by (simp add: m_def flip: replicate_Suc)
  have reps: "replicate (m + 7) True = True # True # True # True # True # True # True # replicate m True"
    by (simp add: numeral_eq_Suc)
  let ?fs = "fs(?t \<mapsto> concat chunks)"
  let ?after = "fs(storage \<mapsto> concat chunks, ?b := None, ?t := None)"
  have chunks: "write_chunks ?t chunks (fs(?t \<mapsto> []), replicate (length chunks + (m + 7)) True) =
     (Returned (), ?fs, True # True # True # True # True # True # True # replicate m True)"
    using write_chunks_ok [of "fs(?t \<mapsto> [])" ?t "[]" chunks "length chunks + (m + 7)"] by (simp add: reps)
  have tail: "\<exists>os'. io_bind (fs_rename ?t storage) (\<lambda>_. io_bind (path_exists ?b) (\<lambda>b.
       if b then io_ignore (fs_remove_file ?b) else io_return ())) (f, True # True # True # os) = (Returned (), ?after, os')"
    if f: "f ?t = Some (concat chunks)" "\<And>p. p \<notin> {storage, ?b, ?t} \<Longrightarrow> f p = fs p" for f os
  proof (cases "f ?b")
    case None
    have "(f(?t := None))(storage \<mapsto> concat chunks) = ?after"
      by (rule ext) (use f None ne in auto)
    with None f(1) ne show ?thesis by (simp add: io_bind_ok call_ok io_return_def)
  next
    case (Some bs)
    have "((f(?t := None))(storage \<mapsto> concat chunks))(?b := None) = ?after"
      by (rule ext) (use f ne in auto)
    with Some f(1) ne show ?thesis by (simp add: io_bind_ok call_ok io_return_def)
  qed
  define T where "T = io_bind (fs_rename ?t storage) (\<lambda>_. io_bind (path_exists ?b) (\<lambda>b.
       if b then io_ignore (fs_remove_file ?b) else io_return ()))"
  note tail' = tail [folded T_def]
  show ?thesis
  proof (cases "fs storage")
    case None
    then have "persist_snapshot_with storage chunks (fs, replicate n True)
      = T (?fs, True # True # True # True # True # True # replicate m True)"
      using ne by (simp add: persist_snapshot_with_def Let_def n io_bind_ok call_ok chunks io_return_def T_def)
    then show ?thesis using tail' [of ?fs] by simp
  next
    case s: (Some bs)
    show ?thesis
    proof (cases "fs ?b")
      case None
      with s have "persist_snapshot_with storage chunks (fs, replicate n True)
        = T ((?fs(storage := None))(?b \<mapsto> bs), True # True # True # True # replicate m True)"
        using ne by (simp add: persist_snapshot_with_def Let_def n io_bind_ok call_ok chunks io_return_def T_def)
      then show ?thesis using tail' [of "(?fs(storage := None))(?b \<mapsto> bs)" "True # replicate m True"] ne by simp
    next
      case (Some old)
      with s have "persist_snapshot_with storage chunks (fs, replicate n True)
        = T (((?fs(?b := None))(storage := None))(?b \<mapsto> bs), True # True # True # replicate m True)"
        using ne by (simp add: persist_snapshot_with_def Let_def n io_bind_ok call_ok chunks io_return_def T_def)
      then show ?thesis
        using tail' [of "((?fs(?b := None))(storage := None))(?b \<mapsto> bs)" "replicate m True"] ne by simp
    qed
  qed
qed


text \<open>When the snapshot itself is corrupt and only the backup can be read, persisting deletes the backup
  before the new snapshot is in place: a crash in between leaves nothing to load.\<close>

text \<open>
  C12. The window left by the save: with a damaged snapshot and a good backup, opening recovers the backup,
  but the next save removes that backup before its own data is in place, so a crash right after leaves nothing
  loadable and reopening yields the empty index.
\<close>

theorem persist_deletes_only_good_copy:
  assumes "plain_storage_path storage"
    and "fs storage = Some bad" "deserialize_state_from_reader capacity bad (length bad) = Inl e"
    and "fs (backup_storage_path storage) = Some good" "deserialize_state_from_reader capacity good (length good) = Inr t"
  shows "open_state capacity fs storage = t
    \<and> (case persist_snapshot_with storage chunks (fs, replicate (length chunks + 5) True) of (r, fs', os') \<Rightarrow>
      r = Crashed \<and> open_state capacity fs' storage = transaction_default)"
proof (rule conjI)
  let ?b = "backup_storage_path storage" and ?t = "temp_storage_path storage"
  note ne = storage_paths_distinct [OF assms(1)]
  show "open_state capacity fs storage = t"
    using assms by (simp add: open_state_def load_index_state_def)
  have n: "replicate (length chunks + 5) True = True # True # replicate (length chunks + 3) True"
    by (simp add: numeral_eq_Suc)
  have chunks: "write_chunks ?t chunks (fs(?t \<mapsto> []), replicate (length chunks + 3) True) =
     (Returned (), fs(?t \<mapsto> concat chunks), True # True # True # [])"
    using write_chunks_ok [of "fs(?t \<mapsto> [])" ?t "[]" chunks "length chunks + 3"] by (simp add: numeral_eq_Suc)
  have "persist_snapshot_with storage chunks (fs, replicate (length chunks + 5) True)
      = (Crashed, (fs(?t \<mapsto> concat chunks))(?b := None), [])"
    using ne assms(2,4)
    by (simp add: persist_snapshot_with_def Let_def n io_bind_ok io_bind_crash rename_crash call_ok chunks)
  then show "case persist_snapshot_with storage chunks (fs, replicate (length chunks + 5) True) of (r, fs', os') \<Rightarrow>
      r = Crashed \<and> open_state capacity fs' storage = transaction_default"
    using ne assms(2,3) by (simp add: open_state_def load_index_state_def)
qed

section \<open>The repository\<close>

record repository =
  r_loaded_from_backup :: bool
  r_storage_path :: path
  r_state :: buffered_index_transaction

definition open_repository :: "(file_records \<Rightarrow> nat) \<Rightarrow> file_system \<Rightarrow> path \<Rightarrow> repository" where
  "open_repository capacity fs p =
    (let storage = resolve_storage_path p in
     case load_index_state capacity fs storage of
       Inr t \<Rightarrow> \<lparr>r_loaded_from_backup = False, r_storage_path = storage, r_state = t\<rparr>
     | Inl _ \<Rightarrow> (case load_index_state capacity fs (backup_storage_path storage) of
         Inr t \<Rightarrow> \<lparr>r_loaded_from_backup = True, r_storage_path = storage, r_state = t\<rparr>
       | Inl _ \<Rightarrow> \<lparr>r_loaded_from_backup = False, r_storage_path = storage, r_state = transaction_default\<rparr>))"

definition open_empty :: "path \<Rightarrow> repository" where
  "open_empty p = \<lparr>r_loaded_from_backup = False, r_storage_path = resolve_storage_path p, r_state = transaction_default\<rparr>"

definition apply_transaction ::
  "(buffered_index_transaction \<Rightarrow> byte list) \<Rightarrow> (byte list \<Rightarrow> byte list list) \<Rightarrow> repository \<Rightarrow>
   buffered_index_transaction \<Rightarrow> file_system \<times> schedule \<Rightarrow> repository \<times> unit outcome \<times> file_system \<times> schedule" where
  "apply_transaction serialize split_writes repo transaction w =
    (let repo = repo\<lparr>r_state := transaction\<rparr>
     in (repo, persist_index_state serialize split_writes (r_storage_path repo) (r_state repo) w))"

definition merge_transaction ::
  "(file_records \<Rightarrow> nat) \<Rightarrow> (file_record list \<Rightarrow> file_record list) \<Rightarrow> buffered_index_transaction \<Rightarrow>
   buffered_index_transaction \<Rightarrow> buffered_index_transaction \<times> file_change_set" where
  "merge_transaction capacity shuffle state transaction =
    (let previous_files = snapshot_files_with_paths shuffle state;
         current_files = snapshot_files_with_paths shuffle transaction;
         merged = \<lparr>t_volumes = t_volumes transaction, t_sessions = t_sessions transaction,
           t_directories = t_directories transaction, t_files = t_files state,
           t_lineages = t_lineages state, t_file_changes = t_file_changes state,
           t_committed = t_committed transaction\<rparr>
     in apply_incremental_files capacity previous_files current_files merged)"

definition apply_incremental_transaction ::
  "(file_records \<Rightarrow> nat) \<Rightarrow> (file_record list \<Rightarrow> file_record list) \<Rightarrow> (buffered_index_transaction \<Rightarrow> byte list) \<Rightarrow>
   (byte list \<Rightarrow> byte list list) \<Rightarrow> repository \<Rightarrow> buffered_index_transaction \<Rightarrow> file_system \<times> schedule \<Rightarrow>
   repository \<times> file_change_set outcome \<times> file_system \<times> schedule" where
  "apply_incremental_transaction capacity shuffle serialize split_writes repo transaction w =
    (let (merged, change_set) = merge_transaction capacity shuffle (r_state repo) transaction;
         repo = repo\<lparr>r_state := merged\<rparr>
     in (repo, io_bind (persist_index_state serialize split_writes (r_storage_path repo) (r_state repo))
                 (\<lambda>_. io_return change_set) w))"

definition invalidate_cache :: "repository \<Rightarrow> file_system \<times> schedule \<Rightarrow> repository \<times> unit outcome \<times> file_system \<times> schedule" where
  "invalidate_cache repo w =
    (let repo = repo\<lparr>r_state := transaction_default\<rparr> in (repo, remove_snapshot_files (r_storage_path repo) w))"

definition compact_cache ::
  "(buffered_index_transaction \<Rightarrow> byte list) \<Rightarrow> (byte list \<Rightarrow> byte list list) \<Rightarrow> repository \<Rightarrow>
   file_system \<times> schedule \<Rightarrow> repository \<times> unit outcome \<times> file_system \<times> schedule" where
  "compact_cache serialize split_writes repo w =
    (repo, io_bind (remove_auxiliary_snapshot_files (r_storage_path repo))
       (\<lambda>_. persist_index_state serialize split_writes (r_storage_path repo) (r_state repo)) w)"

definition take_state :: "repository \<Rightarrow> buffered_index_transaction \<times> repository" where
  "take_state repo = (r_state repo, repo\<lparr>r_state := transaction_default\<rparr>)"

definition path_matched_transaction ::
  "(file_records \<Rightarrow> nat) \<Rightarrow> (file_record list \<Rightarrow> file_record list) \<Rightarrow> (directory_record list \<Rightarrow> directory_record list) \<Rightarrow>
   buffered_index_transaction \<Rightarrow> buffered_index_transaction \<Rightarrow> buffered_index_transaction option" where
  "path_matched_transaction capacity ff fd state transaction =
    (let previous_files = snapshot_files_with_paths ff state;
         current_files = remap_current_files_by_path previous_files (snapshot_files_with_paths ff transaction);
         current_directories = snapshot_directories fd transaction;
         current_volumes = t_volumes transaction
     in map_option (\<lambda>(current_directories, current_files, current_volumes).
          \<lparr>t_volumes = current_volumes, t_sessions = t_sessions transaction,
           t_directories = dirs_from_iter (map (\<lambda>r. (d_id r, r)) current_directories),
           t_files = files_from_iter capacity (length current_files) (map (\<lambda>r. (f_id r, r)) current_files),
           t_lineages = t_lineages transaction, t_file_changes = t_file_changes transaction,
           t_committed = t_committed transaction\<rparr>)
        (remap_current_directory_ids_by_path (t_directories state) current_directories current_files current_volumes))"

text \<open>\<open>None\<close> is the panic of a missing map entry.\<close>

definition apply_path_matched_incremental_transaction ::
  "(file_records \<Rightarrow> nat) \<Rightarrow> (file_record list \<Rightarrow> file_record list) \<Rightarrow> (directory_record list \<Rightarrow> directory_record list) \<Rightarrow>
   (buffered_index_transaction \<Rightarrow> byte list) \<Rightarrow> (byte list \<Rightarrow> byte list list) \<Rightarrow> repository \<Rightarrow>
   buffered_index_transaction \<Rightarrow> file_system \<times> schedule \<Rightarrow>
   (repository \<times> file_change_set outcome \<times> file_system \<times> schedule) option" where
  "apply_path_matched_incremental_transaction capacity ff fd serialize split_writes repo transaction w =
     map_option (\<lambda>current. apply_incremental_transaction capacity ff serialize split_writes repo current w)
       (path_matched_transaction capacity ff fd (r_state repo) transaction)"

lemma open_repository_state:
  "r_state (open_repository capacity fs p) = open_state capacity fs (resolve_storage_path p)"
  by (simp add: open_repository_def open_state_def Let_def split: sum.splits)



section \<open>Witnesses\<close>

definition sample_path :: path where "sample_path = ([''C:''], ''winblaze.index.bin'')"

lemma sample_path_plain: "plain_storage_path sample_path"
  by (simp add: plain_storage_path_def sample_path_def split_extension_def)


lemma persist_succeeds_witness:
  "\<exists>os. persist_snapshot_with sample_path [[1], [2]] (Map.empty, replicate 20 True) =
    (Returned (), [sample_path \<mapsto> [1, 2]] (backup_storage_path sample_path := None,
       temp_storage_path sample_path := None), os)"
  using persist_succeeds [OF sample_path_plain, of "[[1], [2]]" 20 Map.empty] by simp

lemma persist_deletes_only_good_copy_witness:
  "\<exists>fs t. open_state (\<lambda>_. 0) fs sample_path = t \<and> same_index sample_index t
    \<and> (case persist_snapshot_with sample_path [] (fs, replicate 5 True) of (r, fs', os') \<Rightarrow>
        open_state (\<lambda>_. 0) fs' sample_path = transaction_default)"
proof -
  let ?good = "write_state id id id id sample_index"
  obtain t where t: "deserialize_state_from_reader (\<lambda>_. 0) ?good (length ?good) = Inr t" "same_index sample_index t"
    using deserialize_write_state [OF sample_index_invar sample_index_ok shuffles_id(1) shuffles_id(1)
        shuffles_id(1) shuffles_id(1)] by blast
  define fs where "fs = [sample_path \<mapsto> [], backup_storage_path sample_path \<mapsto> ?good]"
  have bad: "deserialize_state_from_reader (\<lambda>_. 0) [] (length ([] :: byte list)) = Inl (Io UnexpectedEof)"
    by (simp add: deserialize_state_from_reader_def read_snapshot_def dbind_def read_exact_def)
  have "fs sample_path = Some []" "fs (backup_storage_path sample_path) = Some ?good"
    using storage_paths_distinct [OF sample_path_plain] by (auto simp: fs_def)
  from persist_deletes_only_good_copy [OF sample_path_plain this(1) bad this(2) t(1), of "[]"] t(2)
  show ?thesis by (auto split: prod.splits)
qed


end
