(* ===== verification/Search_Query.thy ===== *)
theory Search_Query
  imports Comparison_Sorts Aggregation Index_Transaction "HOL-Library.Option_ord" "HOL-Library.Product_Lexorder"
begin

text \<open>
  \<open>SearchQuery\<close> of \<open>WinBlaze.Core/src/query.rs\<close> and \<open>IndexCatalog::search\<close> of
  \<open>WinBlaze.Index/src/query.rs\<close>: the text, extension, size and date filters, the sort orders, and the
  partial selection a result limit allows. \<open>path_extension\<close> stands for \<open>Path::extension\<close>.
\<close>

section \<open>Queries\<close>

datatype match_mode = Exact | Prefix | Contains | Substring
datatype sort_field = Name | SizeBytes | AllocationBytes | ModifiedUtc | Path
datatype sort_direction = Descending | Ascending

record search_query =
  q_volume_id :: "u64 option"
  q_root_directory_id :: "u64 option"
  q_pattern :: "string option"
  q_match_mode :: match_mode
  q_extensions :: "string list"
  q_include_files :: bool
  q_include_directories :: bool
  q_min_bytes :: "u64 option"
  q_max_bytes :: "u64 option"
  q_modified_after :: "i64 option"
  q_modified_before :: "i64 option"
  q_sort_field :: sort_field
  q_sort_direction :: sort_direction
  q_limit :: "nat option"

section \<open>Text predicates\<close>

definition starts_with_ignore_ascii_case :: "string \<Rightarrow> string \<Rightarrow> bool" where
  "starts_with_ignore_ascii_case haystack needle =
    (if length haystack < length needle then False
     else eq_ignore_ascii_case (take (length needle) haystack) needle)"

text \<open>\<open>slice::windows\<close>.\<close>

definition windows :: "nat \<Rightarrow> 'a list \<Rightarrow> 'a list list" where
  "windows n xs = map (\<lambda>i. take n (drop i xs)) [0..<Suc (length xs) - n]"

definition contains_ignore_ascii_case :: "string \<Rightarrow> string \<Rightarrow> bool" where
  "contains_ignore_ascii_case haystack needle =
    (if needle = [] then True
     else list_ex (\<lambda>window. eq_ignore_ascii_case window needle) (windows (length needle) haystack))"

fun matches_text :: "string \<Rightarrow> match_mode \<Rightarrow> string \<Rightarrow> string \<Rightarrow> bool" where
  "matches_text pattern Exact name full_path =
    (eq_ignore_ascii_case name pattern \<or> eq_ignore_ascii_case full_path pattern)"
| "matches_text pattern Prefix name full_path =
    (starts_with_ignore_ascii_case name pattern \<or> starts_with_ignore_ascii_case full_path pattern)"
| "matches_text pattern Contains name full_path =
    (contains_ignore_ascii_case name pattern \<or> contains_ignore_ascii_case full_path pattern)"
| "matches_text pattern Substring name full_path =
    (contains_ignore_ascii_case name pattern \<or> contains_ignore_ascii_case full_path pattern)"

definition normalize_extension :: "string \<Rightarrow> string option" where
  "normalize_extension extension =
    (let normalized = dropWhile (\<lambda>c. c = CHR ''.'') (trim extension)
     in if normalized = [] then None else Some normalized)"

text \<open>\<open>PreparedExtensions\<close>: eight inline slots, and an overflow vector for longer lists.\<close>

record prepared_extensions =
  pe_inline :: "string list"
  pe_len :: nat
  pe_overflow :: "string list"

definition prepare_extension :: "string \<Rightarrow> prepared_extensions \<Rightarrow> prepared_extensions" where
  "prepare_extension extension p =
    (let p = (if pe_len p < length (pe_inline p)
              then p\<lparr>pe_inline := (pe_inline p)[pe_len p := extension]\<rparr>
              else let p = (if pe_overflow p = [] then p\<lparr>pe_overflow := pe_inline p\<rparr> else p)
                   in p\<lparr>pe_overflow := pe_overflow p @ [extension]\<rparr>)
     in p\<lparr>pe_len := pe_len p + 1\<rparr>)"

definition prepared_extensions_new :: "string list \<Rightarrow> prepared_extensions" where
  "prepared_extensions_new extensions =
    foldl (\<lambda>p e. prepare_extension e p) \<lparr>pe_inline = replicate 8 [], pe_len = 0, pe_overflow = []\<rparr>
      (List.map_filter normalize_extension extensions)"

definition prepared_as_slice :: "prepared_extensions \<Rightarrow> string list" where
  "prepared_as_slice p = (if pe_overflow p = [] then take (pe_len p) (pe_inline p) else pe_overflow p)"

section \<open>Candidates\<close>

record file_match_params =
  m_name :: string
  m_full_path :: string
  m_size_bytes :: u64
  m_allocation_bytes :: u64
  m_modified_utc :: "i64 option"

definition matches_query ::
  "(string \<Rightarrow> string option) \<Rightarrow> search_query \<Rightarrow> string option \<Rightarrow> string list \<Rightarrow> file_match_params \<Rightarrow> bool" where
  "matches_query path_extension query pattern extensions m =
    (if \<not> (case pattern of None \<Rightarrow> True
            | Some p \<Rightarrow> matches_text p (q_match_mode query) (m_name m) (m_full_path m)) then False
     else if extensions \<noteq> [] \<and> \<not> (case path_extension (m_full_path m) of
         Some raw \<Rightarrow> list_ex (\<lambda>e. eq_ignore_ascii_case e raw) extensions | None \<Rightarrow> False) then False
     else if (case q_min_bytes query of Some min_bytes \<Rightarrow> m_size_bytes m < min_bytes | None \<Rightarrow> False) then False
     else if (case q_max_bytes query of Some max_bytes \<Rightarrow> m_size_bytes m > max_bytes | None \<Rightarrow> False) then False
     else if (case q_modified_after query of Some after \<Rightarrow>
         (case m_modified_utc m of None \<Rightarrow> True | Some v \<Rightarrow> sint v \<le> sint after) | None \<Rightarrow> False) then False
     else if (case q_modified_before query of Some before \<Rightarrow>
         (case m_modified_utc m of None \<Rightarrow> True | Some v \<Rightarrow> sint v \<ge> sint before) | None \<Rightarrow> False) then False
     else True)"

datatype candidate_hit = FileHit file_record | DirectoryHit directory_record

fun hit_params :: "candidate_hit \<Rightarrow> file_match_params" where
  "hit_params (FileHit f) = \<lparr>m_name = f_name f, m_full_path = f_full_path f, m_size_bytes = f_size_bytes f,
     m_allocation_bytes = f_allocation_bytes f, m_modified_utc = f_modified_utc f\<rparr>"
| "hit_params (DirectoryHit d) = \<lparr>m_name = d_name d, m_full_path = d_full_path d, m_size_bytes = d_total_bytes d,
     m_allocation_bytes = d_total_bytes d, m_modified_utc = None\<rparr>"

datatype index_record_kind = VolumeKind | DirectoryKind | FileKind

record index_search_hit =
  h_kind :: index_record_kind
  h_params :: file_match_params

definition into_owned :: "candidate_hit \<Rightarrow> index_search_hit" where
  "into_owned hit = \<lparr>h_kind = (case hit of FileHit _ \<Rightarrow> FileKind | DirectoryHit _ \<Rightarrow> DirectoryKind),
     h_params = hit_params hit\<rparr>"

section \<open>Sorting hits\<close>

definition text_key :: "sort_field \<Rightarrow> candidate_hit \<Rightarrow> byte list" where
  "text_key field hit = as_bytes (to_ascii_lowercase
     (if field = Name then m_name (hit_params hit) else m_full_path (hit_params hit)))"

fun sort_hits_ascending :: "(candidate_hit list \<Rightarrow> candidate_hit list) \<Rightarrow> sort_field \<Rightarrow> candidate_hit list \<Rightarrow> candidate_hit list" where
  "sort_hits_ascending f Name hits = sort_key (text_key Name) hits"
| "sort_hits_ascending f Path hits = sort_key (text_key Path) hits"
| "sort_hits_ascending f SizeBytes hits = sort_unstable_by_key f (\<lambda>h. m_size_bytes (hit_params h)) hits"
| "sort_hits_ascending f AllocationBytes hits = sort_unstable_by_key f (\<lambda>h. m_allocation_bytes (hit_params h)) hits"
| "sort_hits_ascending f ModifiedUtc hits =
     sort_unstable_by_key f (\<lambda>h. map_option sint (m_modified_utc (hit_params h))) hits"

definition sort_hits ::
  "(candidate_hit list \<Rightarrow> candidate_hit list) \<Rightarrow> sort_field \<Rightarrow> sort_direction \<Rightarrow> candidate_hit list \<Rightarrow> candidate_hit list" where
  "sort_hits f field direction hits =
    (let hits = sort_hits_ascending f field hits
     in if direction = Descending then rev hits else hits)"

text \<open>The comparison of the limited text path: by lowercased text, then by position.\<close>

definition compare_hits :: "candidate_hit list \<Rightarrow> sort_field \<Rightarrow> sort_direction \<Rightarrow> nat \<Rightarrow> nat \<Rightarrow> ordering" where
  "compare_hits hits field direction a b =
    (let ordering = then_with (cmp (text_key field (hits ! a)) (text_key field (hits ! b))) (cmp a b)
     in if direction = Descending then reverse_ordering ordering else ordering)"

section \<open>Searching\<close>

record index_catalog =
  cat_volumes :: "volume_record list"
  cat_directories :: "directory_record list"
  cat_files :: "file_record list"
  cat_aggregated_directories :: "directory_record list"

text \<open>The unspecified choices of the unstable operations.\<close>

record sort_choices =
  ch_hits :: "candidate_hit list \<Rightarrow> candidate_hit list"
  ch_below :: "nat list \<Rightarrow> nat list"
  ch_above :: "nat list \<Rightarrow> nat list"
  ch_order :: "nat list \<Rightarrow> nat list"

definition choices_ok :: "sort_choices \<Rightarrow> bool" where
  "choices_ok ch \<longleftrightarrow> shuffles (ch_hits ch) \<and> shuffles (ch_below ch) \<and> shuffles (ch_above ch) \<and> shuffles (ch_order ch)"

definition matching_hits :: "(string \<Rightarrow> string option) \<Rightarrow> index_catalog \<Rightarrow> search_query \<Rightarrow> candidate_hit list" where
  "matching_hits path_extension catalog query =
    (let pattern = q_pattern query;
         extensions = prepared_as_slice (prepared_extensions_new (q_extensions query));
         keep = (\<lambda>hit. matches_query path_extension query pattern extensions (hit_params hit))
     in (if q_include_files query then filter keep (map FileHit (cat_files catalog)) else [])
        @ (if q_include_directories query
           then filter keep (map DirectoryHit (cat_aggregated_directories catalog)) else []))"

definition select_hits :: "sort_choices \<Rightarrow> search_query \<Rightarrow> nat \<Rightarrow> candidate_hit list \<Rightarrow> candidate_hit list option" where
  "select_hits ch query limit hits =
    (let le = (\<lambda>a b. compare_hits hits (q_sort_field query) (q_sort_direction query) a b \<noteq> Greater)
     in map_option (\<lambda>order. map (\<lambda>i. hits ! i) (sort_unstable_by (ch_order ch) le (take limit order)))
          (select_nth_unstable_by (ch_below ch) (ch_above ch) (limit - 1) le [0..<length hits]))"

text \<open>\<open>None\<close> is a panic of the selection.\<close>

definition search ::
  "(string \<Rightarrow> string option) \<Rightarrow> sort_choices \<Rightarrow> index_catalog \<Rightarrow> search_query \<Rightarrow> index_search_hit list option" where
  "search path_extension ch catalog query =
    (let candidate_count = (if q_include_files query then length (cat_files catalog) else 0)
           + (if q_include_directories query then length (cat_aggregated_directories catalog) else 0)
     in if q_limit query = Some 0 \<or> candidate_count = 0
           \<or> (case (q_min_bytes query, q_max_bytes query) of (Some lo, Some hi) \<Rightarrow> lo > hi | _ \<Rightarrow> False)
           \<or> (case (q_modified_after query, q_modified_before query) of
                (Some after, Some before) \<Rightarrow> sint after \<ge> sint before | _ \<Rightarrow> False)
        then Some []
        else
          let hits = matching_hits path_extension catalog query;
              sorted = (case q_limit query of
                 Some limit \<Rightarrow>
                   if limit < length hits \<and> (q_sort_field query = Name \<or> q_sort_field query = Path)
                   then select_hits ch query limit hits
                   else Some (sort_hits (ch_hits ch) (q_sort_field query) (q_sort_direction query) hits)
               | None \<Rightarrow> Some (sort_hits (ch_hits ch) (q_sort_field query) (q_sort_direction query) hits))
          in map_option (\<lambda>hits. map into_owned (case q_limit query of Some limit \<Rightarrow> take limit hits | None \<Rightarrow> hits)) sorted)"

definition catalog_from_transaction ::
  "(volume_record list \<Rightarrow> volume_record list) \<Rightarrow> (directory_record list \<Rightarrow> directory_record list) \<Rightarrow>
   (file_record list \<Rightarrow> file_record list) \<Rightarrow> buffered_index_transaction \<Rightarrow> index_catalog option" where
  "catalog_from_transaction fv fd ff transaction =
    (let directories = snapshot_directories fd transaction;
         files = snapshot_files_with_paths ff transaction
     in map_option (\<lambda>aggregated. \<lparr>cat_volumes = snapshot_volumes fv transaction, cat_directories = directories,
            cat_files = files, cat_aggregated_directories = aggregated\<rparr>)
          (aggregate_directory_records directories files))"


section \<open>What the filters mean\<close>

lemma windows_set: "set (windows n xs) = {take n (drop i xs) | i. i + n \<le> length xs}"
  by (auto simp: windows_def)


lemma lowercase_take: "to_ascii_lowercase (take n s) = take n (to_ascii_lowercase s)"
  by (simp add: to_ascii_lowercase_def take_map)

lemma lowercase_drop: "to_ascii_lowercase (drop n s) = drop n (to_ascii_lowercase s)"
  by (simp add: to_ascii_lowercase_def drop_map)

lemma length_lowercase [simp]: "length (to_ascii_lowercase s) = length s"
  by (simp add: to_ascii_lowercase_def)

lemma starts_with_prefix:
  "starts_with_ignore_ascii_case h n \<longleftrightarrow> prefix (to_ascii_lowercase n) (to_ascii_lowercase h)"
proof -
  have "take (length n) (to_ascii_lowercase h) = to_ascii_lowercase n \<longleftrightarrow>
      prefix (to_ascii_lowercase n) (to_ascii_lowercase h)" if "length n \<le> length h"
    by (metis append_eq_conv_conj length_lowercase prefix_def take_is_prefix)
  then show ?thesis
    using prefix_length_le [of "to_ascii_lowercase n" "to_ascii_lowercase h"]
    by (auto simp: starts_with_ignore_ascii_case_def eq_ignore_ascii_case_iff lowercase_take)
qed

lemma contains_sublist:
  "contains_ignore_ascii_case h n \<longleftrightarrow> sublist (to_ascii_lowercase n) (to_ascii_lowercase h)"
proof (cases "n = []")
  case True
  then show ?thesis by (simp add: contains_ignore_ascii_case_def to_ascii_lowercase_def)
next
  case False
  let ?h = "to_ascii_lowercase h" and ?n = "to_ascii_lowercase n"
  have "sublist ?n ?h \<longleftrightarrow> (\<exists>i. i + length n \<le> length h \<and> take (length n) (drop i ?h) = ?n)"
  proof
    assume "sublist ?n ?h"
    then obtain ps ss where e: "?h = ps @ ?n @ ss" by (auto simp: sublist_def)
    have "length ?h = length h" by simp
    with e have "length ps + length n \<le> length h" by (metis length_append length_lowercase add.assoc le_add1)
    moreover have "take (length n) (drop (length ps) ?h) = ?n" by (simp add: e)
    ultimately show "\<exists>i. i + length n \<le> length h \<and> take (length n) (drop i ?h) = ?n" by blast
  next
    assume "\<exists>i. i + length n \<le> length h \<and> take (length n) (drop i ?h) = ?n"
    then obtain i where "take (length n) (drop i ?h) = ?n" by blast
    then have "?h = take i ?h @ ?n @ drop (length n) (drop i ?h)" by (metis append_take_drop_id)
    then show "sublist ?n ?h" unfolding sublist_def by blast
  qed
  then show ?thesis
    using False by (auto simp: contains_ignore_ascii_case_def list_ex_iff windows_set eq_ignore_ascii_case_iff
        lowercase_take lowercase_drop)
qed

lemma prepared_as_slice_eq:
  "prepared_as_slice (prepared_extensions_new extensions) = List.map_filter normalize_extension extensions"
proof -
  let ?start = "\<lparr>pe_inline = replicate 8 [], pe_len = 0, pe_overflow = []\<rparr> :: prepared_extensions"
  let ?run = "\<lambda>es. foldl (\<lambda>p e. prepare_extension e p) ?start es"
  have run: "length (pe_inline (?run es)) = 8 \<and> pe_len (?run es) = length es
      \<and> take (min 8 (length es)) (pe_inline (?run es)) = take 8 es
      \<and> pe_overflow (?run es) = (if length es \<le> 8 then [] else es)" for es
  proof (induction es rule: rev_induct)
    case (snoc e es)
    define p where "p = ?run es"
    have p: "length (pe_inline p) = 8" "pe_len p = length es" "take (min 8 (length es)) (pe_inline p) = take 8 es"
      "pe_overflow p = (if length es \<le> 8 then [] else es)" using snoc by (simp_all add: p_def)
    have "?run (es @ [e]) = prepare_extension e p" by (simp add: p_def)
    moreover consider "length es < 8" | "length es = 8" | "8 < length es" by linarith
    then have "length (pe_inline (prepare_extension e p)) = 8 \<and> pe_len (prepare_extension e p) = length (es @ [e])
      \<and> take (min 8 (length (es @ [e]))) (pe_inline (prepare_extension e p)) = take 8 (es @ [e])
      \<and> pe_overflow (prepare_extension e p) = (if length (es @ [e]) \<le> 8 then [] else es @ [e])"
    proof cases
      case 1
      then have "take (Suc (length es)) ((pe_inline p)[length es := e]) = es @ [e]"
        using p by (simp add: take_Suc_conv_app_nth min_def)
      moreover have "min 8 (Suc (length es)) = Suc (length es)" "take 8 (es @ [e]) = es @ [e]" using 1 by auto
      ultimately show ?thesis using 1 p by (simp add: prepare_extension_def Let_def)
    next
      case 2
      then have "pe_inline p = es" using p by (simp add: min_def)
      with 2 p show ?thesis by (auto simp: prepare_extension_def Let_def)
    next
      case 3
      then have "es \<noteq> []" by auto
      with 3 p show ?thesis by (auto simp: prepare_extension_def Let_def min_def)
    qed
    ultimately show ?case by simp
  qed simp
  have "prepared_as_slice (?run es) = es" for es
    using run [of es] by (cases "length es \<le> 8") (auto simp: prepared_as_slice_def min_def)
  then show ?thesis by (simp add: prepared_extensions_new_def)
qed

text \<open>The filters, declaratively.\<close>

definition text_matches :: "match_mode \<Rightarrow> string \<Rightarrow> string \<Rightarrow> bool" where
  "text_matches mode pattern text = (case mode of
     Exact \<Rightarrow> to_ascii_lowercase text = to_ascii_lowercase pattern
   | Prefix \<Rightarrow> prefix (to_ascii_lowercase pattern) (to_ascii_lowercase text)
   | _ \<Rightarrow> sublist (to_ascii_lowercase pattern) (to_ascii_lowercase text))"

definition hit_matches :: "(string \<Rightarrow> string option) \<Rightarrow> search_query \<Rightarrow> file_match_params \<Rightarrow> bool" where
  "hit_matches path_extension query m \<longleftrightarrow>
     (\<forall>p. q_pattern query = Some p \<longrightarrow>
        text_matches (q_match_mode query) p (m_name m) \<or> text_matches (q_match_mode query) p (m_full_path m))
     \<and> (let extensions = List.map_filter normalize_extension (q_extensions query) in extensions \<noteq> [] \<longrightarrow>
        (\<exists>raw. path_extension (m_full_path m) = Some raw
          \<and> to_ascii_lowercase raw \<in> to_ascii_lowercase ` set extensions))
     \<and> (\<forall>lo. q_min_bytes query = Some lo \<longrightarrow> lo \<le> m_size_bytes m)
     \<and> (\<forall>hi. q_max_bytes query = Some hi \<longrightarrow> m_size_bytes m \<le> hi)
     \<and> (\<forall>t. q_modified_after query = Some t \<longrightarrow> (\<exists>v. m_modified_utc m = Some v \<and> sint t < sint v))
     \<and> (\<forall>t. q_modified_before query = Some t \<longrightarrow> (\<exists>v. m_modified_utc m = Some v \<and> sint v < sint t))"

lemma matches_text_iff:
  "matches_text pattern mode name path \<longleftrightarrow> text_matches mode pattern name \<or> text_matches mode pattern path"
  by (cases mode) (simp_all add: text_matches_def eq_ignore_ascii_case_iff starts_with_prefix contains_sublist)

lemma matches_query_iff:
  "matches_query path_extension query (q_pattern query)
     (prepared_as_slice (prepared_extensions_new (q_extensions query))) m \<longleftrightarrow> hit_matches path_extension query m"
proof -
  have ext: "(\<exists>raw. x = Some raw \<and> to_ascii_lowercase raw \<in> to_ascii_lowercase ` set es)
      \<longleftrightarrow> (case x of Some raw \<Rightarrow> list_ex (\<lambda>e. eq_ignore_ascii_case e raw) es | None \<Rightarrow> False)" for x es
    by (auto simp: list_ex_iff eq_ignore_ascii_case_iff image_iff split: option.splits) (metis+)
  show ?thesis
    unfolding matches_query_def hit_matches_def prepared_as_slice_eq ext Let_def matches_text_iff
    by (auto simp: not_less not_le split: option.splits if_splits)
qed


section \<open>Searching is filtering, sorting and cutting\<close>

definition reference_search ::
  "(string \<Rightarrow> string option) \<Rightarrow> (candidate_hit list \<Rightarrow> candidate_hit list) \<Rightarrow> index_catalog \<Rightarrow> search_query \<Rightarrow>
   index_search_hit list" where
  "reference_search path_extension f catalog query =
    (let candidates = (if q_include_files query then map FileHit (cat_files catalog) else [])
           @ (if q_include_directories query then map DirectoryHit (cat_aggregated_directories catalog) else []);
         hits = filter (\<lambda>hit. hit_matches path_extension query (hit_params hit)) candidates;
         sorted = sort_hits f (q_sort_field query) (q_sort_direction query) hits
     in map into_owned (case q_limit query of Some limit \<Rightarrow> take limit sorted | None \<Rightarrow> sorted))"

interpretation compare_hits: comparison "\<lambda>a b. compare_hits hits field direction a b \<noteq> Greater" UNIV
  for hits field direction
proof
  fix a b c :: nat
  let ?k = "\<lambda>i. text_key field (hits ! i)"
  have le: "compare_hits hits field direction a b \<noteq> Greater \<longleftrightarrow>
      (if direction = Descending then ?k b < ?k a \<or> ?k a = ?k b \<and> b \<le> a else ?k a < ?k b \<or> ?k a = ?k b \<and> a \<le> b)" for a b
    by (auto simp: compare_hits_def Let_def reverse_ordering_Greater then_with_Less then_with_Greater not_less
        intro: antisym)
  show "compare_hits hits field direction a b \<noteq> Greater \<or> compare_hits hits field direction b a \<noteq> Greater"
    unfolding le by (cases direction) (auto simp: not_less order.order_iff_strict)
  show "compare_hits hits field direction a b \<noteq> Greater \<Longrightarrow> compare_hits hits field direction b c \<noteq> Greater
      \<Longrightarrow> compare_hits hits field direction a c \<noteq> Greater"
    unfolding le by (cases direction) auto
  show "compare_hits hits field direction a b \<noteq> Greater \<Longrightarrow> compare_hits hits field direction b a \<noteq> Greater \<Longrightarrow> a = b"
    unfolding le by (cases direction) auto
qed

lemma compare_hits_le:
  "compare_hits hits field direction a b \<noteq> Greater \<longleftrightarrow>
    (let k = (\<lambda>i. text_key field (hits ! i)) in
     if direction = Descending then k b < k a \<or> k a = k b \<and> b \<le> a else k a < k b \<or> k a = k b \<and> a \<le> b)"
  by (auto simp: compare_hits_def Let_def reverse_ordering_Greater then_with_Less then_with_Greater not_less
      intro: antisym)

lemma sort_by_compare_hits:
  assumes "field = Name \<or> field = Path"
  shows "map (\<lambda>i. hits ! i) (sort_by (\<lambda>a b. compare_hits hits field direction a b \<noteq> Greater) [0..<length hits])
    = sort_hits f field direction hits"
proof -
  let ?k = "\<lambda>i. text_key field (hits ! i)" and ?is = "[0..<length hits]"
  let ?s = "sort_key ?k ?is"
  have asc: "sorted_wrt (\<lambda>a b. ?k a < ?k b \<or> ?k a = ?k b \<and> a \<le> b) ?s"
    by (rule sort_key_indices) (simp add: strict_sorted_iff flip: sorted_wrt_upt)
  define r where "r = (if direction = Descending then rev ?s else ?s)"
  have "sorted_wrt (\<lambda>a b. compare_hits hits field direction a b \<noteq> Greater) r"
  proof (cases direction)
    case Descending
    have "sorted_wrt (\<lambda>a b. compare_hits hits field direction b a \<noteq> Greater) ?s"
      by (rule sorted_wrt_mono_rel [OF _ asc]) (auto simp: compare_hits_le Let_def Descending)
    then show ?thesis by (simp add: r_def Descending sorted_wrt_rev)
  next
    case Ascending
    show ?thesis unfolding r_def Ascending
      by (simp, rule sorted_wrt_mono_rel [OF _ asc]) (auto simp: compare_hits_le Let_def Ascending)
  qed
  moreover have "mset r = mset ?is" by (simp add: r_def)
  ultimately have "sort_by (\<lambda>a b. compare_hits hits field direction a b \<noteq> Greater) ?is = r"
    by (intro compare_hits.sort_by_eqI) simp_all
  moreover have "map (\<lambda>i. hits ! i) ?s = sort_key (text_key field) (map (\<lambda>i. hits ! i) ?is)"
    by (simp add: sort_key_map)
  moreover have "map (\<lambda>i. hits ! i) ?is = hits" by (rule map_nth)
  ultimately show ?thesis
    using assms by (auto simp: r_def sort_hits_def Let_def simp flip: rev_map)
qed

lemma select_hits_eq:
  assumes "choices_ok ch" "0 < limit" "limit \<le> length hits" "q_sort_field query = Name \<or> q_sort_field query = Path"
  shows "select_hits ch query limit hits
    = Some (take limit (sort_hits f (q_sort_field query) (q_sort_direction query) hits))"
proof -
  let ?le = "\<lambda>a b. compare_hits hits (q_sort_field query) (q_sort_direction query) a b \<noteq> Greater"
  have "map_option (\<lambda>ys. sort_unstable_by (ch_order ch) ?le (take limit ys))
      (select_nth_unstable_by (ch_below ch) (ch_above ch) (limit - 1) ?le [0..<length hits])
    = Some (take limit (sort_by ?le [0..<length hits]))"
    using assms by (intro compare_hits.select_truncate_sort) (simp_all add: choices_ok_def)
  then have "map_option (\<lambda>ys. map (\<lambda>i. hits ! i) (sort_unstable_by (ch_order ch) ?le (take limit ys)))
      (select_nth_unstable_by (ch_below ch) (ch_above ch) (limit - 1) ?le [0..<length hits])
    = Some (map (\<lambda>i. hits ! i) (take limit (sort_by ?le [0..<length hits])))"
    by (auto simp: map_option_case split: option.splits)
  then show ?thesis
    using sort_by_compare_hits [OF assms(4), of hits _ f] by (auto simp: select_hits_def Let_def take_map [symmetric])
qed

lemma matching_hits_reference:
  "matching_hits path_extension catalog query =
     filter (\<lambda>hit. hit_matches path_extension query (hit_params hit))
      ((if q_include_files query then map FileHit (cat_files catalog) else [])
       @ (if q_include_directories query then map DirectoryHit (cat_aggregated_directories catalog) else []))"
  by (simp add: matching_hits_def Let_def matches_query_iff)

text \<open>The early returns: nothing can match.\<close>

lemma no_match_early:
  "(case (q_min_bytes query, q_max_bytes query) of (Some lo, Some hi) \<Rightarrow> lo > hi | _ \<Rightarrow> False) \<Longrightarrow>
    \<not> hit_matches path_extension query m"
  "(case (q_modified_after query, q_modified_before query) of
      (Some after, Some before) \<Rightarrow> sint after \<ge> sint before | _ \<Rightarrow> False) \<Longrightarrow>
    \<not> hit_matches path_extension query m"
  by (auto simp: hit_matches_def split: option.splits)

lemma sort_hits_Nil [simp]: "shuffles f \<Longrightarrow> sort_hits f field direction [] = []"
  using shufflesD [of f "[]"] by (cases field) (simp_all add: sort_hits_def sort_unstable_by_key_def)

text \<open>
  C3. IndexCatalog::search never panics and returns exactly the hits of a reference search: all files and
  aggregated directories that satisfy the pattern, extension, size and date filters, sorted by the requested
  field and direction and cut to the limit. The early exits, the in-place byte comparison without lower-case
  copies and the partial selection of the first hits before sorting change nothing.
\<close>

theorem search_correct:
  assumes "choices_ok ch"
  shows "search path_extension ch catalog query = Some (reference_search path_extension (ch_hits ch) catalog query)"
proof -
  let ?hits = "matching_hits path_extension catalog query"
  have f: "shuffles (ch_hits ch)" using assms by (simp add: choices_ok_def)
  have ref: "reference_search path_extension (ch_hits ch) catalog query =
    (let sorted = sort_hits (ch_hits ch) (q_sort_field query) (q_sort_direction query) ?hits
     in map into_owned (case q_limit query of Some limit \<Rightarrow> take limit sorted | None \<Rightarrow> sorted))"
    by (simp only: reference_search_def matching_hits_reference Let_def)
  show ?thesis
  proof (cases "q_limit query = Some 0 \<or> (if q_include_files query then length (cat_files catalog) else 0)
           + (if q_include_directories query then length (cat_aggregated_directories catalog) else 0) = 0
           \<or> (case (q_min_bytes query, q_max_bytes query) of (Some lo, Some hi) \<Rightarrow> lo > hi | _ \<Rightarrow> False)
           \<or> (case (q_modified_after query, q_modified_before query) of
                (Some after, Some before) \<Rightarrow> sint after \<ge> sint before | _ \<Rightarrow> False)")
    case True
    then have "q_limit query = Some 0 \<or> ?hits = []"
      unfolding matching_hits_reference using no_match_early by (auto simp: filter_empty_conv split: if_splits)
    then have "reference_search path_extension (ch_hits ch) catalog query = []"
      unfolding ref using f by (auto split: option.splits)
    with True show ?thesis by (simp add: search_def Let_def)
  next
    case False
    have "select_hits ch query limit ?hits
        = Some (take limit (sort_hits (ch_hits ch) (q_sort_field query) (q_sort_direction query) ?hits))"
      if "q_limit query = Some limit" "limit < length ?hits" "q_sort_field query = Name \<or> q_sort_field query = Path" for limit
      by (rule select_hits_eq) (use assms that False in auto)
    then show ?thesis
      unfolding ref search_def Let_def if_not_P [OF False] by (auto split: option.splits)
  qed
qed


lemma search_correct_witness:
  "search (\<lambda>_. None) \<lparr>ch_hits = rev, ch_below = rev, ch_above = id, ch_order = rev\<rparr>
     \<lparr>cat_volumes = [], cat_directories = [],
      cat_files = [sample_file 1 5 ''b'' 10, sample_file 2 5 ''A'' 20, sample_file 3 5 ''c'' 30],
      cat_aggregated_directories = []\<rparr>
     \<lparr>q_volume_id = None, q_root_directory_id = None, q_pattern = None, q_match_mode = Substring,
      q_extensions = [], q_include_files = True, q_include_directories = False,
      q_min_bytes = None, q_max_bytes = Some 25, q_modified_after = None, q_modified_before = None,
      q_sort_field = Name, q_sort_direction = Ascending, q_limit = Some 1\<rparr>
   = Some [into_owned (FileHit (sample_file 2 5 ''A'' 20))]"
proof -
  have lower: "to_ascii_lowercase ''A'' = ''a''" "to_ascii_lowercase ''b'' = ''b''"
    "as_bytes ''a'' = [97]" "as_bytes ''b'' = [98]"
    by (code_simp, code_simp, code_simp, code_simp)
  show ?thesis
    by (subst search_correct)
      (simp_all add: choices_ok_def shuffles_id reference_search_def Let_def hit_matches_def sample_file_def
        List.map_filter_simps sort_hits_def text_key_def lower)
qed

end
