(* ===== verification/Wildcards.thy ===== *)
theory Wildcards
  imports Wb_Text
begin

text \<open>
  The wildcard matchers of \<open>WinBlaze.Index/src/export.rs\<close>: a loop that remembers the last star and
  the position at which to retry. The byte and the character version differ in the comparison of two
  characters only, which is the parameter \<open>same\<close>.
\<close>

section \<open>The loop\<close>

text \<open>The closing loop over trailing stars is the test that only stars are left.\<close>

partial_function (option) wildcard_loop ::
  "('c \<Rightarrow> 'c \<Rightarrow> bool) \<Rightarrow> ('c \<Rightarrow> bool) \<Rightarrow> 'c list \<Rightarrow> 'c list \<Rightarrow> nat \<Rightarrow> nat \<Rightarrow> nat option \<Rightarrow> nat \<Rightarrow> bool option" where
  "wildcard_loop same is_star p n i j star retry =
    (if j < length n then
       if i < length p \<and> same (p ! i) (n ! j) then wildcard_loop same is_star p n (i + 1) (j + 1) star retry
       else if i < length p \<and> is_star (p ! i) then wildcard_loop same is_star p n (i + 1) j (Some i) j
       else (case star of
           Some index \<Rightarrow> wildcard_loop same is_star p n (index + 1) (retry + 1) star (retry + 1)
         | None \<Rightarrow> Some False)
     else Some (i + length (takeWhile is_star (drop i p)) = length p))"

definition ascii_wildcard :: "string \<Rightarrow> string \<Rightarrow> bool option" where
  "ascii_wildcard p n =
    wildcard_loop (\<lambda>c x. c = CHR ''?'' \<or> ascii_lower c = ascii_lower x) (\<lambda>c. c = CHR ''*'') p n 0 0 None 0"

text \<open>Characters outside bytes are their code points.\<close>

definition unicode_wildcard :: "nat list \<Rightarrow> nat list \<Rightarrow> bool option" where
  "unicode_wildcard p n = wildcard_loop (\<lambda>c x. c = 63 \<or> c = x) (\<lambda>c. c = 42) p n 0 0 None 0"

section \<open>What a pattern means\<close>

fun wild :: "('c \<Rightarrow> 'c \<Rightarrow> bool) \<Rightarrow> ('c \<Rightarrow> bool) \<Rightarrow> 'c list \<Rightarrow> 'c list \<Rightarrow> bool" where
  "wild same is_star [] n \<longleftrightarrow> n = []"
| "wild same is_star (c # p) [] \<longleftrightarrow> is_star c \<and> wild same is_star p []"
| "wild same is_star (c # p) (x # n) \<longleftrightarrow>
    (if is_star c then wild same is_star p (x # n) \<or> wild same is_star (c # p) n
     else same c x \<and> wild same is_star p n)"

definition skips :: "('c \<Rightarrow> 'c \<Rightarrow> bool) \<Rightarrow> ('c \<Rightarrow> bool) \<Rightarrow> 'c list \<Rightarrow> 'c list \<Rightarrow> bool" where
  "skips same is_star q n \<longleftrightarrow> (\<exists>k\<le>length n. wild same is_star q (drop k n))"

lemma skips_Nil [simp]: "skips same is_star q [] \<longleftrightarrow> wild same is_star q []"
  by (simp add: skips_def)

lemma skips_Cons: "skips same is_star q (x # n) \<longleftrightarrow> wild same is_star q (x # n) \<or> skips same is_star q n"
proof
  assume "skips same is_star q (x # n)"
  then obtain k where "k \<le> Suc (length n)" "wild same is_star q (drop k (x # n))" by (auto simp: skips_def)
  then show "wild same is_star q (x # n) \<or> skips same is_star q n"
    by (cases k) (auto simp: skips_def)
next
  assume "wild same is_star q (x # n) \<or> skips same is_star q n"
  then show "skips same is_star q (x # n)"
  proof
    assume "wild same is_star q (x # n)"
    then show ?thesis unfolding skips_def by (intro exI [of _ 0]) simp
  next
    assume "skips same is_star q n"
    then obtain k where "k \<le> length n" "wild same is_star q (drop k n)" by (auto simp: skips_def)
    then show ?thesis unfolding skips_def by (intro exI [of _ "Suc k"]) simp
  qed
qed

lemma wild_star: "is_star c \<Longrightarrow> wild same is_star (c # p) n \<longleftrightarrow> skips same is_star p n"
  by (induction n) (auto simp: skips_Cons)

lemma skips_suffix: "skips same is_star q (drop k n) \<Longrightarrow> skips same is_star q n"
  unfolding skips_def by (metis drop_drop length_drop nat_le_linear drop_all le_refl)

text \<open>A segment without stars consumes as many characters as it has.\<close>

lemma wild_segment:
  "list_all (\<lambda>c. \<not> is_star c) a \<Longrightarrow> wild same is_star (a @ q) n \<Longrightarrow>
    length a \<le> length n \<and> wild same is_star q (drop (length a) n)"
proof (induction a arbitrary: n)
  case (Cons c a)
  then show ?case by (cases n) auto
qed simp

lemma wild_stars: "wild same is_star p [] \<longleftrightarrow> list_all is_star p"
  by (induction p) auto

lemma stars_left: "i \<le> length p \<Longrightarrow> i + length (takeWhile is_star (drop i p)) = length p \<longleftrightarrow> list_all is_star (drop i p)"
proof -
  assume "i \<le> length p"
  then have "i + length (takeWhile is_star (drop i p)) = length p \<longleftrightarrow> length (takeWhile is_star (drop i p)) = length (drop i p)"
    by auto
  also have "\<dots> \<longleftrightarrow> takeWhile is_star (drop i p) = drop i p"
    by (metis takeWhile_eq_take take_all_iff order_refl length_take min.absorb_iff2 linorder_linear)
  finally show ?thesis by (simp add: takeWhile_eq_all_conv list_all_iff)
qed

section \<open>The loop decides the meaning\<close>

text \<open>What is left to try from the last star.\<close>

definition from_star :: "('c \<Rightarrow> 'c \<Rightarrow> bool) \<Rightarrow> ('c \<Rightarrow> bool) \<Rightarrow> 'c list \<Rightarrow> 'c list \<Rightarrow> nat option \<Rightarrow> nat \<Rightarrow> bool" where
  "from_star same is_star p n star retry \<longleftrightarrow>
    (case star of None \<Rightarrow> False
     | Some s \<Rightarrow> retry < length n \<and> skips same is_star (drop (s + 1) p) (drop (retry + 1) n))"

text \<open>The characters since the last star are no stars and stand against as many of the name.\<close>

definition loop_ok :: "('c \<Rightarrow> bool) \<Rightarrow> 'c list \<Rightarrow> 'c list \<Rightarrow> nat \<Rightarrow> nat \<Rightarrow> nat option \<Rightarrow> nat \<Rightarrow> bool" where
  "loop_ok is_star p n i j star retry \<longleftrightarrow> i \<le> length p \<and> j \<le> length n \<and>
    (case star of None \<Rightarrow> True
     | Some s \<Rightarrow> s < i \<and> retry \<le> j \<and> i - (s + 1) = j - retry
         \<and> list_all (\<lambda>c. \<not> is_star c) (take (i - (s + 1)) (drop (s + 1) p)))"

lemma from_star_end:
  assumes "loop_ok is_star p n i (length n) star retry"
  shows "\<not> from_star same is_star p n star retry"
proof
  assume "from_star same is_star p n star retry"
  then obtain s where s: "star = Some s" "retry < length n" "skips same is_star (drop (s + 1) p) (drop (retry + 1) n)"
    by (auto simp: from_star_def split: option.splits)
  let ?a = "take (i - (s + 1)) (drop (s + 1) p)"
  have ok: "s < i" "i \<le> length p" "i - (s + 1) = length n - retry" "list_all (\<lambda>c. \<not> is_star c) ?a"
    using assms s(1) by (auto simp: loop_ok_def)
  obtain k where "wild same is_star (drop (s + 1) p) (drop k (drop (retry + 1) n))"
    using s(3) by (auto simp: skips_def)
  then have "length ?a \<le> length (drop k (drop (retry + 1) n))"
    using wild_segment [OF ok(4)] by (metis append_take_drop_id)
  then show False using ok(1-3) s(2) by simp
qed

lemma from_star_next:
  assumes ok: "loop_ok is_star p n i j star retry" and "from_star same is_star p n star retry" "i < length p" "is_star (p ! i)"
  shows "skips same is_star (drop (i + 1) p) (drop j n)"
proof -
  obtain s where s: "star = Some s" "retry < length n" "skips same is_star (drop (s + 1) p) (drop (retry + 1) n)"
    using assms(2) by (auto simp: from_star_def split: option.splits)
  let ?a = "take (i - (s + 1)) (drop (s + 1) p)"
  have seg: "s < i" "retry \<le> j" "i - (s + 1) = j - retry" "list_all (\<lambda>c. \<not> is_star c) ?a"
    using ok s(1) by (auto simp: loop_ok_def)
  obtain k where k: "wild same is_star (drop (s + 1) p) (drop k (drop (retry + 1) n))"
    using s(3) by (auto simp: skips_def)
  have "drop (s + 1) p = ?a @ drop i p"
    using seg(1) by (metis append_take_drop_id drop_drop add.commute le_add_diff_inverse2 Suc_eq_plus1 Suc_leI)
  then have "wild same is_star (drop i p) (drop (length ?a) (drop k (drop (retry + 1) n)))"
    using wild_segment [OF seg(4)] k by metis
  moreover have "drop i p = p ! i # drop (i + 1) p" using assms(3) by (simp add: Cons_nth_drop_Suc)
  ultimately have "skips same is_star (drop (i + 1) p) (drop (length ?a) (drop k (drop (retry + 1) n)))"
    using wild_star [of is_star "p ! i" same, OF assms(4)] by metis
  moreover have "length ?a = j - retry" using seg(1,3) assms(3) by simp
  ultimately have "skips same is_star (drop (i + 1) p) (drop (k + 1) (drop j n))"
    using seg(2) by (simp add: drop_drop add.commute add.left_commute)
  then show ?thesis by (rule skips_suffix)
qed

lemma list_all_segment:
  assumes "s < i" "i < length p" "list_all Q (take (i - (s + 1)) (drop (s + 1) p))" "Q (p ! i)"
  shows "list_all Q (take (i - s) (drop (s + 1) p))"
proof -
  have "i - s = Suc (i - (s + 1))" using assms(1) by simp
  moreover have "take (Suc (i - (s + 1))) (drop (s + 1) p) = take (i - (s + 1)) (drop (s + 1) p) @ [p ! i]"
    using assms(1,2) by (subst take_Suc_conv_app_nth) simp_all
  ultimately show ?thesis using assms(3,4) by simp
qed

lemma loop_ok_same:
  assumes "loop_ok is_star p n i j star retry" "i < length p" "j < length n" "\<not> is_star (p ! i)"
  shows "loop_ok is_star p n (i + 1) (j + 1) star retry"
proof (cases star)
  case (Some s)
  then have "s < i" "retry \<le> j" "i - (s + 1) = j - retry"
    "list_all (\<lambda>c. \<not> is_star c) (take (i - (s + 1)) (drop (s + 1) p))"
    using assms(1) by (auto simp: loop_ok_def)
  then show ?thesis
    using assms(2-) Some list_all_segment [of s i p "\<lambda>c. \<not> is_star c"] by (simp add: loop_ok_def)
qed (use assms in \<open>simp add: loop_ok_def\<close>)

lemma loop_decides:
  assumes lit: "\<And>c x. c \<in> set p \<Longrightarrow> x \<in> set n \<Longrightarrow> is_star c \<Longrightarrow> \<not> same c x"
  shows "loop_ok is_star p n i j star retry \<Longrightarrow>
    wildcard_loop same is_star p n i j star retry =
      Some (wild same is_star (drop i p) (drop j n) \<or> from_star same is_star p n star retry)"
proof (induction "(length p - (case star of None \<Rightarrow> 0 | Some s \<Rightarrow> s + 1), length n - retry, length n - j)"
    arbitrary: i j star retry rule: wf_induct_rule [OF wf_lex_prod [OF wf_less_than wf_lex_prod [OF wf_less_than wf_less_than]]])
  case 1
  note ok = 1(2)
  have IH: "wildcard_loop same is_star p n i' j' star' retry' =
      Some (wild same is_star (drop i' p) (drop j' n) \<or> from_star same is_star p n star' retry')"
    if "((length p - (case star' of None \<Rightarrow> 0 | Some s \<Rightarrow> s + 1), length n - retry', length n - j'),
        (length p - (case star of None \<Rightarrow> 0 | Some s \<Rightarrow> s + 1), length n - retry, length n - j))
        \<in> less_than <*lex*> less_than <*lex*> less_than" "loop_ok is_star p n i' j' star' retry'" for i' j' star' retry'
    using 1(1) [OF that] .
  show ?case
  proof (cases "j < length n")
    case False
    then have "j = length n" "i \<le> length p" using ok by (auto simp: loop_ok_def)
    then show ?thesis
      using from_star_end [of is_star p n i star retry same] ok
      by (simp add: wildcard_loop.simps [of same is_star p n i] stars_left wild_stars)
  next
    case j: True
    have n: "drop j n = n ! j # drop (j + 1) n" using j by (simp add: Cons_nth_drop_Suc)
    consider (same) "i < length p" "same (p ! i) (n ! j)" | (star) "i < length p" "\<not> same (p ! i) (n ! j)" "is_star (p ! i)"
      | (retry) "i < length p \<Longrightarrow> \<not> same (p ! i) (n ! j) \<and> \<not> is_star (p ! i)" by blast
    then show ?thesis
    proof cases
      case same
      have p: "drop i p = p ! i # drop (i + 1) p" using same(1) by (simp add: Cons_nth_drop_Suc)
      have lit': "\<not> is_star (p ! i)" using lit same j nth_mem by blast
      have "loop_ok is_star p n (i + 1) (j + 1) star retry"
        using loop_ok_same [OF ok same(1) j lit'] .
      from IH [OF _ this] show ?thesis
        using same j lit' by (simp add: wildcard_loop.simps [of same is_star p n i] n p)
    next
      case star
      have p: "drop i p = p ! i # drop (i + 1) p" using star(1) by (simp add: Cons_nth_drop_Suc)
      have ok': "loop_ok is_star p n (i + 1) j (Some i) j" using ok star(1) j by (simp add: loop_ok_def)
      have "wildcard_loop same is_star p n (i + 1) j (Some i) j =
          Some (wild same is_star (drop (i + 1) p) (drop j n) \<or> from_star same is_star p n (Some i) j)"
        by (rule IH [OF _ ok']) (use ok star(1) in \<open>auto simp: loop_ok_def split: option.splits\<close>)
      moreover have "(wild same is_star (drop (i + 1) p) (drop j n) \<or> from_star same is_star p n (Some i) j)
          \<longleftrightarrow> skips same is_star (drop (i + 1) p) (drop j n)"
        using j by (simp add: from_star_def n skips_Cons)
      moreover have "wild same is_star (drop i p) (drop j n) \<longleftrightarrow> skips same is_star (drop (i + 1) p) (drop j n)"
        unfolding p by (rule wild_star [of is_star "p ! i" same, OF star(3)])
      moreover have "skips same is_star (drop (i + 1) p) (drop j n)" if "from_star same is_star p n star retry"
        using from_star_next [OF ok that star(1,3)] .
      ultimately show ?thesis
        using star j by (auto simp: wildcard_loop.simps [of same is_star p n i])
    next
      case retry
      have no: "\<not> wild same is_star (drop i p) (drop j n)"
      proof (cases "i < length p")
        case True
        then show ?thesis using retry by (simp add: n Cons_nth_drop_Suc [OF True, symmetric])
      qed (simp add: n)
      show ?thesis
      proof (cases star)
        case None
        then show ?thesis using retry no j by (auto simp: wildcard_loop.simps [of same is_star p n i] from_star_def)
      next
        case (Some s)
        have lt: "retry < length n" "s < length p" using ok Some j by (auto simp: loop_ok_def)
        have "loop_ok is_star p n (s + 1) (retry + 1) star (retry + 1)"
          using ok Some j by (auto simp: loop_ok_def)
        from IH [OF _ this] have "wildcard_loop same is_star p n (s + 1) (retry + 1) star (retry + 1) =
            Some (wild same is_star (drop (s + 1) p) (drop (retry + 1) n) \<or> from_star same is_star p n star (retry + 1))"
          using lt Some diff_less_mono2 [of retry "retry + 1" "length n"] by simp
        moreover have "(wild same is_star (drop (s + 1) p) (drop (retry + 1) n) \<or> from_star same is_star p n star (retry + 1))
            \<longleftrightarrow> skips same is_star (drop (s + 1) p) (drop (retry + 1) n)"
        proof (cases "retry + 1 < length n")
          case True
          have "skips same is_star (drop (s + 1) p) (drop (retry + 1) n) \<longleftrightarrow>
              wild same is_star (drop (s + 1) p) (drop (retry + 1) n) \<or> skips same is_star (drop (s + 1) p) (drop (Suc (retry + 1)) n)"
            using skips_Cons [of same is_star "drop (s + 1) p" "n ! (retry + 1)" "drop (Suc (retry + 1)) n"]
            unfolding Cons_nth_drop_Suc [OF True] .
          then show ?thesis using Some True by (simp add: from_star_def)
        qed (use Some in \<open>simp add: from_star_def\<close>)
        ultimately show ?thesis
          using retry no j Some lt by (auto simp: wildcard_loop.simps [of same is_star p n i] from_star_def)
      qed
    qed
  qed
qed

lemma wildcard_loop_start:
  assumes "\<And>c x. c \<in> set p \<Longrightarrow> x \<in> set n \<Longrightarrow> is_star c \<Longrightarrow> \<not> same c x"
  shows "wildcard_loop same is_star p n 0 0 None 0 = Some (wild same is_star p n)"
  using loop_decides [of p n is_star same 0 0 None 0] assms by (simp add: loop_ok_def from_star_def)

lemma ascii_lower_star: "ascii_lower CHR ''*'' = ascii_lower x \<longleftrightarrow> x = CHR ''*''"
proof -
  have "ascii_lower CHR ''*'' = CHR ''*''" by (simp add: ascii_lower_def)
  moreover have "x = CHR ''*''" if "ascii_lower x = CHR ''*''"
  proof (cases "65 \<le> (of_char x :: nat) \<and> (of_char x :: nat) \<le> 90")
    case True
    then have "ascii_lower x = char_of (of_char x + 32 :: nat)" by (simp add: ascii_lower_def)
    then have "(of_char (ascii_lower x) :: nat) = of_char x + 32" using True by simp
    then show ?thesis using that True by simp
  qed (use that in \<open>auto simp: ascii_lower_def Let_def split: if_splits\<close>)
  ultimately show ?thesis by metis
qed

text \<open>
  C34. The two wildcard matchers end on every input and decide what the pattern means, star standing for any
  sequence and question mark for any character, compared byte-wise ignoring ASCII case or by code point: the
  one remembered star and retry position lose no match. A name with a star in it is excluded, as the loop
  compares it literally with a star of the pattern first.
\<close>

theorem wildcards_decide:
  assumes "CHR ''*'' \<notin> set n" "42 \<notin> set m"
  shows "ascii_wildcard p n =
      Some (wild (\<lambda>c x. c = CHR ''?'' \<or> ascii_lower c = ascii_lower x) (\<lambda>c. c = CHR ''*'') p n)
    \<and> unicode_wildcard q m = Some (wild (\<lambda>c x. c = 63 \<or> c = x) (\<lambda>c. c = 42) q m)"
proof
  show "ascii_wildcard p n = Some (wild (\<lambda>c x. c = CHR ''?'' \<or> ascii_lower c = ascii_lower x) (\<lambda>c. c = CHR ''*'') p n)"
    unfolding ascii_wildcard_def by (rule wildcard_loop_start) (use assms(1) in \<open>auto simp: ascii_lower_star\<close>)
  show "unicode_wildcard q m = Some (wild (\<lambda>c x. c = 63 \<or> c = x) (\<lambda>c. c = 42) q m)"
    unfolding unicode_wildcard_def by (rule wildcard_loop_start) (use assms(2) in auto)
qed

lemma wildcards_decide_witness:
  "ascii_wildcard ''*.B?*'' ''a.b.Bin'' = Some True \<and> unicode_wildcard [42, 233] [97, 233, 98] = Some False"
  using wildcards_decide [of "''a.b.Bin''" "[97, 233, 98]" "''*.B?*''" "[42, 233]"] by (simp add: ascii_lower_def)

text \<open>A star in a name is taken literally, so the pattern that matches everything misses it.\<close>

lemma star_misses_star: "ascii_wildcard ''*'' ''*a'' = Some False"
  by (simp add: ascii_wildcard_def wildcard_loop.simps)

end
