(* ===== verification/Decimal.thy ===== *)
theory Decimal
  imports Wb_Text
begin

text \<open>
  Decimal numbers as text: what \<open>Display\<close> prints for the integer types, \<open>csv_integer\<close> of
  \<open>WinBlaze.Index/src/export.rs\<close>, and what \<open>str::parse\<close> accepts for them.
\<close>

section \<open>Printing\<close>

fun decimal :: "nat \<Rightarrow> string" where
  "decimal n = (if n < 10 then [char_of (48 + n)] else decimal (n div 10) @ [char_of (48 + n mod 10)])"

declare decimal.simps [simp del]

definition decimal_u64 :: "u64 \<Rightarrow> string" where
  "decimal_u64 w = decimal (unat w)"

definition decimal_i64 :: "i64 \<Rightarrow> string" where
  "decimal_i64 w = (if sint w < 0 then CHR ''-'' # decimal (nat (- sint w)) else decimal (nat (sint w)))"

text \<open>The loop of \<open>csv_integer\<close> fills a buffer of twenty digits from its end.\<close>

function csv_digits :: "nat \<Rightarrow> string \<Rightarrow> string" where
  "csv_digits v digits =
    (let digits = char_of (48 + v mod 10) # digits; v = v div 10 in if v = 0 then digits else csv_digits v digits)"
  by pat_completeness auto
termination by (relation "measure fst") auto

declare csv_digits.simps [simp del]

definition csv_integer :: "string \<Rightarrow> u64 \<Rightarrow> string" where
  "csv_integer row v = row @ csv_digits (unat v) []"

section \<open>Parsing\<close>

definition is_digit :: "char \<Rightarrow> bool" where
  "is_digit c \<longleftrightarrow> 48 \<le> (of_char c :: nat) \<and> (of_char c :: nat) \<le> 57"

fun digits_value :: "nat \<Rightarrow> string \<Rightarrow> nat" where
  "digits_value v [] = v"
| "digits_value v (c # s) = digits_value (10 * v + (of_char c - 48)) s"

text \<open>\<open>None\<close> is the \<open>ParseIntError\<close>: no digits, another character, or a value above \<open>maximum\<close>.\<close>

definition parse_digits :: "string \<Rightarrow> nat option" where
  "parse_digits s = (if s \<noteq> [] \<and> list_all is_digit s then Some (digits_value 0 s) else None)"

definition parse_unsigned :: "nat \<Rightarrow> string \<Rightarrow> nat option" where
  "parse_unsigned maximum s =
    Option.bind (parse_digits (case s of c # t \<Rightarrow> if c = CHR ''+'' then t else s | [] \<Rightarrow> s))
      (\<lambda>v. if v \<le> maximum then Some v else None)"

definition parse_u64 :: "string \<Rightarrow> u64 option" where
  "parse_u64 s = map_option word_of_nat (parse_unsigned (2 ^ 64 - 1) s)"

definition parse_u32 :: "string \<Rightarrow> u32 option" where
  "parse_u32 s = map_option word_of_nat (parse_unsigned (2 ^ 32 - 1) s)"

definition parse_i64 :: "string \<Rightarrow> i64 option" where
  "parse_i64 s = (case s of
     c # t \<Rightarrow>
       if c = CHR ''-'' then
         Option.bind (parse_digits t) (\<lambda>v. if v \<le> 2 ^ 63 then Some (word_of_int (- int v)) else None)
       else map_option word_of_nat (parse_unsigned (2 ^ 63 - 1) s)
   | [] \<Rightarrow> None)"

section \<open>Printing and parsing\<close>

lemma csv_digits_decimal: "csv_digits v ds = decimal v @ ds"
proof (induction v arbitrary: ds rule: decimal.induct)
  case (1 v)
  show ?case
  proof (cases "v < 10")
    case False
    then have "v div 10 \<noteq> 0" by simp
    with False 1 show ?thesis
      by (simp add: csv_digits.simps [of v] decimal.simps [of v] Let_def)
  qed (simp add: csv_digits.simps [of v] decimal.simps [of v] Let_def)
qed

lemma csv_integer_decimal: "csv_integer row v = row @ decimal_u64 v"
  by (simp add: csv_integer_def csv_digits_decimal decimal_u64_def)

lemma digit_char: "k < 10 \<Longrightarrow> is_digit (char_of (48 + k)) \<and> (of_char (char_of (48 + k) :: char) :: nat) = 48 + k"
  by (simp add: is_digit_def)

lemma decimal_digits: "list_all is_digit (decimal n) \<and> decimal n \<noteq> []"
proof (induction n rule: decimal.induct)
  case (1 n)
  show ?case
  proof (cases "n < 10")
    case True
    then show ?thesis using digit_char [of n] by (simp add: decimal.simps [of n])
  next
    case False
    then show ?thesis using 1 digit_char [of "n mod 10"] by (simp add: decimal.simps [of n])
  qed
qed

lemma digits_value_append: "digits_value v (s @ t) = digits_value (digits_value v s) t"
  by (induction s arbitrary: v) simp_all

lemma digits_value_decimal: "digits_value 0 (decimal n) = n"
proof (induction n rule: decimal.induct)
  case (1 n)
  show ?case
  proof (cases "n < 10")
    case True
    then show ?thesis using digit_char [of n] by (simp add: decimal.simps [of n])
  next
    case False
    then show ?thesis
      using 1 digit_char [of "n mod 10"] by (simp add: decimal.simps [of n] digits_value_append)
  qed
qed

lemma parse_digits_decimal: "parse_digits (decimal n) = Some n"
  using decimal_digits [of n] by (simp add: parse_digits_def digits_value_decimal)

lemma decimal_head: obtains c s where "decimal n = c # s" "is_digit c"
  using decimal_digits [of n] by (cases "decimal n") auto

lemma parse_unsigned_decimal: "n \<le> maximum \<Longrightarrow> parse_unsigned maximum (decimal n) = Some n"
proof -
  assume "n \<le> maximum"
  moreover obtain c s where "decimal n = c # s" "is_digit c" by (rule decimal_head)
  moreover from this have "c \<noteq> CHR ''+''" by (auto simp: is_digit_def)
  ultimately show ?thesis using parse_digits_decimal [of n] by (simp add: parse_unsigned_def)
qed

lemma parse_decimal_u64 [wb_codec]: "parse_u64 (decimal_u64 w) = Some w"
proof -
  have "unat w \<le> 2 ^ 64 - 1" using unat_le_max [of w] by simp
  then show ?thesis by (simp add: parse_u64_def decimal_u64_def parse_unsigned_decimal)
qed

lemma parse_decimal_i64 [wb_codec]: "parse_i64 (decimal_i64 w) = Some w"
proof (cases "sint w < 0")
  case True
  have "- (2 ^ 63) \<le> sint w" using sint_ge [of w] by simp
  then have "nat (- sint w) \<le> 2 ^ 63" by simp
  then show ?thesis using True by (simp add: parse_i64_def decimal_i64_def parse_digits_decimal)
next
  case False
  have "sint w < 2 ^ 63" using sint_lt [of w] by simp
  then have le: "nat (sint w) \<le> 2 ^ 63 - 1" using False by simp
  obtain c s where d: "decimal (nat (sint w)) = c # s" "is_digit c" by (rule decimal_head)
  then have "c \<noteq> CHR ''-''" by (auto simp: is_digit_def)
  moreover have "word_of_nat (nat (sint w)) = w" using False by (simp add: of_nat_nat)
  ultimately show ?thesis using False d parse_unsigned_decimal [OF le] by (simp add: parse_i64_def decimal_i64_def)
qed

end
