(* ===== verification/Catalog_Export.thy ===== *)
theory Catalog_Export
  imports Wildcards Decimal Tree_Paths
begin

text \<open>
  The exports of \<open>WinBlaze.Index/src/export.rs\<close>: CSV, TSV and JSON of a display tree, whole or filtered.
  An exporter is the list of its \<open>write_all\<close> calls in order; a writer that fails leaves the calls before
  the failure done. Line breaks are the bytes 13 and 10.
\<close>

datatype io_failure = InvalidInput string | InvalidData string | OtherFailure | Panics

abbreviation crlf :: string where "crlf \<equiv> [CHR 0x0D, CHR 0x0A]"

section \<open>Quoting\<close>

text \<open>\<open>split\<close> at the quotes, joined by doubled quotes.\<close>

fun split_at :: "char \<Rightarrow> string \<Rightarrow> string list" where
  "split_at c [] = [[]]"
| "split_at c (x # s) =
    (if x = c then [] # split_at c s
     else case split_at c s of part # parts \<Rightarrow> (x # part) # parts | [] \<Rightarrow> [[x]])"

definition escaped :: "string \<Rightarrow> string" where
  "escaped text = (case split_at dquote text of
     [] \<Rightarrow> [] | first # parts \<Rightarrow> first @ concat (map (\<lambda>part. [dquote, dquote] @ part) parts))"

definition quoted :: "string \<Rightarrow> string" where
  "quoted text = [dquote] @ escaped text @ [dquote]"

definition export_file_path :: "tree_index \<Rightarrow> file_record \<Rightarrow> string" where
  "export_file_path t file =
    (if f_full_path file \<noteq> [] then quoted (f_full_path file)
     else [dquote]
       @ (case option_filter (\<lambda>parent. parent \<noteq> []) (directory_full_path t (f_parent_directory_id file)) of
            Some parent \<Rightarrow> escaped parent @ (if ends_with_char parent backslash then [] else [backslash])
          | None \<Rightarrow> [])
       @ escaped (f_name file) @ [dquote])"

section \<open>Rows\<close>

definition unix_seconds :: "i64 \<Rightarrow> i64" where
  "unix_seconds ticks = word_of_int (sint ticks div 10000000 - 11644473600)"

definition csv_timestamp :: "string \<Rightarrow> i64 option \<Rightarrow> string" where
  "csv_timestamp row value =
    (case value of
       Some value \<Rightarrow>
         let value = unix_seconds value
         in csv_integer (row @ (if sint value < 0 then ''-'' else [])) (word_of_int (abs (sint value)))
     | None \<Rightarrow> row) @ crlf"

text \<open>The root first, then the other directories.\<close>

definition export_directories :: "tree_index \<Rightarrow> directory_record list" where
  "export_directories t =
    (let root = map_option fst (tree_root t); root_id = map_option d_id root
     in (case root of Some d \<Rightarrow> [d] | None \<Rightarrow> []) @ filter (\<lambda>d. Some (d_id d) \<noteq> root_id) (tr_directories t))"

definition rollup_or_default :: "tree_index \<Rightarrow> u64 \<Rightarrow> dir_rollup" where
  "rollup_or_default t i = (case rollup_for t i of Some r \<Rightarrow> r | None \<Rightarrow> rollup_default)"

definition csv_directory_row :: "tree_index \<Rightarrow> directory_record \<Rightarrow> string" where
  "csv_directory_row t d =
    (let rollup = rollup_or_default t (d_id d);
         row = quoted (d_full_path d) @ '',Directory,'';
         row = foldl (\<lambda>row number. csv_integer row number @ '','') row
           [ru_logical_bytes rollup, ru_physical_bytes rollup, ru_file_count rollup,
            sat_sub (ru_item_count rollup) (ru_file_count rollup)]
     in csv_timestamp row (ru_modified_utc_max rollup))"

text \<open>The quoted prefix of the last parent is kept between files.\<close>

definition parent_prefix :: "tree_index \<Rightarrow> u64 \<Rightarrow> string" where
  "parent_prefix t parent_id =
    [dquote] @ (case option_filter (\<lambda>parent. parent \<noteq> []) (directory_full_path t parent_id) of
        Some parent \<Rightarrow> escaped parent @ (if ends_with_char parent backslash then [] else [backslash])
      | None \<Rightarrow> [])"

definition csv_file_row :: "tree_index \<Rightarrow> (u64 option \<times> string) \<Rightarrow> file_record \<Rightarrow> (u64 option \<times> string) \<times> string" where
  "csv_file_row t cache file =
    (let (cache, row) =
       (if f_full_path file \<noteq> [] then (cache, quoted (f_full_path file))
        else
          let cache = (if fst cache \<noteq> Some (f_parent_directory_id file)
                then (Some (f_parent_directory_id file), parent_prefix t (f_parent_directory_id file)) else cache)
          in (cache, snd cache @ escaped (f_name file) @ [dquote]));
       row = csv_integer (row @ '',File,'') (f_size_bytes file) @ '','';
       row = csv_integer row (f_allocation_bytes file) @ '',0,0,''
     in (cache, csv_timestamp row (f_modified_utc file)))"

fun csv_file_rows :: "tree_index \<Rightarrow> (u64 option \<times> string) \<Rightarrow> file_record list \<Rightarrow> string list" where
  "csv_file_rows t cache [] = []"
| "csv_file_rows t cache (file # files) =
    (let (cache, row) = csv_file_row t cache file in row # csv_file_rows t cache files)"

definition csv_header :: string where
  "csv_header = ''Path,Kind,LogicalBytes,AllocatedBytes,Files,Directories,ModifiedUnixSeconds'' @ crlf"

definition write_csv_selected :: "tree_index \<Rightarrow> (file_record \<Rightarrow> bool) option \<Rightarrow> string list" where
  "write_csv_selected t selected =
    csv_header
    # map (csv_directory_row t) (if selected = None then export_directories t else [])
    @ csv_file_rows t (None, []) (case selected of None \<Rightarrow> tr_files t | Some matches \<Rightarrow> filter matches (tr_files t))"

definition write_csv :: "tree_index \<Rightarrow> string list" where
  "write_csv t = write_csv_selected t None"

section \<open>Tab separators\<close>

text \<open>One \<open>write\<close> of the \<open>TabWriter\<close>: the state \<open>quoted\<close> and the bytes passed on.\<close>

fun tab_write :: "bool \<Rightarrow> string \<Rightarrow> bool \<times> string" where
  "tab_write q [] = (q, [])"
| "tab_write q (b # bytes) =
    (let q' = (if b = dquote then \<not> q else q);
         out = (if b \<noteq> dquote \<and> b = CHR '','' \<and> \<not> q then CHR 0x09 else b);
         (q'', rest) = tab_write q' bytes
     in (q'', out # rest))"

fun tab_writes :: "bool \<Rightarrow> string list \<Rightarrow> string list" where
  "tab_writes q [] = []"
| "tab_writes q (c # cs) = (let (q', out) = tab_write q c in out # tab_writes q' cs)"

definition write_tsv :: "tree_index \<Rightarrow> string list" where
  "write_tsv t = tab_writes False (write_csv t)"

section \<open>Selections\<close>

text \<open>The characters of a string that are white space or control characters, on its UTF-8 bytes.\<close>

fun has_blank :: "string \<Rightarrow> bool" where
  "has_blank [] = False"
| "has_blank (c # s) = (ws_lead (c # s) > 0 \<or> has_blank s)"

fun has_control :: "string \<Rightarrow> bool" where
  "has_control [] = False"
| "has_control (a # s) =
    ((of_char a :: nat) < 32 \<or> (of_char a :: nat) = 127
     \<or> (case s of b # _ \<Rightarrow> (of_char a :: nat) = 0xC2 \<and> 0x80 \<le> (of_char b :: nat) \<and> (of_char b :: nat) \<le> 0x9F | [] \<Rightarrow> False)
     \<or> has_control s)"

definition strip_prefix :: "string \<Rightarrow> string \<Rightarrow> string option" where
  "strip_prefix p s = (if take (length p) s = p then Some (drop (length p) s) else None)"

definition normalize_export_extension :: "string \<Rightarrow> io_failure + string" where
  "normalize_export_extension extension =
    (let extension = (case strip_prefix ''*.'' (trim extension) of
           Some e \<Rightarrow> e
         | None \<Rightarrow> (case strip_prefix ''.'' (trim extension) of Some e \<Rightarrow> e | None \<Rightarrow> trim extension))
     in if extension = [] \<or> has_control extension \<or> has_blank extension
           \<or> list_ex (\<lambda>c. c \<in> set (''*?;./:<>|'' @ [backslash, dquote])) extension
        then Inl (InvalidInput ''Specify one extension, such as bin, .bin, or *.bin'')
        else Inr extension)"

text \<open>\<open>rsplit_once\<close>: the parts before and after the last occurrence.\<close>

definition rsplit_once :: "char \<Rightarrow> string \<Rightarrow> (string \<times> string) option" where
  "rsplit_once c s =
    (let tail = takeWhile (\<lambda>x. x \<noteq> c) (rev s)
     in if length tail < length s then Some (take (length s - length tail - 1) s, rev tail) else None)"

definition write_csv_extension :: "tree_index \<Rightarrow> string \<Rightarrow> io_failure + string list" where
  "write_csv_extension t extension =
    rbind (normalize_export_extension extension) (\<lambda>extension.
      Inr (write_csv_selected t (Some (\<lambda>file.
        case rsplit_once (CHR ''.'') (f_name file) of
          Some (_, actual) \<Rightarrow> eq_ignore_ascii_case actual extension | None \<Rightarrow> False))))"

record export_filter =
  ef_patterns :: "string list"
  ef_min_bytes :: "u64 option"
  ef_max_bytes :: "u64 option"
  ef_modified_after_utc :: "i64 option"
  ef_modified_before_utc :: "i64 option"

definition export_filter_validate :: "export_filter \<Rightarrow> io_failure + unit" where
  "export_filter_validate flt =
    (if (case (ef_min_bytes flt, ef_max_bytes flt) of (Some lo, Some hi) \<Rightarrow> lo > hi | _ \<Rightarrow> False)
        \<or> (case (ef_modified_after_utc flt, ef_modified_before_utc flt) of (Some lo, Some hi) \<Rightarrow> sint lo > sint hi | _ \<Rightarrow> False)
        \<or> list_ex (\<lambda>p. p = [] \<or> has_control p \<or> list_ex (\<lambda>c. c \<in> set (''/:;'' @ [backslash])) p) (ef_patterns flt)
     then Inl (InvalidInput ''Invalid filename patterns or reversed bounds'') else Inr ())"

text \<open>The code points of a UTF-8 text.\<close>

fun code_points :: "string \<Rightarrow> nat list" where
  "code_points [] = []"
| "code_points (a # s) =
    (let n = of_char a :: nat; low = (\<lambda>c. of_char c mod 64 :: nat) in
     if n < 0x80 then n # code_points s
     else case s of
       b # s1 \<Rightarrow>
         if n < 0xE0 then ((n mod 32) * 64 + low b) # code_points s1
         else (case s1 of
           c # s2 \<Rightarrow>
             if n < 0xF0 then ((n mod 16) * 4096 + low b * 64 + low c) # code_points s2
             else (case s2 of
               d # s3 \<Rightarrow> ((n mod 8) * 262144 + low b * 4096 + low c * 64 + low d) # code_points s3
             | [] \<Rightarrow> [])
         | [] \<Rightarrow> [])
     | [] \<Rightarrow> [])"

definition export_filter_matches :: "(string \<Rightarrow> string) \<Rightarrow> export_filter \<Rightarrow> nat list list \<Rightarrow> file_record \<Rightarrow> bool" where
  "export_filter_matches lowercase flt compiled file \<longleftrightarrow>
    (case ef_min_bytes flt of None \<Rightarrow> True | Some lo \<Rightarrow> f_size_bytes file \<ge> lo)
    \<and> (case ef_max_bytes flt of None \<Rightarrow> True | Some hi \<Rightarrow> f_size_bytes file \<le> hi)
    \<and> (case ef_modified_after_utc flt of None \<Rightarrow> True
       | Some lo \<Rightarrow> (case f_modified_utc file of None \<Rightarrow> False | Some time \<Rightarrow> sint (unix_seconds time) \<ge> sint lo))
    \<and> (case ef_modified_before_utc flt of None \<Rightarrow> True
       | Some hi \<Rightarrow> (case f_modified_utc file of None \<Rightarrow> False | Some time \<Rightarrow> sint (unix_seconds time) \<le> sint hi))
    \<and> (ef_patterns flt = []
       \<or> (if is_ascii (f_name file) \<and> list_all is_ascii (ef_patterns flt)
          then list_ex (\<lambda>p. ascii_wildcard p (f_name file) = Some True) (ef_patterns flt)
          else let name = code_points (lowercase (f_name file))
               in list_ex (\<lambda>p. unicode_wildcard p name = Some True) compiled))"

definition write_csv_filtered :: "(string \<Rightarrow> string) \<Rightarrow> tree_index \<Rightarrow> export_filter \<Rightarrow> io_failure + string list" where
  "write_csv_filtered lowercase t flt =
    rbind (export_filter_validate flt) (\<lambda>_.
      let compiled = (if tr_files t = [] then [] else map (\<lambda>p. code_points (lowercase p)) (ef_patterns flt))
      in Inr (write_csv_selected t (Some (export_filter_matches lowercase flt compiled))))"

section \<open>JSON\<close>

definition hex_digit :: "nat \<Rightarrow> char" where
  "hex_digit k = char_of (if k < 10 then 48 + k else 87 + k)"

text \<open>The bytes between two escapes are written as they stand.\<close>

definition json_escape :: "char \<Rightarrow> string" where
  "json_escape c =
    (let byte = of_char c :: nat in
     if byte = 34 then [backslash, dquote]
     else if byte = 92 then [backslash, backslash]
     else if byte = 10 then backslash # ''n''
     else if byte = 13 then backslash # ''r''
     else if byte = 9 then backslash # ''t''
     else if byte < 32 then backslash # ''u00'' @ [hex_digit (byte div 16), hex_digit (byte mod 16)]
     else [c])"

definition json_escaped :: "string \<Rightarrow> string" where
  "json_escaped text = concat (map json_escape text)"

definition json_string :: "string \<Rightarrow> string" where
  "json_string text = [dquote] @ json_escaped text @ [dquote]"

definition json_key :: "string \<Rightarrow> string" where
  "json_key name = [dquote] @ name @ [dquote] @ '':''"

definition json_time :: "i64 option \<Rightarrow> string" where
  "json_time time = (case time of Some time \<Rightarrow> decimal_i64 (unix_seconds time) | None \<Rightarrow> ''null'')"

definition trim_end_matches :: "char \<Rightarrow> string \<Rightarrow> string" where
  "trim_end_matches c s = rev (dropWhile (\<lambda>x. x = c) (rev s))"

definition json_counts :: "string \<Rightarrow> u64 \<Rightarrow> u64 \<Rightarrow> string \<Rightarrow> string \<Rightarrow> string" where
  "json_counts kind logical allocated files directories =
    '','' @ json_key ''Kind'' @ [dquote] @ kind @ [dquote] @ '','' @ json_key ''LogicalBytes'' @ decimal_u64 logical
    @ '','' @ json_key ''AllocatedBytes'' @ decimal_u64 allocated @ '','' @ json_key ''Files'' @ files
    @ '','' @ json_key ''Directories'' @ directories @ '','' @ json_key ''ModifiedUnixSeconds''"

definition json_directory :: "tree_index \<Rightarrow> directory_record \<Rightarrow> string" where
  "json_directory t d =
    (let totals = rollup_or_default t (d_id d)
     in ''{'' @ json_key ''Path'' @ json_string (d_full_path d)
        @ json_counts ''Directory'' (ru_logical_bytes totals) (ru_physical_bytes totals)
            (decimal_u64 (ru_file_count totals)) (decimal_u64 (sat_sub (ru_item_count totals) (ru_file_count totals)))
        @ json_time (ru_modified_utc_max totals) @ ''}'')"

definition json_file_path :: "tree_index \<Rightarrow> file_record \<Rightarrow> string" where
  "json_file_path t file =
    (if f_full_path file \<noteq> [] then json_string (f_full_path file)
     else [dquote]
       @ (case option_filter (\<lambda>p. p \<noteq> []) (directory_full_path t (f_parent_directory_id file)) of
            Some parent \<Rightarrow> json_escaped (trim_end_matches backslash parent) @ [backslash, backslash]
          | None \<Rightarrow> [])
       @ json_escaped (f_name file) @ [dquote])"

definition json_metadata :: "file_export_metadata option \<Rightarrow> string" where
  "json_metadata metadata = (case metadata of None \<Rightarrow> [] | Some m \<Rightarrow>
     concat (map (\<lambda>(name, value). case value of Some v \<Rightarrow> '','' @ json_key name @ json_string v | None \<Rightarrow> [])
       [(''Owner'', em_owner m), (''VolumeIdentity'', em_volume_identity m), (''FileIdentity'', em_file_identity m)])
     @ (case em_link_count m of Some n \<Rightarrow> '','' @ json_key ''LinkCount'' @ decimal (unat n) | None \<Rightarrow> []))"

definition json_file_head :: "tree_index \<Rightarrow> file_record \<Rightarrow> string" where
  "json_file_head t file =
    ''{'' @ json_key ''Path'' @ json_file_path t file
    @ json_counts ''File'' (f_size_bytes file) (f_allocation_bytes file) ''0'' ''0''
    @ json_time (f_modified_utc file)
    @ '','' @ json_key ''Attributes'' @ decimal (unat (f_attributes file))
    @ '','' @ json_key ''CreatedUnixSeconds'' @ json_time (f_created_utc file)
    @ '','' @ json_key ''AccessedUnixSeconds'' @ json_time (f_accessed_utc file)"

text \<open>A failing provider ends the export behind the fields of its file.\<close>

fun json_files ::
  "tree_index \<Rightarrow> (file_record \<Rightarrow> io_failure + file_export_metadata option) \<Rightarrow> bool \<Rightarrow> file_record list \<Rightarrow> string \<times> (io_failure + unit)" where
  "json_files t provider sep [] = ([], Inr ())"
| "json_files t provider sep (file # files) =
    (let head = (if sep then '','' else []) @ json_file_head t file
     in case provider file of
          Inl e \<Rightarrow> (head, Inl e)
        | Inr metadata \<Rightarrow>
            let (rest, result) = json_files t provider True files
            in (head @ json_metadata metadata @ ''}'' @ rest, result))"

text \<open>The entries, the comma before all but the first.\<close>

fun json_directories :: "tree_index \<Rightarrow> bool \<Rightarrow> directory_record list \<Rightarrow> string" where
  "json_directories t sep [] = []"
| "json_directories t sep (d # ds) =
    (if sep then '','' else []) @ json_directory t d @ json_directories t True ds"

definition write_json_with_metadata ::
  "tree_index \<Rightarrow> (file_record \<Rightarrow> io_failure + file_export_metadata option) \<Rightarrow> string \<times> (io_failure + unit)" where
  "write_json_with_metadata t provider =
    (let head = ''{'' @ json_key ''schema_version'' @ ''1,'' @ json_key ''entries'' @ ''['';
         directories = export_directories t;
         (files, result) = json_files t provider (directories \<noteq> []) (tr_files t)
     in case result of
          Inl e \<Rightarrow> (head @ json_directories t False directories @ files, Inl e)
        | Inr _ \<Rightarrow> (head @ json_directories t False directories @ files @ '']}'' @ [CHR 0x0A], Inr ()))"

definition write_json :: "tree_index \<Rightarrow> string \<times> (io_failure + unit)" where
  "write_json t = write_json_with_metadata t (\<lambda>file. Inr (file_export_metadata_of t (f_id file)))"

section \<open>CSV with metadata\<close>

definition detailed_header :: "string list" where
  "detailed_header = [''Path'', ''Kind'', ''LogicalBytes'', ''AllocatedBytes'', ''Files'', ''Directories'',
     ''ModifiedUnixSeconds'', ''Attributes'', ''CreatedUnixSeconds'', ''AccessedUnixSeconds'', ''Owner'',
     ''VolumeIdentity'', ''FileIdentity'', ''LinkCount'']"

definition csv_time :: "i64 option \<Rightarrow> string" where
  "csv_time time = (case time of Some time \<Rightarrow> decimal_i64 (unix_seconds time) | None \<Rightarrow> [])"

definition metadata_directory_row :: "tree_index \<Rightarrow> directory_record \<Rightarrow> string" where
  "metadata_directory_row t d =
    (let totals = rollup_or_default t (d_id d)
     in quoted (d_full_path d) @ '',Directory,'' @ decimal_u64 (ru_logical_bytes totals) @ '',''
        @ decimal_u64 (ru_physical_bytes totals) @ '','' @ decimal_u64 (ru_file_count totals) @ '',''
        @ decimal_u64 (sat_sub (ru_item_count totals) (ru_file_count totals)) @ '',''
        @ csv_time (ru_modified_utc_max totals) @ '',,,,,,,'' @ crlf)"

definition metadata_default :: file_export_metadata where
  "metadata_default = \<lparr>em_owner = None, em_volume_identity = None, em_file_identity = None, em_link_count = None\<rparr>"

definition metadata_file_head :: "tree_index \<Rightarrow> file_record \<Rightarrow> string" where
  "metadata_file_head t file =
    export_file_path t file @ '',File,'' @ decimal_u64 (f_size_bytes file) @ '','' @ decimal_u64 (f_allocation_bytes file)
    @ '',0,0,'' @ csv_time (f_modified_utc file) @ '','' @ decimal (unat (f_attributes file)) @ '',''
    @ csv_time (f_created_utc file) @ '','' @ csv_time (f_accessed_utc file)"

definition metadata_file_tail :: "file_export_metadata option \<Rightarrow> string" where
  "metadata_file_tail metadata =
    (let extras = (case metadata of Some m \<Rightarrow> m | None \<Rightarrow> metadata_default)
     in concat (map (\<lambda>value. '','' @ (case value of Some v \<Rightarrow> quoted v | None \<Rightarrow> []))
          [em_owner extras, em_volume_identity extras, em_file_identity extras])
        @ '','' @ (case em_link_count extras of Some n \<Rightarrow> decimal (unat n) | None \<Rightarrow> []) @ crlf)"

fun metadata_files ::
  "tree_index \<Rightarrow> (file_record \<Rightarrow> io_failure + file_export_metadata option) \<Rightarrow> file_record list \<Rightarrow> string \<times> (io_failure + unit)" where
  "metadata_files t provider [] = ([], Inr ())"
| "metadata_files t provider (file # files) =
    (case provider file of
       Inl e \<Rightarrow> (metadata_file_head t file, Inl e)
     | Inr metadata \<Rightarrow>
         let (rest, result) = metadata_files t provider files
         in (metadata_file_head t file @ metadata_file_tail metadata @ rest, result))"

fun joined :: "char \<Rightarrow> string list \<Rightarrow> string" where
  "joined d [] = []"
| "joined d [f] = f"
| "joined d (f # g # fs) = f @ [d] @ joined d (g # fs)"

definition write_csv_with_metadata ::
  "tree_index \<Rightarrow> (file_record \<Rightarrow> io_failure + file_export_metadata option) \<Rightarrow> string \<times> (io_failure + unit)" where
  "write_csv_with_metadata t provider =
    (let (files, result) = metadata_files t provider (tr_files t)
     in (joined (CHR '','') detailed_header @ crlf @ concat (map (metadata_directory_row t) (export_directories t)) @ files, result))"

end
