(* ===== verification/Import_Rows.thy ===== *)
theory Import_Rows
  imports Catalog_Export
begin

text \<open>
  The readers of \<open>WinBlaze.Index/src/import.rs\<close> up to rows of seven fields: the CSV row parser, dates
  and timestamps, and the WinDirStat and WizTree layouts.
\<close>

definition invalid :: "string \<Rightarrow> io_failure + 'a" where
  "invalid message = Inl (InvalidData message)"

definition is_descendant :: "(string \<Rightarrow> string) \<Rightarrow> string \<Rightarrow> string \<Rightarrow> bool" where
  "is_descendant lowercase path parent =
    (if is_ascii path \<and> is_ascii parent then
       length parent \<le> length path \<and> eq_ignore_ascii_case (take (length parent) path) parent
       \<and> length parent < length path \<and> path ! length parent = backslash
     else let prefix = lowercase parent @ [backslash]
          in take (length prefix) (lowercase path) = prefix)"

section \<open>CSV rows\<close>

text \<open>One iteration of the loop per character. The four marks are ASCII, so bytes stand for characters.\<close>

fun csv_rows_loop ::
  "char \<Rightarrow> string \<Rightarrow> string list list \<Rightarrow> string list \<Rightarrow> string \<Rightarrow> bool \<Rightarrow> bool \<Rightarrow> io_failure + string list list" where
  "csv_rows_loop d [] rows row field inside closed =
    (if inside then invalid ''Unclosed CSV quote''
     else Inr (if field \<noteq> [] \<or> row \<noteq> [] \<or> closed then rows @ [row @ [field]] else rows))"
| "csv_rows_loop d (ch # chars) rows row field inside closed =
    (if inside then
       if ch = dquote then
         (case chars of
            c # chars' \<Rightarrow>
              if c = dquote then csv_rows_loop d chars' rows row (field @ [dquote]) inside closed
              else csv_rows_loop d chars rows row field False True
          | [] \<Rightarrow> csv_rows_loop d chars rows row field False True)
       else csv_rows_loop d chars rows row (field @ [ch]) inside closed
     else if ch = dquote \<and> field = [] \<and> \<not> closed then csv_rows_loop d chars rows row field True closed
     else if ch = dquote then invalid ''Unexpected CSV quote''
     else if ch = d then csv_rows_loop d chars rows (row @ [field]) [] inside False
     else if ch = CHR 0x0A then
       (if list_ex (\<lambda>v. v \<noteq> []) (row @ [field])
        then csv_rows_loop d chars (rows @ [row @ [field]]) [] [] inside False
        else csv_rows_loop d chars rows [] [] inside False)
     else if ch = CHR 0x0D \<and> chars \<noteq> [] \<and> hd chars = CHR 0x0A
       then csv_rows_loop d chars rows row field inside closed
     else if closed then invalid ''Characters after closing CSV quote''
     else csv_rows_loop d chars rows row (field @ [ch]) inside closed)"

definition csv_rows :: "char \<Rightarrow> string \<Rightarrow> io_failure + string list list" where
  "csv_rows d input = csv_rows_loop d input [] [] [] False False"

section \<open>Dates and timestamps\<close>

text \<open>\<open>split\<close> at any of the characters, empty fields dropped.\<close>

fun split_any :: "(char \<Rightarrow> bool) \<Rightarrow> string \<Rightarrow> string list" where
  "split_any p [] = [[]]"
| "split_any p (x # s) =
    (if p x then [] # split_any p s
     else case split_any p s of part # parts \<Rightarrow> (x # part) # parts | [] \<Rightarrow> [[x]])"

fun parse_fields :: "nat \<Rightarrow> string list \<Rightarrow> io_failure + i64 list \<times> string list" where
  "parse_fields 0 parts = Inr ([], parts)"
| "parse_fields (Suc n) [] = invalid ''Invalid date''"
| "parse_fields (Suc n) (f # parts) = (case parse_i64 f of
     None \<Rightarrow> invalid ''Invalid date''
   | Some v \<Rightarrow> rbind (parse_fields n parts) (\<lambda>(vs, rest). Inr (v # vs, rest)))"

definition month_length :: "bool \<Rightarrow> int \<Rightarrow> int" where
  "month_length leap month =
    (if month = 2 then (if leap then 29 else 28) else if month \<in> {4, 6, 9, 11} then 30 else 31)"

definition is_leap :: "int \<Rightarrow> bool" where
  "is_leap year \<longleftrightarrow> year mod 4 = 0 \<and> (year mod 100 \<noteq> 0 \<or> year mod 400 = 0)"

text \<open>The day number since 1970-01-01, in the arithmetic of \<open>utc_date\<close>: years that start in March.\<close>

definition civil_days :: "int \<Rightarrow> int \<Rightarrow> int \<Rightarrow> int" where
  "civil_days year month day =
    (let y = year - (if month \<le> 2 then 1 else 0);
         era = y div 400;
         yoe = y - era * 400;
         mp = month + (if month > 2 then - 3 else 9);
         doy = (153 * mp + 2) div 5 + day - 1
     in era * 146097 + yoe * 365 + yoe div 4 - yoe div 100 + doy - 719468)"

text \<open>The fields of a text of twenty bytes are below \<open>2 ^ 63\<close>, so the arithmetic stays exact.\<close>

definition date_seconds :: "i64 list \<Rightarrow> io_failure + int" where
  "date_seconds numbers =
    (let year = sint (numbers ! 0); month = sint (numbers ! 1); day = sint (numbers ! 2);
         hour = sint (numbers ! 3); minute = sint (numbers ! 4); second = sint (numbers ! 5)
     in if \<not> (1 \<le> month \<and> month \<le> 12) \<or> \<not> (1 \<le> day \<and> day \<le> 31) \<or> \<not> (0 \<le> hour \<and> hour < 24)
          \<or> \<not> (0 \<le> minute \<and> minute < 60) \<or> \<not> (0 \<le> second \<and> second < 60)
        then invalid ''Invalid date''
        else if \<not> (1601 \<le> year \<and> year \<le> 9999) \<or> day > month_length (is_leap year) month
        then invalid ''Invalid calendar date''
        else Inr (civil_days year month day * 86400 + hour * 3600 + minute * 60 + second))"

definition utc_date :: "string \<Rightarrow> io_failure + int" where
  "utc_date text =
    rbind (parse_fields 6 (filter (\<lambda>s. s \<noteq> []) (split_any (\<lambda>c. c \<in> set ''-T:Z'') text))) (\<lambda>(numbers, rest).
      if length text \<noteq> 20 \<or> \<not> ends_with_char text (CHR ''Z'') \<or> rest \<noteq> [] then invalid ''Invalid date''
      else date_seconds numbers)"

definition unix_to_ticks :: "i64 \<Rightarrow> io_failure + i64" where
  "unix_to_ticks seconds =
    (let value = (sint seconds + 11644473600) * 10000000
     in if sint seconds + 11644473600 \<le> 2 ^ 63 - 1 \<and> - (2 ^ 63) \<le> value \<and> value \<le> 2 ^ 63 - 1 \<and> 0 \<le> value
        then Inr (word_of_int value) else invalid ''Timestamp out of Windows date range'')"

definition import_timestamp :: "string \<Rightarrow> bool \<Rightarrow> io_failure + i64" where
  "import_timestamp text allow_legacy_ticks =
    (case parse_i64 text of
       None \<Rightarrow> invalid ''Invalid timestamp''
     | Some value \<Rightarrow>
         if allow_legacy_ticks \<and> 253402300800 \<le> sint value \<and> sint value \<le> 2650467743999999999
         then Inr value else unix_to_ticks value)"

section \<open>WinDirStat and WizTree\<close>

definition is_hex :: "char \<Rightarrow> bool" where
  "is_hex c \<longleftrightarrow> is_digit c \<or> (let n = of_char c :: nat in (65 \<le> n \<and> n \<le> 70) \<or> (97 \<le> n \<and> n \<le> 102))"

definition hex_value :: "char \<Rightarrow> nat" where
  "hex_value c = (let n = of_char c :: nat in if n \<le> 57 then n - 48 else if n \<le> 70 then n - 55 else n - 87)"

definition parse_hex :: "nat \<Rightarrow> string \<Rightarrow> nat option" where
  "parse_hex maximum s =
    (let s = (case s of c # t \<Rightarrow> if c = CHR ''+'' then t else s | [] \<Rightarrow> s);
         v = foldl (\<lambda>v c. 16 * v + hex_value c) 0 s
     in if s \<noteq> [] \<and> list_all is_hex s \<and> v \<le> maximum then Some v else None)"

function trim_start_matches :: "string \<Rightarrow> string \<Rightarrow> string" where
  "trim_start_matches p s = (if p \<noteq> [] \<and> take (length p) s = p then trim_start_matches p (drop (length p) s) else s)"
  by pat_completeness auto
termination
proof (relation "measure (\<lambda>(p, s). length s)")
  fix p s :: string assume a: "p \<noteq> [] \<and> take (length p) s = p"
  then have "s \<noteq> []" "0 < length p" by auto
  then show "((p, drop (length p) s), p, s) \<in> measure (\<lambda>(p, s). length s)" by simp
qed simp

declare trim_start_matches.simps [simp del]

text \<open>The rows of a WinDirStat export with an owner field, by path; the last row of a path wins.\<close>

record imported_metadata =
  im_attributes :: "u32 option"
  im_created :: "i64 option"
  im_accessed :: "i64 option"
  im_export :: file_export_metadata

definition windirstat_metadata :: "string list list \<Rightarrow> string \<rightharpoonup> imported_metadata" where
  "windirstat_metadata rows =
    foldl (\<lambda>m row. if length row > 9 \<and> row ! 9 \<noteq> []
        then m(row ! 0 \<mapsto> \<lparr>im_attributes = None, im_created = None, im_accessed = None,
               im_export = metadata_default\<lparr>em_owner := Some (row ! 9)\<rparr>\<rparr>)
        else m) Map.empty (drop 1 rows)"

definition windirstat_row :: "bool \<Rightarrow> string list \<Rightarrow> io_failure + string list" where
  "windirstat_row optional_owner row =
    (if length row \<noteq> (if optional_owner then 10 else 9) then invalid ''Invalid WinDirStat CSV fields''
     else case parse_hex (2 ^ 32 - 1) (trim_start_matches ''0x'' (row ! 7)) of
       None \<Rightarrow> invalid ''Invalid WinDirStat flags''
     | Some flags \<Rightarrow>
         rbind (if row ! 6 = [] then Inr [] else rbind (utc_date (row ! 6)) (\<lambda>s. Inr (decimal_i64 (word_of_int s)))) (\<lambda>time.
         Inr [row ! 0, if bit flags 2 then ''Directory'' else ''File'', row ! 3, row ! 4, row ! 1, row ! 2, time]))"

fun map_rows :: "('a \<Rightarrow> io_failure + 'b) \<Rightarrow> 'a list \<Rightarrow> io_failure + 'b list" where
  "map_rows f [] = Inr []"
| "map_rows f (x # xs) = rbind (f x) (\<lambda>y. rbind (map_rows f xs) (\<lambda>ys. Inr (y # ys)))"

text \<open>The callers pass at least the header row.\<close>

definition windirstat :: "string list list \<Rightarrow> io_failure + string list list" where
  "windirstat rows =
    rbind (map_rows (windirstat_row (length (rows ! 0) = 10)) (drop 1 rows)) (\<lambda>out. Inr ([''Path''] # out))"

datatype csv_time_zone = Local | Utc

definition wiztree_row :: "(i64 \<Rightarrow> io_failure + i64) \<Rightarrow> csv_time_zone \<Rightarrow> string list \<Rightarrow> io_failure + string list" where
  "wiztree_row local_to_utc timezone row =
    (if length row < 7 then invalid ''Invalid WizTree CSV fields''
     else case parse_u32 (row ! 4) of
       None \<Rightarrow> invalid ''Invalid WizTree attributes''
     | Some flags \<Rightarrow>
         let directory = bit flags 4 \<or> ends_with_char (row ! 0) backslash;
             path = (if directory then trim_end_matches backslash (row ! 0) else row ! 0)
         in rbind
              (if row ! 3 = [] then Inr []
               else
                 let date = map (\<lambda>ch. if ch = CHR ''/'' then CHR ''-'' else if ch = CHR '' '' then CHR ''T'' else ch) (row ! 3) @ ''Z''
                 in rbind (utc_date date) (\<lambda>seconds.
                    rbind (case timezone of Local \<Rightarrow> local_to_utc (word_of_int seconds) | Utc \<Rightarrow> Inr (word_of_int seconds)) (\<lambda>utc.
                    Inr (decimal_i64 utc)))) (\<lambda>time.
            Inr [path, if directory then ''Directory'' else ''File'', row ! 1, row ! 2, row ! 5, row ! 6, time]))"

definition wiztree ::
  "string list list \<Rightarrow> (i64 \<Rightarrow> io_failure + i64) \<Rightarrow> csv_time_zone \<Rightarrow> io_failure + string list list" where
  "wiztree rows local_to_utc timezone =
    rbind (map_rows (wiztree_row local_to_utc timezone) (drop 1 rows)) (\<lambda>out. Inr ([''Path''] # out))"

end
