(* ===== verification/Export_Roundtrip.thy ===== *)
theory Export_Roundtrip
  imports Import_Rows
begin

text \<open>What an export writes, the row parser reads back: CSV and TSV.\<close>

section \<open>Quoted and plain fields\<close>

lemma split_at_ne: "split_at c s \<noteq> []"
  by (cases s) (auto split: list.splits)

lemma escaped_Cons: "escaped (x # s) = (if x = dquote then [dquote, dquote] else [x]) @ escaped s"
  using split_at_ne [of dquote s] by (cases "split_at dquote s") (auto simp: escaped_def)

lemma escaped_Nil [simp]: "escaped [] = []"
  by (simp add: escaped_def)

lemma escaped_append: "escaped (s @ t) = escaped s @ escaped t"
  by (induction s) (simp_all add: escaped_Cons)

definition plain :: "char \<Rightarrow> string \<Rightarrow> bool" where
  "plain d s \<longleftrightarrow> list_all (\<lambda>c. c \<noteq> dquote \<and> c \<noteq> d \<and> c \<noteq> CHR 0x0A \<and> c \<noteq> CHR 0x0D) s"

text \<open>The steps of the parser.\<close>

declare csv_rows_loop.simps [simp del]

definition separates :: "char \<Rightarrow> bool" where
  "separates d \<longleftrightarrow> d \<noteq> dquote \<and> d \<noteq> CHR 0x0A \<and> d \<noteq> CHR 0x0D"

lemma loop_pair: "csv_rows_loop d (dquote # dquote # cs) rows row f True cl = csv_rows_loop d cs rows row (f @ [dquote]) True cl"
  by (subst csv_rows_loop.simps) simp

lemma loop_inside: "x \<noteq> dquote \<Longrightarrow> csv_rows_loop d (x # cs) rows row f True cl = csv_rows_loop d cs rows row (f @ [x]) True cl"
  by (subst csv_rows_loop.simps) simp

lemma loop_close: "c \<noteq> dquote \<Longrightarrow>
    csv_rows_loop d (dquote # c # cs) rows row f True cl = csv_rows_loop d (c # cs) rows row f False True"
  by (subst csv_rows_loop.simps) simp

lemma loop_open: "csv_rows_loop d (dquote # cs) rows row [] False False = csv_rows_loop d cs rows row [] True False"
  by (subst csv_rows_loop.simps) simp

lemma loop_delimiter: "separates d \<Longrightarrow> csv_rows_loop d (d # cs) rows row f False cl = csv_rows_loop d cs rows (row @ [f]) [] False False"
  by (subst csv_rows_loop.simps) (simp add: separates_def)

lemma loop_plain: "x \<noteq> dquote \<Longrightarrow> x \<noteq> d \<Longrightarrow> x \<noteq> CHR 0x0A \<Longrightarrow> x \<noteq> CHR 0x0D \<Longrightarrow>
    csv_rows_loop d (x # cs) rows row f False False = csv_rows_loop d cs rows row (f @ [x]) False False"
  by (subst csv_rows_loop.simps) simp

lemma loop_crlf:
  assumes "separates d" "list_ex (\<lambda>v. v \<noteq> []) (row @ [f])"
  shows "csv_rows_loop d (crlf @ cs) rows row f False cl = csv_rows_loop d cs (rows @ [row @ [f]]) [] [] False False"
proof -
  have "csv_rows_loop d (CHR 0x0D # CHR 0x0A # cs) rows row f False cl = csv_rows_loop d (CHR 0x0A # cs) rows row f False cl"
    using assms(1) by (subst csv_rows_loop.simps) (auto simp: separates_def)
  also have "csv_rows_loop d (CHR 0x0A # cs) rows row f False cl = csv_rows_loop d cs (rows @ [row @ [f]]) [] [] False False"
    using assms by (subst csv_rows_loop.simps) (auto simp: separates_def)
  finally show ?thesis by simp
qed

lemma loop_end: "csv_rows_loop d [] rows [] [] False False = Inr rows"
  by (simp add: csv_rows_loop.simps)

lemma read_quoted:
  "c \<noteq> dquote \<Longrightarrow> csv_rows_loop d (escaped s @ dquote # c # rest) rows row f True cl =
    csv_rows_loop d (c # rest) rows row (f @ s) False True"
  by (induction s arbitrary: f) (simp_all add: escaped_Cons loop_pair loop_inside loop_close)

lemma read_plain:
  "plain d s \<Longrightarrow> csv_rows_loop d (s @ rest) rows row f False False = csv_rows_loop d rest rows row (f @ s) False False"
  by (induction s arbitrary: f) (simp_all add: plain_def loop_plain)

text \<open>A row as it is written: a quoted first field, plain other ones.\<close>

definition row_text :: "char \<Rightarrow> string list \<Rightarrow> string" where
  "row_text d r = quoted (hd r) @ concat (map (\<lambda>f. d # f) (tl r)) @ crlf"

definition good_row :: "char \<Rightarrow> string list \<Rightarrow> bool" where
  "good_row d r \<longleftrightarrow> length r \<ge> 2 \<and> list_all (plain d) (tl r) \<and> list_ex (\<lambda>f. f \<noteq> []) r"

lemma read_fields:
  "separates d \<Longrightarrow> list_all (plain d) fs \<Longrightarrow> list_ex (\<lambda>v. v \<noteq> []) (row @ [f] @ fs) \<Longrightarrow>
    csv_rows_loop d (concat (map (\<lambda>f. d # f) fs) @ crlf @ rest) rows row f False False =
    csv_rows_loop d rest (rows @ [row @ [f] @ fs]) [] [] False False"
proof (induction fs arbitrary: row f)
  case Nil
  then show ?case using loop_crlf [of d row f rest rows False] by simp
next
  case (Cons g fs)
  have "csv_rows_loop d (concat (map (\<lambda>f. d # f) (g # fs)) @ crlf @ rest) rows row f False False =
      csv_rows_loop d (g @ (concat (map (\<lambda>f. d # f) fs) @ crlf @ rest)) rows (row @ [f]) [] False False"
    using Cons.prems(1) by (simp add: loop_delimiter)
  also have "\<dots> = csv_rows_loop d (concat (map (\<lambda>f. d # f) fs) @ crlf @ rest) rows (row @ [f]) g False False"
    using Cons.prems(2) read_plain [of d g "concat (map (\<lambda>f. d # f) fs) @ crlf @ rest" rows "row @ [f]" "[]"] by simp
  also have "\<dots> = csv_rows_loop d rest (rows @ [(row @ [f]) @ [g] @ fs]) [] [] False False"
    by (rule Cons.IH) (use Cons.prems in simp_all)
  finally show ?case by simp
qed

lemma read_row:
  assumes "separates d" "good_row d r"
  shows "csv_rows_loop d (row_text d r @ rest) rows [] [] False False = csv_rows_loop d rest (rows @ [r]) [] [] False False"
proof -
  obtain q g fs where r: "r = q # g # fs" using assms(2) by (cases r rule: list.exhaust; cases "tl r") (auto simp: good_row_def)
  have "csv_rows_loop d (row_text d r @ rest) rows [] [] False False =
      csv_rows_loop d (d # g @ concat (map (\<lambda>f. d # f) fs) @ crlf @ rest) rows [] q False True"
    using assms(1) read_quoted [of d d q "g @ concat (map (\<lambda>f. d # f) fs) @ crlf @ rest" rows "[]" "[]" False]
    by (simp add: row_text_def r quoted_def separates_def loop_open)
  also have "\<dots> = csv_rows_loop d (g @ concat (map (\<lambda>f. d # f) fs) @ crlf @ rest) rows [q] [] False False"
    using assms(1) by (simp add: loop_delimiter)
  also have "\<dots> = csv_rows_loop d (concat (map (\<lambda>f. d # f) fs) @ crlf @ rest) rows [q] g False False"
    using assms(2) read_plain [of d g "concat (map (\<lambda>f. d # f) fs) @ crlf @ rest" rows "[q]" "[]"]
    by (simp add: r good_row_def)
  also have "\<dots> = csv_rows_loop d rest (rows @ [[q] @ [g] @ fs]) [] [] False False"
    by (rule read_fields) (use assms in \<open>simp_all add: r good_row_def\<close>)
  finally show ?thesis by (simp add: r)
qed

lemma read_rows:
  "separates d \<Longrightarrow> list_all (good_row d) rs \<Longrightarrow>
    csv_rows_loop d (concat (map (row_text d) rs)) rows [] [] False False = Inr (rows @ rs)"
  by (induction rs arbitrary: rows) (simp_all add: read_row loop_end)

lemma read_header:
  assumes "separates d" "plain d f" "list_all (plain d) fs" "f \<noteq> []"
  shows "csv_rows_loop d (f @ concat (map (\<lambda>f. d # f) fs) @ crlf @ rest) [] [] [] False False =
    csv_rows_loop d rest [f # fs] [] [] False False"
  using read_plain [OF assms(2), of "concat (map (\<lambda>f. d # f) fs) @ crlf @ rest" "[]" "[]" "[]"]
    read_fields [OF assms(1,3), of "[]" f rest "[]"] assms(4) by simp

section \<open>Tabs\<close>

lemma tab_write_append: "tab_write q (s @ t) =
    (let (q', a) = tab_write q s; (q'', b) = tab_write q' t in (q'', a @ b))"
  by (induction s arbitrary: q) (auto simp: Let_def case_prod_unfold)

lemma concat_tab_writes: "concat (tab_writes q cs) = snd (tab_write q (concat cs))"
  by (induction cs arbitrary: q) (simp_all add: tab_write_append Let_def case_prod_unfold)

lemma tab_escaped: "tab_write True (escaped s) = (True, escaped s)"
  by (induction s) (simp_all add: escaped_Cons)

lemma tab_plain: "plain (CHR '','') s \<Longrightarrow> tab_write False s = (False, s)"
  by (induction s) (auto simp: plain_def)

lemma tab_fields: "list_all (plain (CHR '','')) fs \<Longrightarrow>
    tab_write False (concat (map (\<lambda>f. CHR '','' # f) fs)) = (False, concat (map (\<lambda>f. CHR 0x09 # f) fs))"
  by (induction fs) (simp_all add: tab_write_append tab_plain Let_def)

lemma tab_row: "list_all (plain (CHR '','')) (tl r) \<Longrightarrow> tab_write False (row_text (CHR '','') r) = (False, row_text (CHR 0x09) r)"
  by (simp add: row_text_def quoted_def tab_write_append tab_escaped tab_fields Let_def)

lemma tab_rows: "list_all (\<lambda>r. list_all (plain (CHR '','')) (tl r)) rs \<Longrightarrow>
    tab_write False (concat (map (row_text (CHR '','')) rs)) = (False, concat (map (row_text (CHR 0x09)) rs))"
  by (induction rs) (simp_all add: tab_write_append tab_row Let_def)

section \<open>The rows of an export\<close>

definition directory_fields :: "tree_index \<Rightarrow> directory_record \<Rightarrow> string list" where
  "directory_fields t d = (let r = rollup_or_default t (d_id d) in
     [d_full_path d, ''Directory'', decimal_u64 (ru_logical_bytes r), decimal_u64 (ru_physical_bytes r),
      decimal_u64 (ru_file_count r), decimal_u64 (sat_sub (ru_item_count r) (ru_file_count r)),
      csv_time (ru_modified_utc_max r)])"

definition file_fields :: "tree_index \<Rightarrow> file_record \<Rightarrow> string list" where
  "file_fields t f =
     [file_display_path t f, ''File'', decimal_u64 (f_size_bytes f), decimal_u64 (f_allocation_bytes f),
      ''0'', ''0'', csv_time (f_modified_utc f)]"

lemma plain_decimal: "\<not> is_digit d \<Longrightarrow> plain d (decimal n)"
proof -
  assume "\<not> is_digit d"
  then have "\<forall>c. is_digit c \<longrightarrow> c \<noteq> dquote \<and> c \<noteq> d \<and> c \<noteq> CHR 0x0A \<and> c \<noteq> CHR 0x0D"
    by (auto simp: is_digit_def)
  then show ?thesis using decimal_digits [of n] by (auto simp: plain_def list_all_iff)
qed

lemma plain_numbers:
  assumes "d = CHR '','' \<or> d = CHR 0x09"
  shows "plain d (decimal_u64 w)" "plain d (csv_time v)"
proof -
  have nd: "\<not> is_digit d" using assms by (auto simp: is_digit_def)
  then show "plain d (decimal_u64 w)" by (simp add: decimal_u64_def plain_decimal)
  have "plain d (decimal_i64 v)" for v
    using assms plain_decimal [OF nd, of "nat (- sint v)"] plain_decimal [OF nd, of "nat (sint v)"]
    by (auto simp: decimal_i64_def plain_def)
  then show "plain d (csv_time v)" by (simp add: csv_time_def plain_def split: option.splits)
qed

lemma good_rows:
  assumes "d = CHR '','' \<or> d = CHR 0x09"
  shows "good_row d (directory_fields t r)" "good_row d (file_fields t f)"
  using plain_numbers [OF assms] assms
  by (auto simp: good_row_def directory_fields_def file_fields_def Let_def) (auto simp: plain_def)

lemma abs_word: "unat (word_of_int \<bar>sint (v :: 64 word)\<bar> :: 64 word) = nat \<bar>sint v\<bar>"
proof -
  have "sint v < 2 ^ 63" "- (2 ^ 63) \<le> sint v" using sint_lt [of v] sint_ge [of v] by simp_all
  then have b: "0 \<le> \<bar>sint v\<bar>" "\<bar>sint v\<bar> < 2 ^ 64" by simp_all
  have "uint (word_of_int \<bar>sint v\<bar> :: 64 word) = \<bar>sint v\<bar> mod 2 ^ 64" by (simp add: uint_word_of_int)
  also have "\<dots> = \<bar>sint v\<bar>" using b by (rule mod_pos_pos_trivial)
  finally show ?thesis by (metis unat_eq_nat_uint)
qed

lemma csv_timestamp_text: "csv_timestamp row v = row @ csv_time v @ crlf"
proof (cases v)
  case (Some t)
  have "decimal_u64 (word_of_int \<bar>sint (unix_seconds t)\<bar>) = decimal (nat \<bar>sint (unix_seconds t)\<bar>)"
    by (simp only: decimal_u64_def abs_word)
  then show ?thesis
    by (cases "sint (unix_seconds t) < 0")
      (simp_all add: csv_timestamp_def csv_time_def Some Let_def csv_integer_decimal decimal_i64_def del: of_int_abs)
qed (simp add: csv_timestamp_def csv_time_def)

lemma csv_directory_row_text: "csv_directory_row t d = row_text (CHR '','') (directory_fields t d)"
  by (simp add: csv_directory_row_def row_text_def directory_fields_def Let_def csv_timestamp_text csv_integer_decimal)

lemma quoted_display_path: "f_full_path f = [] \<Longrightarrow>
    parent_prefix t (f_parent_directory_id f) @ escaped (f_name f) @ [dquote] = quoted (file_display_path t f)"
  by (auto simp: parent_prefix_def file_display_path_def quoted_def join_path_def option_filter_def escaped_append
      escaped_Cons split: option.splits)

lemma csv_file_row_tail:
  "csv_timestamp (csv_integer (csv_integer (p @ '',File,'') a @ '','') b @ '',0,0,'') v =
    p @ '',File,'' @ decimal_u64 a @ '','' @ decimal_u64 b @ '',0,0,'' @ csv_time v @ crlf"
  by (simp only: csv_timestamp_text csv_integer_decimal append_assoc)

lemma file_row_text: "row_text (CHR '','') (file_fields t f) =
    quoted (file_display_path t f) @ '',File,'' @ decimal_u64 (f_size_bytes f) @ '','' @ decimal_u64 (f_allocation_bytes f)
      @ '',0,0,'' @ csv_time (f_modified_utc f) @ crlf"
  by (simp add: row_text_def file_fields_def)

lemma csv_file_row_full: "f_full_path f \<noteq> [] \<Longrightarrow> csv_file_row t cache f = (cache, row_text (CHR '','') (file_fields t f))"
  unfolding csv_file_row_def Let_def file_row_text csv_file_row_tail by (simp add: file_display_path_def)

lemma csv_file_row_derived:
  assumes "f_full_path f = []" "snd cache' = parent_prefix t (f_parent_directory_id f)"
    and "cache' = (if fst cache \<noteq> Some (f_parent_directory_id f)
      then (Some (f_parent_directory_id f), parent_prefix t (f_parent_directory_id f)) else cache)"
  shows "csv_file_row t cache f = (cache', row_text (CHR '','') (file_fields t f))"
  unfolding csv_file_row_def Let_def file_row_text assms(3) [symmetric] using assms(1,2) quoted_display_path [OF assms(1), of t]
  by (simp add: csv_file_row_tail del: append_assoc)

lemma csv_file_rows_text:
  "(\<And>i. fst cache = Some i \<Longrightarrow> snd cache = parent_prefix t i) \<Longrightarrow>
    csv_file_rows t cache files = map (\<lambda>f. row_text (CHR '','') (file_fields t f)) files"
proof (induction files arbitrary: cache)
  case (Cons f files)
  show ?case
  proof (cases "f_full_path f = []")
    case False
    then show ?thesis using Cons by (simp add: csv_file_row_full)
  next
    case True
    let ?i = "f_parent_directory_id f"
    define cache' where "cache' = (if fst cache \<noteq> Some ?i then (Some ?i, parent_prefix t ?i) else cache)"
    have "snd cache' = parent_prefix t ?i" using Cons.prems [of ?i] by (simp add: cache'_def)
    then have "csv_file_row t cache f = (cache', row_text (CHR '','') (file_fields t f))"
      using True cache'_def by (intro csv_file_row_derived)
    moreover have "csv_file_rows t cache' files = map (\<lambda>f. row_text (CHR '','') (file_fields t f)) files"
      by (rule Cons.IH) (use Cons.prems in \<open>auto simp: cache'_def split: if_splits\<close>)
    ultimately show ?thesis by simp
  qed
qed simp

definition summary_header :: "string list" where
  "summary_header = [''Path'', ''Kind'', ''LogicalBytes'', ''AllocatedBytes'', ''Files'', ''Directories'', ''ModifiedUnixSeconds'']"

definition export_rows :: "tree_index \<Rightarrow> string list list" where
  "export_rows t = summary_header # map (directory_fields t) (export_directories t) @ map (file_fields t) (tr_files t)"

lemma csv_file_rows_start:
  "csv_file_rows t (None, []) files = map (\<lambda>f. row_text (CHR '','') (file_fields t f)) files"
  by (rule csv_file_rows_text) simp

lemma write_csv_text: "concat (write_csv t) =
    hd summary_header @ concat (map (\<lambda>f. CHR '','' # f) (tl summary_header)) @ crlf
    @ concat (map (row_text (CHR '','')) (tl (export_rows t)))"
  by (simp add: write_csv_def write_csv_selected_def csv_header_def summary_header_def export_rows_def
      csv_file_rows_start csv_directory_row_text [abs_def] comp_def)

lemma write_tsv_text: "concat (write_tsv t) =
    hd summary_header @ concat (map (\<lambda>f. CHR 0x09 # f) (tl summary_header)) @ crlf
    @ concat (map (row_text (CHR 0x09)) (tl (export_rows t)))"
proof -
  have "list_all (\<lambda>r. list_all (plain (CHR '','')) (tl r)) (tl (export_rows t))"
    using good_rows [of "CHR '',''"] by (simp add: export_rows_def list_all_iff good_row_def) blast
  from tab_rows [OF this] show ?thesis
    unfolding write_tsv_def concat_tab_writes write_csv_text
    by (simp add: tab_write_append summary_header_def Let_def)
qed

lemma rows_read_back:
  assumes "d = CHR '','' \<or> d = CHR 0x09"
  shows "csv_rows d (hd summary_header @ concat (map (\<lambda>f. d # f) (tl summary_header)) @ crlf
    @ concat (map (row_text d) (tl (export_rows t)))) = Inr (export_rows t)"
proof -
  have sep: "separates d" using assms by (auto simp: separates_def)
  have header: "plain d (hd summary_header)" "list_all (plain d) (tl summary_header)"
    using assms by (auto simp: summary_header_def plain_def)
  have "list_all (good_row d) (tl (export_rows t))"
    using good_rows [OF assms] by (auto simp: export_rows_def list_all_iff)
  then have "csv_rows_loop d (concat (map (row_text d) (tl (export_rows t)))) [hd summary_header # tl summary_header] [] [] False False =
      Inr ([hd summary_header # tl summary_header] @ tl (export_rows t))"
    by (rule read_rows [OF sep])
  moreover have "[hd summary_header # tl summary_header] @ tl (export_rows t) = export_rows t"
    by (simp add: export_rows_def summary_header_def)
  moreover have "hd summary_header \<noteq> []" by (simp add: summary_header_def)
  note read_header [OF sep header this, of "concat (map (row_text d) (tl (export_rows t)))"]
  ultimately show ?thesis by (simp only: csv_rows_def)
qed

text \<open>
  C33. An exported catalog reads back: the row parser of the import, run on the bytes write_csv produces,
  returns the header and one row of seven fields per directory and file, root first, each with its path as
  displayed and its sizes, counts and time in decimal, whatever quotes, separators and line breaks names
  contain. The bytes of write_tsv, whose writer replaces separators between chunks of any length, parse with
  tabs to the same rows.
\<close>

theorem export_reads_back:
  "csv_rows (CHR '','') (concat (write_csv t)) = Inr (export_rows t)
    \<and> csv_rows (CHR 0x09) (concat (write_tsv t)) = Inr (export_rows t)"
  unfolding write_csv_text write_tsv_text using rows_read_back [of "CHR '',''" t] rows_read_back [of "CHR 0x09" t] by simp

end
