(* ===== verification/Import_Dates.thy ===== *)
theory Import_Dates
  imports Import_Rows
begin

text \<open>
  The dates of the import against the calendar: \<open>civil_days\<close> counts the days of whole years and months,
  and \<open>utc_date\<close> reads a date in the form the exports of other tools use.
\<close>

section \<open>Counting days\<close>

text \<open>Days since 1970-01-01, by the lengths of the years since 1601 and of the months before.\<close>

definition year_length :: "int \<Rightarrow> int" where
  "year_length year = (if is_leap year then 366 else 365)"

definition calendar_days :: "int \<Rightarrow> int \<Rightarrow> int \<Rightarrow> int" where
  "calendar_days year month day =
    sum_list (map year_length [1601..year - 1]) + sum_list (map (month_length (is_leap year)) [1..month - 1])
    + (day - 1) - 134774"

lemma div_400: "n div 4 - n div 100 + n div 400 = (n div 400) * 97 + (n - n div 400 * 400) div 4 - (n - n div 400 * 400) div 100" for n :: int
proof -
  define e r where "e = n div 400" and "r = n mod 400"
  have n: "n = 400 * e + r" by (simp add: e_def r_def)
  have "n div 4 = 100 * e + r div 4" "n div 100 = 4 * e + r div 100"
    using div_mult_self4 [of 4 "100 * e" r] div_mult_self4 [of 100 "4 * e" r] by (simp_all add: n)
  moreover have "n - e * 400 = r" by (simp add: n)
  ultimately show ?thesis unfolding e_def [symmetric] by simp
qed

definition leaps :: "int \<Rightarrow> int" where
  "leaps n = n div 4 - n div 100 + n div 400"

lemma civil_days_closed:
  "civil_days year month day =
    (let y = year - (if month \<le> 2 then 1 else 0)
     in 365 * y + leaps y + (153 * (month + (if month > 2 then - 3 else 9)) + 2) div 5 + day - 1 - 719468)"
  unfolding civil_days_def Let_def leaps_def div_400 by (simp add: algebra_simps)

lemma leap_step: "leaps n = leaps (n - 1) + (if is_leap n then 1 else 0)" for n :: int
proof -
  have q: "n div k - (n - 1) div k = (if n mod k = 0 then 1 else 0)" if "0 < k" for k :: int
  proof -
    have n: "n = k * (n div k) + n mod k" by simp
    show ?thesis
    proof (cases "n mod k = 0")
      case True
      then have "n - 1 = k * (n div k - 1) + (k - 1)" using n by (simp add: algebra_simps)
      then have "(n - 1) div k = n div k - 1"
        using that by (intro int_div_pos_eq [where r = "k - 1"]) simp_all
      then show ?thesis using True by simp
    next
      case False
      then have r: "0 < n mod k" "n mod k < k" using that pos_mod_bound [OF that, of n] pos_mod_sign [OF that, of n] by auto
      have "n - 1 = k * (n div k) + (n mod k - 1)" using n by simp
      then have "(n - 1) div k = n div k"
        using r by (intro int_div_pos_eq [where r = "n mod k - 1"]) simp_all
      then show ?thesis using False by simp
    qed
  qed
  have mods: "n mod 100 = 0 \<Longrightarrow> n mod 4 = 0" "n mod 400 = 0 \<Longrightarrow> n mod 100 = 0"
    using dvd_trans [of 4 100 n] dvd_trans [of 100 400 n] by (simp_all add: mod_eq_0_iff_dvd)
  have opaque: "a - b + c = a' - b' + c' + (if p \<and> (\<not> q \<or> r) then 1 else 0)"
    if "a - a' = (if p then 1 else 0)" "b - b' = (if q then 1 else 0)" "c - c' = (if r then 1 else 0)" "q \<Longrightarrow> p" "r \<Longrightarrow> q"
    for a b c a' b' c' :: int and p q r
    using that by (cases p; cases q; cases r) simp_all
  show ?thesis
    unfolding leaps_def is_leap_def by (rule opaque [OF q q q mods]) simp_all
qed

lemma civil_year_step: "civil_days (year + 1) 1 1 = civil_days year 1 1 + year_length year"
  using leap_step [of year] by (simp add: civil_days_closed Let_def year_length_def split: if_splits)

lemma civil_new_year: "1601 \<le> year \<Longrightarrow> civil_days year 1 1 = sum_list (map year_length [1601..year - 1]) - 134774"
proof (induction rule: int_ge_induct)
  case base
  show ?case by (simp add: civil_days_closed Let_def leaps_def)
next
  case (step year)
  have "[1601..year + 1 - 1] = [1601..year - 1] @ [year]"
    using step.hyps upto_rec2 [of 1601 year] by simp
  then show ?case using step.IH civil_year_step [of year] by simp
qed

lemma months_before:
  assumes "1 \<le> month" "month \<le> 12"
  shows "civil_days year month day = civil_days year 1 1 + sum_list (map (month_length (is_leap year)) [1..month - 1]) + (day - 1)"
proof -
  have feb: "civil_days year month day = civil_days year 1 1 + (year_length year - 306) + (153 * (month - 3) + 2) div 5 + (day - 1)"
    if "2 < month"
    using that leap_step [of year] by (simp add: civil_days_closed Let_def year_length_def)
  consider "month = 1" | "month = 2" | "month \<in> {3..12}" using assms by force
  then show ?thesis
  proof cases
    case 1
    then show ?thesis by (simp add: civil_days_closed Let_def)
  next
    case 2
    then show ?thesis by (simp add: civil_days_closed Let_def month_length_def upto_rec1)
  next
    case 3
    then have "3 \<le> month" "month \<le> 12" by simp_all
    then have "month \<in> {3, 4, 5, 6, 7, 8, 9, 10, 11, 12}" unfolding insert_iff empty_iff by presburger
    then show ?thesis
      using feb by (auto simp: upto_rec1 month_length_def year_length_def)
  qed
qed

lemma civil_days_calendar:
  "1601 \<le> year \<Longrightarrow> 1 \<le> month \<Longrightarrow> month \<le> 12 \<Longrightarrow> civil_days year month day = calendar_days year month day"
  using months_before [of month year day] civil_new_year [of year] by (simp add: calendar_days_def)

section \<open>Reading a date\<close>

definition padded :: "nat \<Rightarrow> nat \<Rightarrow> string" where
  "padded k n = replicate (k - length (decimal n)) (CHR ''0'') @ decimal n"

lemma length_decimal: "n < 10 ^ k \<Longrightarrow> 0 < k \<Longrightarrow> length (decimal n) \<le> k"
proof (induction n arbitrary: k rule: decimal.induct)
  case (1 n)
  show ?case
  proof (cases "n < 10")
    case True
    then show ?thesis using 1 by (simp add: decimal.simps [of n])
  next
    case False
    then have "k \<noteq> 1" using 1 by auto
    then obtain j where k: "k = Suc j" "0 < j" using 1 by (cases k) auto
    then have "length (decimal (n div 10)) \<le> j" using 1 False by (intro 1(1)) auto
    then show ?thesis using False k by (simp add: decimal.simps [of n])
  qed
qed

lemma length_padded: "n < 10 ^ k \<Longrightarrow> 0 < k \<Longrightarrow> length (padded k n) = k"
  using length_decimal [of n k] by (simp add: padded_def)

lemma zero_digit: "is_digit (CHR ''0'')"
  by (simp add: is_digit_def)

lemma padded_digits: "list_all is_digit (padded k n)" "padded k n \<noteq> []" "digits_value 0 (padded k n) = n"
proof -
  show "list_all is_digit (padded k n)"
    using decimal_digits [of n] zero_digit by (auto simp: padded_def list_all_iff)
  show "padded k n \<noteq> []" using decimal_digits [of n] by (simp add: padded_def)
  have "digits_value 0 (replicate j (CHR ''0'') @ s) = digits_value 0 s" for j s
    by (induction j) simp_all
  then show "digits_value 0 (padded k n) = n" by (simp add: padded_def digits_value_decimal)
qed

lemma parse_padded: "n < 2 ^ 63 \<Longrightarrow> parse_i64 (padded k n) = Some (word_of_nat n)"
proof -
  assume n: "n < 2 ^ 63"
  obtain c s where p: "padded k n = c # s" using padded_digits(2) [of k n] by (cases "padded k n") auto
  then have "is_digit c" using padded_digits(1) [of k n] by simp
  then have "c \<noteq> CHR ''-''" "c \<noteq> CHR ''+''" by (auto simp: is_digit_def)
  then show ?thesis
    using n padded_digits [of k n] by (simp add: parse_i64_def parse_unsigned_def parse_digits_def p)
qed

lemma split_any_part: "list_all (\<lambda>c. \<not> p c) a \<Longrightarrow> p c \<Longrightarrow> split_any p (a @ c # b) = a # split_any p b"
  by (induction a) simp_all

definition date_text :: "nat \<Rightarrow> nat \<Rightarrow> nat \<Rightarrow> nat \<Rightarrow> nat \<Rightarrow> nat \<Rightarrow> string" where
  "date_text year month day hour minute second =
    padded 4 year @ ''-'' @ padded 2 month @ ''-'' @ padded 2 day @ ''T''
    @ padded 2 hour @ '':'' @ padded 2 minute @ '':'' @ padded 2 second @ ''Z''"

definition valid_date :: "int \<Rightarrow> int \<Rightarrow> int \<Rightarrow> bool" where
  "valid_date year month day \<longleftrightarrow>
    1601 \<le> year \<and> year \<le> 9999 \<and> 1 \<le> month \<and> month \<le> 12 \<and> 1 \<le> day \<and> day \<le> month_length (is_leap year) month"

lemma date_fields:
  "filter (\<lambda>s. s \<noteq> []) (split_any (\<lambda>c. c \<in> set ''-T:Z'') (date_text year month day hour minute second)) =
    [padded 4 year, padded 2 month, padded 2 day, padded 2 hour, padded 2 minute, padded 2 second]"
proof -
  have plain: "list_all (\<lambda>c. \<not> c \<in> set ''-T:Z'') (padded k n)" for k n
  proof -
    have "\<forall>c. is_digit c \<longrightarrow> c \<notin> set ''-T:Z''" by (auto simp: is_digit_def)
    then show ?thesis using padded_digits(1) [of k n] unfolding list_all_iff by blast
  qed
  have "split_any (\<lambda>c. c \<in> set ''-T:Z'') (padded k n @ c # b) = padded k n # split_any (\<lambda>c. c \<in> set ''-T:Z'') b"
    if "c \<in> set ''-T:Z''" for k n c b
    by (rule split_any_part [OF plain that])
  then have "split_any (\<lambda>c. c \<in> set ''-T:Z'') (date_text year month day hour minute second) =
      [padded 4 year, padded 2 month, padded 2 day, padded 2 hour, padded 2 minute, padded 2 second, []]"
    by (simp add: date_text_def)
  then show ?thesis by (simp add: padded_digits(2))
qed

lemma utc_date_complete:
  assumes "valid_date (int year) (int month) (int day)" "hour < 24" "minute < 60" "second < 60"
  shows "utc_date (date_text year month day hour minute second) =
    Inr (calendar_days (int year) (int month) (int day) * 86400 + int hour * 3600 + int minute * 60 + int second)"
proof -
  have bounds: "year < 10 ^ 4" "month < 10 ^ 2" "day < 10 ^ 2" "hour < 10 ^ 2" "minute < 10 ^ 2" "second < 10 ^ 2"
    and day: "int day \<le> 31"
    using assms by (auto simp: valid_date_def month_length_def split: if_splits)
  have small: "n < 2 ^ 63" if "n < 10 ^ 4" for n :: nat using that by simp
  have parse: "parse_fields 6 [padded 4 year, padded 2 month, padded 2 day, padded 2 hour, padded 2 minute, padded 2 second] =
      Inr ([word_of_nat year, word_of_nat month, word_of_nat day, word_of_nat hour, word_of_nat minute, word_of_nat second], [])"
  proof -
    have six: "(6 :: nat) = Suc (Suc (Suc (Suc (Suc (Suc 0)))))" by simp
    have "parse_i64 (padded k n) = Some (word_of_nat n)" if "n < 10 ^ 4" for k n
      using small [OF that] by (rule parse_padded)
    then have "parse_i64 (padded 4 year) = Some (word_of_nat year)" "parse_i64 (padded 2 month) = Some (word_of_nat month)"
      "parse_i64 (padded 2 day) = Some (word_of_nat day)" "parse_i64 (padded 2 hour) = Some (word_of_nat hour)"
      "parse_i64 (padded 2 minute) = Some (word_of_nat minute)" "parse_i64 (padded 2 second) = Some (word_of_nat second)"
      using bounds by simp_all
    then show ?thesis
      unfolding six by (simp only: parse_fields.simps option.case rbind.simps prod.case)
  qed
  have whole: "length (date_text year month day hour minute second) = 20"
    "ends_with_char (date_text year month day hour minute second) (CHR ''Z'')"
    using bounds by (simp_all add: date_text_def length_padded ends_with_char_def)
  have num: "sint (word_of_nat n :: 64 word) = int n" if "n < 10 ^ 4" for n
  proof -
    have "sint (word_of_int (int n) :: 64 word) = signed_take_bit 63 (int n)"
      using sint_sbintrunc' [of "int n", where 'a = 64] by (simp only: len_bit0 len_num1) simp
    also have "\<dots> = int n" using that by (intro signed_take_bit_int_eq_self) simp_all
    finally show ?thesis by simp
  qed
  have nums: "sint (word_of_nat year :: 64 word) = int year" "sint (word_of_nat month :: 64 word) = int month"
    "sint (word_of_nat day :: 64 word) = int day" "sint (word_of_nat hour :: 64 word) = int hour"
    "sint (word_of_nat minute :: 64 word) = int minute" "sint (word_of_nat second :: 64 word) = int second"
    by (rule num, use bounds in simp)+
  have civil: "civil_days (int year) (int month) (int day) = calendar_days (int year) (int month) (int day)"
    using assms(1) by (intro civil_days_calendar) (simp_all add: valid_date_def)
  have date: "1601 \<le> int year" "int year \<le> 9999" "1 \<le> int month" "int month \<le> 12" "1 \<le> int day"
    "\<not> int day > month_length (is_leap (int year)) (int month)"
    using assms(1) by (simp_all add: valid_date_def)
  have time: "int hour < 24" "int minute < 60" "int second < 60" using assms(2-) by simp_all
  have idx: "[a, b, c, d, e, f] ! 0 = a" "[a, b, c, d, e, f] ! 1 = b" "[a, b, c, d, e, f] ! 2 = c"
    "[a, b, c, d, e, f] ! 3 = d" "[a, b, c, d, e, f] ! 4 = e" "[a, b, c, d, e, f] ! 5 = f" for a b c d e f :: "64 word"
    by simp_all
  show ?thesis
    unfolding utc_date_def date_fields parse rbind.simps prod.case date_seconds_def Let_def idx nums civil
    using whole date day time by simp
qed

lemma utc_date_sound:
  assumes "utc_date text = Inr t"
  shows "\<exists>year month day hour minute second. valid_date year month day \<and> 0 \<le> hour \<and> hour < 24 \<and> 0 \<le> minute \<and> minute < 60
    \<and> 0 \<le> second \<and> second < 60 \<and> t = calendar_days year month day * 86400 + hour * 3600 + minute * 60 + second"
proof -
  obtain numbers where "date_seconds numbers = Inr t"
    using assms by (auto simp: utc_date_def rbind_eq_Inr invalid_def split: if_splits)
  then have valid: "valid_date (sint (numbers ! 0)) (sint (numbers ! 1)) (sint (numbers ! 2))"
    and time: "0 \<le> sint (numbers ! 3)" "sint (numbers ! 3) < 24" "0 \<le> sint (numbers ! 4)" "sint (numbers ! 4) < 60"
      "0 \<le> sint (numbers ! 5)" "sint (numbers ! 5) < 60"
    and t: "t = civil_days (sint (numbers ! 0)) (sint (numbers ! 1)) (sint (numbers ! 2)) * 86400 + sint (numbers ! 3) * 3600
      + sint (numbers ! 4) * 60 + sint (numbers ! 5)"
    by (auto simp: date_seconds_def invalid_def Let_def valid_date_def split: if_splits)
  have "civil_days (sint (numbers ! 0)) (sint (numbers ! 1)) (sint (numbers ! 2)) =
      calendar_days (sint (numbers ! 0)) (sint (numbers ! 1)) (sint (numbers ! 2))"
    using valid by (intro civil_days_calendar) (simp_all add: valid_date_def)
  then show ?thesis using valid time t by metis
qed



end
