(* ===== verification/Import_Tree.thy ===== *)
theory Import_Tree
  imports Import_Rows
begin

text \<open>
  From the rows of an import to a display tree: \<open>build_import_metadata\<close> and the readers of
  \<open>WinBlaze.Index/src/import.rs\<close>. \<open>lowercase\<close> is \<open>str::to_lowercase\<close>, \<open>order\<close> the enumeration order of a
  hash map, \<open>capacity\<close> and the two sort choices \<open>f\<close> and \<open>g\<close> those of the transaction and the tree.
\<close>

definition multiple_roots_path :: string where
  "multiple_roots_path = ''WinBlaze:'' @ [backslash] @ ''Multiple roots''"

type_synonym path_ids = "(string \<times> u64) list"

text \<open>A new path gets the next id.\<close>

definition insert_path :: "string \<Rightarrow> path_ids \<Rightarrow> path_ids" where
  "insert_path path ids = ids @ [(path, word_of_nat (length ids) + 1)]"

section \<open>Checking the rows\<close>

definition trim_directory_row :: "string list \<Rightarrow> string list" where
  "trim_directory_row row =
    (if length row > 1 \<and> row ! 1 = ''Directory'' then row[0 := trim_end_matches backslash (row ! 0)] else row)"

fun check_rows :: "(string \<Rightarrow> string) \<Rightarrow> string set \<Rightarrow> path_ids \<Rightarrow> string list list \<Rightarrow> io_failure + path_ids" where
  "check_rows lowercase seen ids [] = Inr ids"
| "check_rows lowercase seen ids (row # rows) =
    (if length row \<noteq> 7 then invalid ''Wrong number of CSV fields''
     else if row ! 0 = [] \<or> CHR 0x00 \<in> set (row ! 0) \<or> lowercase (row ! 0) \<in> seen
       then invalid ''Empty or duplicate CSV path''
     else if list_ex (\<lambda>column. parse_u64 column = None) (take 4 (drop 2 row))
       then invalid ''Invalid byte count or entry count''
     else if row ! 6 \<noteq> [] \<and> parse_i64 (row ! 6) = None then invalid ''Invalid timestamp''
     else check_rows lowercase (insert (lowercase (row ! 0)) seen)
       (if row ! 1 = ''Directory'' then insert_path (row ! 0) ids else ids) rows)"

section \<open>Roots and the common directory\<close>

definition top_roots :: "(string \<Rightarrow> string) \<Rightarrow> path_ids \<Rightarrow> string list" where
  "top_roots lowercase ids =
    filter (\<lambda>path. path \<noteq> multiple_roots_path
      \<and> \<not> list_ex (\<lambda>parent. parent \<noteq> multiple_roots_path \<and> is_descendant lowercase path parent) (map fst ids)) (map fst ids)"

definition row_parent :: "string list \<Rightarrow> io_failure + string" where
  "row_parent r =
    (if r ! 1 = ''Directory'' then Inr (r ! 0)
     else case rsplit_once backslash (r ! 0) of Some (p, _) \<Rightarrow> Inr p | None \<Rightarrow> invalid ''File has no parent path'')"

lemma rsplit_once_shorter: "rsplit_once c s = Some (p, n) \<Longrightarrow> length p < length s"
  by (auto simp: rsplit_once_def Let_def split: if_splits)

function shorten_common :: "(string \<Rightarrow> string) \<Rightarrow> string \<Rightarrow> string \<Rightarrow> io_failure + string" where
  "shorten_common lowercase parent common =
    (if eq_ignore_ascii_case parent common \<or> is_descendant lowercase parent common then Inr common
     else case rsplit_once backslash common of
       Some (p, _) \<Rightarrow> shorten_common lowercase parent p
     | None \<Rightarrow> invalid ''CSV spans unrelated volumes'')"
  by pat_completeness auto
termination
  by (relation "measure (\<lambda>(l, parent, common). length common)") (auto dest: rsplit_once_shorter)

fun common_parent :: "(string \<Rightarrow> string) \<Rightarrow> bool \<Rightarrow> string \<Rightarrow> string list list \<Rightarrow> io_failure + string" where
  "common_parent lowercase multiple common [] = Inr common"
| "common_parent lowercase multiple common (row # rows) =
    rbind (row_parent row) (\<lambda>parent.
    rbind (if multiple then Inr common else shorten_common lowercase parent common) (\<lambda>common.
    common_parent lowercase multiple common rows))"

function insert_ancestors :: "string \<Rightarrow> string list \<Rightarrow> string \<Rightarrow> path_ids \<Rightarrow> io_failure + path_ids" where
  "insert_ancestors common tops path ids =
    (let ids = (if map_of ids path = None then insert_path path ids else ids)
     in if eq_ignore_ascii_case path common \<or> path \<in> set tops then Inr ids
        else case rsplit_once backslash path of
          Some (p, _) \<Rightarrow> insert_ancestors common tops p ids
        | None \<Rightarrow> invalid ''Invalid directory hierarchy'')"
  by pat_completeness auto
termination
  by (relation "measure (\<lambda>(common, tops, path, ids). length path)") (auto dest: rsplit_once_shorter)

fun insert_all_ancestors :: "string \<Rightarrow> string list \<Rightarrow> string list list \<Rightarrow> path_ids \<Rightarrow> io_failure + path_ids" where
  "insert_all_ancestors common tops [] ids = Inr ids"
| "insert_all_ancestors common tops (row # rows) ids =
    (case (if row ! 1 = ''Directory'' then Some (row ! 0) else map_option fst (rsplit_once backslash (row ! 0))) of
       None \<Rightarrow> Inl Panics
     | Some path \<Rightarrow> rbind (insert_ancestors common tops path ids) (insert_all_ancestors common tops rows))"

section \<open>Records\<close>

definition import_directory :: "path_ids \<Rightarrow> bool \<Rightarrow> string \<Rightarrow> string list \<Rightarrow> string \<times> u64 \<Rightarrow> directory_record" where
  "import_directory ids multiple common tops = (\<lambda>(path, i).
    \<lparr>d_id = i,
     d_parent_directory_id = option_or (Option.bind (rsplit_once backslash path) (\<lambda>(p, _). map_of ids p))
       (if multiple \<and> path \<noteq> common then map_of ids common else None),
     d_name = (if path \<in> set tops then path
       else case rsplit_once backslash path of Some (_, name) \<Rightarrow> name | None \<Rightarrow> path),
     d_full_path = (if length path = 2 \<and> ends_with_char path (CHR '':'') then path @ [backslash] else path),
     d_direct_bytes = 0, d_total_bytes = 0, d_direct_entries = 0, d_total_entries = 0\<rparr>)"

definition import_file ::
  "path_ids \<Rightarrow> bool \<Rightarrow> (string \<rightharpoonup> imported_metadata) \<Rightarrow> nat \<Rightarrow> string list \<Rightarrow> io_failure + file_record" where
  "import_file ids allow_legacy_ticks metadata ordinal row =
    (if row ! 1 \<noteq> ''File'' then invalid ''Unknown record kind''
     else case rsplit_once backslash (row ! 0) of
       None \<Rightarrow> invalid ''File has no parent path''
     | Some (parent, name) \<Rightarrow>
       (case map_of ids parent of
          None \<Rightarrow> invalid ''Missing parent directory''
        | Some parent \<Rightarrow>
          let details = metadata (row ! 0) in
          (case parse_u64 (row ! 2) of
             None \<Rightarrow> invalid ''Invalid logical bytes''
           | Some logical \<Rightarrow>
             (case parse_u64 (row ! 3) of
                None \<Rightarrow> invalid ''Invalid allocated bytes''
              | Some allocation \<Rightarrow>
                rbind (if row ! 6 = [] then Inr None
                       else rbind (import_timestamp (row ! 6) allow_legacy_ticks) (\<lambda>t. Inr (Some t))) (\<lambda>modified.
                Inr \<lparr>f_id = word_of_nat ordinal + 1, f_parent_directory_id = parent, f_name = name,
                  f_full_path = row ! 0, f_size_bytes = logical, f_allocation_bytes = allocation,
                  f_attributes = (case Option.bind details im_attributes of Some a \<Rightarrow> a | None \<Rightarrow> ARCHIVE),
                  f_timestamps = timestamps_new (Option.bind details im_created) modified
                    (Option.bind details im_accessed)\<rparr>)))))"

fun import_files ::
  "path_ids \<Rightarrow> bool \<Rightarrow> (string \<rightharpoonup> imported_metadata) \<Rightarrow> (file_records \<Rightarrow> nat) \<Rightarrow> nat \<Rightarrow> string list list
    \<Rightarrow> buffered_index_transaction \<Rightarrow> io_failure + buffered_index_transaction" where
  "import_files ids legacy metadata capacity ordinal [] tx = Inr tx"
| "import_files ids legacy metadata capacity ordinal (row # rows) tx =
    (if row ! 1 = ''Directory'' then import_files ids legacy metadata capacity (ordinal + 1) rows tx
     else rbind (import_file ids legacy metadata ordinal row) (\<lambda>file.
       import_files ids legacy metadata capacity (ordinal + 1) rows (upsert_file capacity file tx)))"

section \<open>The tree\<close>

definition attach_metadata :: "(string \<rightharpoonup> imported_metadata) \<Rightarrow> tree_index \<Rightarrow> tree_index" where
  "attach_metadata metadata t =
    foldl (\<lambda>t' file. case metadata (file_display_path t file) of
        None \<Rightarrow> t'
      | Some m \<Rightarrow> let value = im_export m in
          if em_owner value \<noteq> None \<or> em_file_identity value \<noteq> None \<or> em_volume_identity value \<noteq> None
             \<or> em_link_count value \<noteq> None
          then set_file_export_metadata (f_id file) value t' else t') t (tr_files t)"

text \<open>The totals of every directory row against the tree's rollups.\<close>

fun check_totals :: "path_ids \<Rightarrow> tree_index \<Rightarrow> string list list \<Rightarrow> io_failure + unit" where
  "check_totals ids t [] = Inr ()"
| "check_totals ids t (row # rows) =
    (case map_of ids (row ! 0) of
       None \<Rightarrow> Inl Panics
     | Some i \<Rightarrow>
       (case rollup_for t i of
          None \<Rightarrow> invalid ''Disconnected directory''
        | Some totals \<Rightarrow>
          if Some (ru_logical_bytes totals) \<noteq> parse_u64 (row ! 2) \<or> Some (ru_physical_bytes totals) \<noteq> parse_u64 (row ! 3)
             \<or> Some (ru_file_count totals) \<noteq> parse_u64 (row ! 4)
          then invalid ''Incomplete directory-only CSV: export individual files''
          else check_totals ids t rows))"

record import_choices =
  ic_lowercase :: "string \<Rightarrow> string"
  ic_order :: "path_ids \<Rightarrow> path_ids"
  ic_capacity :: "file_records \<Rightarrow> nat"
  ic_sort_directories :: "(u64 \<times> nat) list \<Rightarrow> (u64 \<times> nat) list"
  ic_sort_files :: "(u64 \<times> nat) list \<Rightarrow> (u64 \<times> nat) list"

definition import_transaction ::
  "import_choices \<Rightarrow> path_ids \<Rightarrow> bool \<Rightarrow> string \<Rightarrow> string list \<Rightarrow> string list list \<Rightarrow> bool \<Rightarrow> (string \<rightharpoonup> imported_metadata)
    \<Rightarrow> io_failure + buffered_index_transaction" where
  "import_transaction ch ids multiple common tops rows legacy metadata =
    (let tx = reserve (length (filter (\<lambda>r. r ! 1 = ''File'') rows)) transaction_default;
         tx = foldl (\<lambda>tx entry. upsert_directory (import_directory ids multiple common tops entry) tx) tx (ic_order ch ids)
     in import_files ids legacy metadata (ic_capacity ch) 0 rows tx)"

definition build_import_metadata ::
  "import_choices \<Rightarrow> string list list \<Rightarrow> bool \<Rightarrow> (string \<rightharpoonup> imported_metadata) \<Rightarrow> io_failure + tree_index" where
  "build_import_metadata ch rows legacy metadata =
    (let rows = map trim_directory_row (drop 1 rows) in
     rbind (check_rows (ic_lowercase ch) {} [] rows) (\<lambda>ids.
     let multiple = (map_of ids multiple_roots_path \<noteq> None);
         tops = (if multiple then top_roots (ic_lowercase ch) ids else [])
     in if rows = [] then invalid ''No scan records'' else
     rbind (row_parent (hd rows)) (\<lambda>first.
     rbind (common_parent (ic_lowercase ch) multiple (if multiple then multiple_roots_path else first) (tl rows)) (\<lambda>common.
     rbind (insert_all_ancestors common tops rows ids) (\<lambda>ids.
     rbind (import_transaction ch ids multiple common tops rows legacy metadata) (\<lambda>tx.
     case tree_build (ic_sort_directories ch) (ic_sort_files ch) tx of
       None \<Rightarrow> Inl Panics
     | Some t \<Rightarrow>
         let t = attach_metadata metadata t in
         if tree_root t = None then invalid ''No scan records''
         else rbind (check_totals ids t (filter (\<lambda>row. row ! 1 = ''Directory'') rows)) (\<lambda>_. Inr t)))))))"

section \<open>Delimited text\<close>

definition optional_time :: "string \<Rightarrow> io_failure + i64 option" where
  "optional_time s =
    (if s = [] then Inr None
     else case parse_i64 s of
       None \<Rightarrow> invalid ''Invalid detailed timestamp''
     | Some v \<Rightarrow> rbind (unix_to_ticks v) (\<lambda>t. Inr (Some t)))"

definition optional_number :: "string \<Rightarrow> io_failure + string option" where
  "optional_number s =
    (if s = [] then Inr None
     else if parse_unsigned (2 ^ 128 - 1) s = None then invalid ''Invalid detailed identity''
     else Inr (Some s))"

definition detailed_metadata_row :: "string list \<Rightarrow> io_failure + imported_metadata" where
  "detailed_metadata_row row =
    rbind (optional_number (row ! 11)) (\<lambda>volume.
    if (case volume of Some v \<Rightarrow> parse_u64 v = None | None \<Rightarrow> False) then invalid ''Invalid volume identity''
    else case parse_u32 (row ! 7) of
      None \<Rightarrow> invalid ''Invalid attributes''
    | Some attributes \<Rightarrow>
      rbind (optional_time (row ! 8)) (\<lambda>created.
      rbind (optional_time (row ! 9)) (\<lambda>accessed.
      rbind (optional_number (row ! 12)) (\<lambda>file_identity.
      rbind (if row ! 13 = [] then Inr None
             else case parse_u32 (row ! 13) of None \<Rightarrow> invalid ''Invalid link count'' | Some n \<Rightarrow> Inr (Some n)) (\<lambda>links.
      Inr \<lparr>im_attributes = Some attributes, im_created = created, im_accessed = accessed,
        im_export = \<lparr>em_owner = (if row ! 10 \<noteq> [] then Some (row ! 10) else None), em_volume_identity = volume,
          em_file_identity = file_identity, em_link_count = links\<rparr>\<rparr>)))))"

fun detailed_rows ::
  "string list list \<Rightarrow> (string \<rightharpoonup> imported_metadata) \<Rightarrow> io_failure + string list list \<times> (string \<rightharpoonup> imported_metadata)" where
  "detailed_rows [] metadata = Inr ([], metadata)"
| "detailed_rows (row # rows) metadata =
    (if length row \<noteq> 14 then invalid ''Wrong number of detailed CSV fields''
     else rbind (if row ! 1 = ''File''
                 then rbind (detailed_metadata_row row) (\<lambda>m. Inr (metadata(row ! 0 \<mapsto> m)))
                 else Inr metadata) (\<lambda>metadata.
       rbind (detailed_rows rows metadata) (\<lambda>(rest, metadata). Inr (take 7 row # rest, metadata))))"

definition windirstat_captions :: "string list" where
  "windirstat_captions = [''Name'', ''Files'', ''Folders'', ''Logical Size'', ''Physical Size'', ''Attributes'',
     ''Last Change'', ''WinDirStat Attributes'', ''Index'']"

definition caption_positions :: "string list \<Rightarrow> string \<Rightarrow> nat list" where
  "caption_positions header caption = filter (\<lambda>i. eq_ignore_ascii_case (header ! i) caption) [0..<length header]"

text \<open>Columns in any order are brought to the fixed order, the owner last.\<close>

definition reorder_columns :: "string list list \<Rightarrow> io_failure + string list list" where
  "reorder_columns rows =
    (let header = hd rows in
     if list_all (\<lambda>caption. list_ex (\<lambda>value. eq_ignore_ascii_case value caption) header) windirstat_captions then
       rbind (map_rows (\<lambda>caption. case caption_positions header caption of
           [i] \<Rightarrow> Inr i | _ \<Rightarrow> invalid ''Duplicate CSV column'') windirstat_captions) (\<lambda>mapping.
       let mapping = mapping @ take 1 (caption_positions header ''Owner'')
       in map_rows (\<lambda>row. if length row \<noteq> length header then invalid ''Wrong number of CSV fields''
            else Inr (map (\<lambda>i. row ! i) mapping)) rows)
     else Inr rows)"

definition is_foreign_windirstat :: "string list list \<Rightarrow> bool" where
  "is_foreign_windirstat rows =
    (let header = hd rows in
     (header \<noteq> [] \<and> hd header = ''Name'')
     \<or> (length header \<in> {9, 10} \<and> list_ex (\<lambda>caption. find_sub ''WinDirStat'' caption \<noteq> None) header
        \<and> length rows > 1 \<and> length (rows ! 1) > 7 \<and> take 2 (rows ! 1 ! 7) = ''0x''
        \<and> parse_hex (2 ^ 32 - 1) (drop 2 (rows ! 1 ! 7)) \<noteq> None))"

definition is_summary_header :: "string list \<Rightarrow> bool" where
  "is_summary_header header \<longleftrightarrow> header = [''Path'', ''Kind'', ''LogicalBytes'', ''AllocatedBytes'', ''Files'',
     ''Directories'', ''ModifiedUnixSeconds'']"

definition byte_order_mark :: string where
  "byte_order_mark = [CHR 0xEF, CHR 0xBB, CHR 0xBF]"

definition import_rows_of ::
  "import_choices \<Rightarrow> (i64 \<Rightarrow> io_failure + i64) \<Rightarrow> csv_time_zone \<Rightarrow> string list list \<Rightarrow> (string \<rightharpoonup> imported_metadata)
    \<Rightarrow> io_failure + tree_index" where
  "import_rows_of ch local_to_utc timezone rows detailed =
    (let header = hd rows; first = (case header of [] \<Rightarrow> None | caption # _ \<Rightarrow> Some caption);
         foreign_windirstat = is_foreign_windirstat rows
     in if first = Some ''Path'' \<and> \<not> is_summary_header header then invalid ''Invalid WinBlaze CSV header''
        else if \<not> foreign_windirstat \<and> first \<notin> {Some ''Path'', Some ''Name'', Some ''File Name''}
          then invalid ''Unsupported CSV schema''
        else
          let metadata = (if foreign_windirstat then windirstat_metadata rows else detailed) in
          rbind (if foreign_windirstat then windirstat rows
                 else if first = Some ''File Name'' then wiztree rows local_to_utc timezone
                 else Inr rows) (\<lambda>rows.
          build_import_metadata ch rows (first = Some ''Path'') metadata))"

definition read_delimited ::
  "import_choices \<Rightarrow> string \<Rightarrow> (i64 \<Rightarrow> io_failure + i64) \<Rightarrow> csv_time_zone \<Rightarrow> char \<Rightarrow> io_failure + tree_index" where
  "read_delimited ch input local_to_utc timezone delimiter =
    (if \<not> is_str input then invalid ''stream did not contain valid UTF-8''
     else rbind (csv_rows delimiter (trim_start_matches byte_order_mark input)) (\<lambda>rows.
       let rows = (case rows of (caption # _) # rest \<Rightarrow>
                       if take 21 caption = ''Generated by WizTree '' then rest else rows
                   | _ \<Rightarrow> rows)
       in rbind (if rows \<noteq> [] \<and> hd rows = detailed_header
                 then rbind (detailed_rows (tl rows) Map.empty) (\<lambda>(rest, metadata). Inr (take 7 (hd rows) # rest, metadata))
                 else Inr (rows, Map.empty)) (\<lambda>(rows, metadata).
          if rows = [] then invalid ''Empty CSV''
          else rbind (reorder_columns rows) (\<lambda>rows. import_rows_of ch local_to_utc timezone rows metadata))))"

definition read_csv :: "import_choices \<Rightarrow> string \<Rightarrow> io_failure + tree_index" where
  "read_csv ch input =
    read_delimited ch input (\<lambda>_. invalid ''WizTree dates require the exporting computer's timezone'') Local (CHR '','')"

definition read_csv_with_timezone ::
  "import_choices \<Rightarrow> string \<Rightarrow> (i64 \<Rightarrow> io_failure + i64) \<Rightarrow> csv_time_zone \<Rightarrow> io_failure + tree_index" where
  "read_csv_with_timezone ch input local_to_utc timezone = read_delimited ch input local_to_utc timezone (CHR '','')"

definition read_tsv_with_timezone ::
  "import_choices \<Rightarrow> string \<Rightarrow> (i64 \<Rightarrow> io_failure + i64) \<Rightarrow> csv_time_zone \<Rightarrow> io_failure + tree_index" where
  "read_tsv_with_timezone ch input local_to_utc timezone = read_delimited ch input local_to_utc timezone (CHR 0x09)"

section \<open>JSON\<close>

text \<open>What the JSON library makes of a document is a parameter of the reader.\<close>

record json_entry =
  je_path :: string
  je_kind :: string
  je_logical_bytes :: u64
  je_allocated_bytes :: u64
  je_files :: u64
  je_directories :: u64
  je_modified_unix_seconds :: "i64 option"
  je_attributes :: "u32 option"
  je_created_unix_seconds :: "i64 option"
  je_accessed_unix_seconds :: "i64 option"
  je_owner :: "string option"
  je_volume_identity :: "string option"
  je_file_identity :: "string option"
  je_link_count :: "u32 option"

record windirstat_entry =
  we_path :: string
  we_files :: u64
  we_folders :: u64
  we_logical :: u64
  we_physical :: u64
  we_attributes :: string
  we_modified :: string
  we_flags :: string
  we_index :: string
  we_owner :: "string option"

datatype json_value = JsonNumber u64 | JsonString string | JsonOther

datatype json_document =
  WinBlaze u32 "json_entry list"
| WinDirStat "windirstat_entry list"
| LocalizedWinDirStat "(string \<times> json_value) list list"

definition localized_field :: "nat \<Rightarrow> json_value \<Rightarrow> io_failure + string" where
  "localized_field index value =
    (if 1 \<le> index \<and> index \<le> 4
     then (case value of JsonNumber n \<Rightarrow> Inr (decimal_u64 n) | _ \<Rightarrow> invalid ''Invalid JSON byte/count field'')
     else (case value of JsonString s \<Rightarrow> Inr s | _ \<Rightarrow> invalid ''Invalid JSON text field''))"

fun localized_rows :: "string list option \<Rightarrow> (string \<times> json_value) list list \<Rightarrow> io_failure + string list list" where
  "localized_rows captions [] = Inr []"
| "localized_rows captions (entry # entries) =
    (if length entry \<notin> {9, 10} \<or> find_sub ''WinDirStat'' (fst (entry ! 7)) = None
       then invalid ''Unsupported localized WinDirStat JSON schema''
     else if captions \<noteq> None \<and> captions \<noteq> Some (map fst entry) then invalid ''Inconsistent localized JSON columns''
     else rbind (map_rows (\<lambda>(index, value). localized_field index value) (enumerate 0 (map snd entry))) (\<lambda>row.
       rbind (localized_rows (Some (map fst entry)) entries) (\<lambda>rows. Inr (row # rows))))"

definition localized_windirstat_json ::
  "import_choices \<Rightarrow> (string \<times> json_value) list list \<Rightarrow> io_failure + tree_index" where
  "localized_windirstat_json ch entries =
    (let width = (case entries of [] \<Rightarrow> 9 | entry # _ \<Rightarrow> length entry) in
     rbind (localized_rows None entries) (\<lambda>rows.
     let rows = replicate width [] # rows in
     rbind (windirstat rows) (\<lambda>out. build_import_metadata ch out False (windirstat_metadata rows))))"

definition windirstat_json_row :: "windirstat_entry \<Rightarrow> io_failure + string list" where
  "windirstat_json_row e =
    (if parse_hex (2 ^ 64 - 1) (trim_start_matches ''0x'' (we_index e)) = None then invalid ''Invalid WinDirStat index''
     else Inr [we_path e, decimal_u64 (we_files e), decimal_u64 (we_folders e), decimal_u64 (we_logical e),
       decimal_u64 (we_physical e), we_attributes e, we_modified e, we_flags e, we_index e,
       (case we_owner e of Some o' \<Rightarrow> o' | None \<Rightarrow> [])])"

definition winblaze_json_metadata :: "json_entry \<Rightarrow> io_failure + imported_metadata" where
  "winblaze_json_metadata e =
    (let ticks = (\<lambda>time. case time of None \<Rightarrow> Inr None | Some v \<Rightarrow> rbind (unix_to_ticks v) (\<lambda>t. Inr (Some t))) in
     rbind (ticks (je_created_unix_seconds e)) (\<lambda>created.
     rbind (ticks (je_accessed_unix_seconds e)) (\<lambda>accessed.
     Inr \<lparr>im_attributes = je_attributes e, im_created = created, im_accessed = accessed,
       im_export = \<lparr>em_owner = je_owner e, em_volume_identity = je_volume_identity e,
         em_file_identity = je_file_identity e, em_link_count = je_link_count e\<rparr>\<rparr>)))"

definition winblaze_json_row :: "json_entry \<Rightarrow> string list" where
  "winblaze_json_row e =
    [je_path e, je_kind e, decimal_u64 (je_logical_bytes e), decimal_u64 (je_allocated_bytes e), decimal_u64 (je_files e),
     decimal_u64 (je_directories e), (case je_modified_unix_seconds e of Some v \<Rightarrow> decimal_i64 v | None \<Rightarrow> [])]"

fun winblaze_json_rows ::
  "json_entry list \<Rightarrow> (string \<rightharpoonup> imported_metadata) \<Rightarrow> io_failure + string list list \<times> (string \<rightharpoonup> imported_metadata)" where
  "winblaze_json_rows [] metadata = Inr ([], metadata)"
| "winblaze_json_rows (e # es) metadata =
    (if (case je_volume_identity e of Some v \<Rightarrow> parse_u64 v = None | None \<Rightarrow> False)
        \<or> (case je_file_identity e of Some v \<Rightarrow> parse_unsigned (2 ^ 128 - 1) v = None | None \<Rightarrow> False)
     then invalid ''Invalid physical identity metadata''
     else rbind (if je_kind e = ''File''
                 then rbind (winblaze_json_metadata e) (\<lambda>m. Inr (metadata(je_path e \<mapsto> m))) else Inr metadata) (\<lambda>metadata.
       rbind (winblaze_json_rows es metadata) (\<lambda>(rows, metadata). Inr (winblaze_json_row e # rows, metadata))))"

definition read_json ::
  "(string \<Rightarrow> io_failure + json_document) \<Rightarrow> import_choices \<Rightarrow> string \<Rightarrow> io_failure + tree_index" where
  "read_json parse ch input =
    rbind (parse input) (\<lambda>document. case document of
      LocalizedWinDirStat entries \<Rightarrow> localized_windirstat_json ch entries
    | WinDirStat entries \<Rightarrow>
        rbind (map_rows windirstat_json_row entries) (\<lambda>rows.
        let rows = replicate 10 [] # rows in
        rbind (windirstat rows) (\<lambda>out. build_import_metadata ch out False (windirstat_metadata rows)))
    | WinBlaze version entries \<Rightarrow>
        if version \<noteq> 1 then invalid ''Unsupported JSON scan version''
        else rbind (winblaze_json_rows entries Map.empty) (\<lambda>(rows, metadata).
          build_import_metadata ch ([''Path''] # rows) False metadata))"

end
