(* ===== verification/Multiple_Roots.thy ===== *)
theory Multiple_Roots
  imports Import_Tree
begin

text \<open>
  Several scans under one artificial root, \<open>WinBlaze.Index/src/multiple_roots.rs\<close>. The callback that may
  change the record of a file is a parameter with a state; \<open>lowercase\<close> is \<open>str::to_lowercase\<close>. Record numbers
  are counted in \<open>u64\<close>.
\<close>

section \<open>Checking the roots\<close>

definition starts_with :: "string \<Rightarrow> string \<Rightarrow> bool" where
  "starts_with s p \<longleftrightarrow> take (length p) s = p"

fun check_roots :: "(string \<Rightarrow> string) \<Rightarrow> string list \<Rightarrow> tree_index list \<Rightarrow> io_failure + unit" where
  "check_roots lowercase roots [] = Inr ()"
| "check_roots lowercase roots (scan # scans) =
    (case tree_root scan of
       None \<Rightarrow> Inl (InvalidInput ''Empty scan root'')
     | Some (root, _) \<Rightarrow>
         let path = lowercase (trim_end_matches backslash (d_full_path root))
         in if path = lowercase multiple_roots_path
              \<or> list_ex (\<lambda>prior. prior = path \<or> starts_with prior (path @ [backslash])
                    \<or> starts_with path (prior @ [backslash])) roots
            then Inl (InvalidInput ''Duplicate or overlapping scan roots'')
            else check_roots lowercase (roots @ [path]) scans)"

section \<open>Moving the records of a scan\<close>

record 's combination =
  cb_tx :: buffered_index_transaction
  cb_supplemental :: "(u64 \<times> file_export_metadata) list"
  cb_next_directory :: u64
  cb_next_file :: u64
  cb_next_volume :: u64
  cb_callback :: 's

definition number_directory :: "(u64 \<rightharpoonup> u64) \<times> u64 \<Rightarrow> directory_record \<Rightarrow> (u64 \<rightharpoonup> u64) \<times> u64" where
  "number_directory = (\<lambda>(ids, next_directory) d. (ids(d_id d \<mapsto> next_directory), next_directory + 1))"

definition combine_volume :: "(u64 \<rightharpoonup> u64) \<Rightarrow> u64 \<Rightarrow> 's combination \<Rightarrow> volume_record \<Rightarrow> 's combination" where
  "combine_volume ids source_root c volume =
    (let volume = volume\<lparr>v_id := cb_next_volume c,
         v_root_directory_id := (case ids (v_root_directory_id volume) of Some i \<Rightarrow> i | None \<Rightarrow> source_root)\<rparr>
     in c\<lparr>cb_next_volume := cb_next_volume c + 1, cb_tx := upsert_volume volume (cb_tx c)\<rparr>)"

text \<open>Every directory of the scan has been numbered, so the lookup of its own id does not panic.\<close>

definition renumbered_directory :: "(u64 \<rightharpoonup> u64) \<Rightarrow> directory_record \<Rightarrow> directory_record" where
  "renumbered_directory ids d =
    (let d = (if d_parent_directory_id d = None then d\<lparr>d_name := d_full_path d\<rparr> else d)
     in d\<lparr>d_id := the (ids (d_id d)),
          d_parent_directory_id := Some (case Option.bind (d_parent_directory_id d) ids of Some i \<Rightarrow> i | None \<Rightarrow> 0)\<rparr>)"

definition combine_directory :: "(u64 \<rightharpoonup> u64) \<Rightarrow> 's combination \<Rightarrow> directory_record \<Rightarrow> 's combination" where
  "combine_directory ids c d = c\<lparr>cb_tx := upsert_directory (renumbered_directory ids d) (cb_tx c)\<rparr>"

type_synonym 's file_callback = "'s \<Rightarrow> tree_index \<Rightarrow> file_record \<Rightarrow> file_record \<times> 's"

definition combine_file ::
  "(file_records \<Rightarrow> nat) \<Rightarrow> 's file_callback \<Rightarrow> tree_index \<Rightarrow> (u64 \<rightharpoonup> u64) \<Rightarrow> 's combination \<Rightarrow> file_record
    \<Rightarrow> io_failure + 's combination" where
  "combine_file capacity metadata scan ids c f =
    (let (file, callback) = metadata (cb_callback c) scan f;
         c = c\<lparr>cb_callback := callback\<rparr>;
         c = (case file_export_metadata_of scan (f_id file) of
                Some value \<Rightarrow> c\<lparr>cb_supplemental := cb_supplemental c @ [(cb_next_file c, value)]\<rparr> | None \<Rightarrow> c);
         file = file\<lparr>f_id := cb_next_file c\<rparr>;
         c = c\<lparr>cb_next_file := cb_next_file c + 1\<rparr>
     in case ids (f_parent_directory_id file) of
          None \<Rightarrow> invalid ''Missing file parent''
        | Some parent \<Rightarrow> Inr (c\<lparr>cb_tx := upsert_file capacity (file\<lparr>f_parent_directory_id := parent\<rparr>) (cb_tx c)\<rparr>))"

fun combine_files ::
  "(file_records \<Rightarrow> nat) \<Rightarrow> 's file_callback \<Rightarrow> tree_index \<Rightarrow> (u64 \<rightharpoonup> u64) \<Rightarrow> file_record list \<Rightarrow> 's combination
    \<Rightarrow> io_failure + 's combination" where
  "combine_files capacity metadata scan ids [] c = Inr c"
| "combine_files capacity metadata scan ids (f # fs) c =
    rbind (combine_file capacity metadata scan ids c f) (combine_files capacity metadata scan ids fs)"

definition combine_scan ::
  "(file_records \<Rightarrow> nat) \<Rightarrow> 's file_callback \<Rightarrow> tree_index \<Rightarrow> 's combination \<Rightarrow> io_failure + 's combination" where
  "combine_scan capacity metadata scan c =
    (let (ids, next_directory) = foldl number_directory (Map.empty, cb_next_directory c) (tr_directories scan);
         c = c\<lparr>cb_next_directory := next_directory\<rparr>
     in case Option.bind (tree_root scan) (\<lambda>(root, _). ids (d_id root)) of
          None \<Rightarrow> Inl Panics
        | Some source_root \<Rightarrow>
            let c = foldl (combine_volume ids source_root) c (tr_volumes scan);
                c = foldl (combine_directory ids) c (tr_directories scan)
            in combine_files capacity metadata scan ids (tr_files scan) c)"

fun combine_scans ::
  "(file_records \<Rightarrow> nat) \<Rightarrow> 's file_callback \<Rightarrow> tree_index list \<Rightarrow> 's combination \<Rightarrow> io_failure + 's combination" where
  "combine_scans capacity metadata [] c = Inr c"
| "combine_scans capacity metadata (scan # scans) c =
    rbind (combine_scan capacity metadata scan c) (combine_scans capacity metadata scans)"

section \<open>The combined tree\<close>

definition multiple_root :: directory_record where
  "multiple_root = \<lparr>d_id = 0, d_parent_directory_id = None, d_name = ''Multiple roots'',
     d_full_path = multiple_roots_path, d_direct_bytes = 0, d_total_bytes = 0, d_direct_entries = 0, d_total_entries = 0\<rparr>"

definition combination_start :: "'s \<Rightarrow> tree_index list \<Rightarrow> 's combination" where
  "combination_start s scans =
    \<lparr>cb_tx = upsert_directory multiple_root (reserve (sum_list (map (\<lambda>scan. length (tr_files scan)) scans)) transaction_default),
     cb_supplemental = [], cb_next_directory = 1, cb_next_file = 1, cb_next_volume = 1, cb_callback = s\<rparr>"

definition combine_with :: "import_choices \<Rightarrow> 's file_callback \<Rightarrow> 's \<Rightarrow> tree_index list \<Rightarrow> io_failure + tree_index" where
  "combine_with ch metadata s scans =
    (if scans = [] then Inl (InvalidInput ''No scan roots'')
     else rbind (check_roots (ic_lowercase ch) [] scans) (\<lambda>_.
       rbind (combine_scans (ic_capacity ch) metadata scans (combination_start s scans)) (\<lambda>c.
         case tree_build (ic_sort_directories ch) (ic_sort_files ch) (cb_tx c) of
           None \<Rightarrow> Inl Panics
         | Some combined \<Rightarrow> Inr (foldl (\<lambda>t (i, value). set_file_export_metadata i value t) combined (cb_supplemental c)))))"

definition combine :: "import_choices \<Rightarrow> tree_index list \<Rightarrow> io_failure + tree_index" where
  "combine ch scans = combine_with ch (\<lambda>s _ file. (file, s)) () scans"

section \<open>Numbering\<close>

definition scan_ids :: "nat \<Rightarrow> directory_record list \<Rightarrow> u64 \<rightharpoonup> u64" where
  "scan_ids n ds = fst (foldl number_directory (Map.empty, word_of_nat n) ds)"

lemma number_next: "snd (foldl number_directory (m, n) ds) = n + word_of_nat (length ds)"
  by (induction ds arbitrary: m n) (simp_all add: number_directory_def)

lemma number_directories:
  "foldl number_directory (Map.empty, word_of_nat n) ds = (scan_ids n ds, word_of_nat (n + length ds))"
  using number_next [of Map.empty "word_of_nat n" ds] by (simp add: scan_ids_def prod_eq_iff)

lemma scan_ids_snoc: "scan_ids n (ds @ [d]) = (scan_ids n ds)(d_id d \<mapsto> word_of_nat (n + length ds))"
proof -
  have "foldl number_directory (Map.empty, word_of_nat n) (ds @ [d]) =
      number_directory (scan_ids n ds, word_of_nat (n + length ds)) d"
    by (simp only: foldl_append foldl.simps number_directories)
  then show ?thesis unfolding scan_ids_def [of n "ds @ [d]"] by (simp add: number_directory_def)
qed

lemma scan_ids_iff:
  assumes "distinct (map d_id ds)"
  shows "scan_ids n ds i = Some v \<longleftrightarrow> (\<exists>k<length ds. d_id (ds ! k) = i \<and> v = word_of_nat (n + k))"
  using assms
proof (induction ds arbitrary: v rule: rev_induct)
  case Nil
  then show ?case by (simp add: scan_ids_def)
next
  case (snoc d ds)
  have "d_id d \<notin> d_id ` set ds" using snoc.prems by simp
  then have other: "d_id (ds ! k) \<noteq> d_id d" if "k < length ds" for k
    using imageI [OF nth_mem [OF that], of d_id] by auto
  show ?case using other snoc by (auto simp: scan_ids_snoc nth_append less_Suc_eq)
qed

lemma scan_ids_own: "distinct (map d_id ds) \<Longrightarrow> k < length ds \<Longrightarrow> scan_ids n ds (d_id (ds ! k)) = Some (word_of_nat (n + k))"
  by (auto simp: scan_ids_iff)

lemma dom_scan_ids: "dom (scan_ids n ds) = d_id ` set ds"
proof (induction ds rule: rev_induct)
  case (snoc d ds)
  then show ?case unfolding scan_ids_snoc dom_fun_upd by simp
qed (simp add: scan_ids_def)

lemma scan_ids_None: "scan_ids n ds i = None \<longleftrightarrow> i \<notin> d_id ` set ds"
  by (metis dom_scan_ids domIff)

section \<open>Fresh records are appended\<close>

lemma positions_fresh:
  assumes "positions_ok key pos rs" "i \<notin> key ` set rs"
  shows "pos i = None"
proof (cases "pos i")
  case (Some p)
  then have "p < length rs" "key (rs ! p) = i" using arena_lookup_bound [OF assms(1)] by auto
  then show ?thesis using assms(2) by auto
qed

lemma dirs_insert_fresh:
  assumes "dirs_invar s" "d_id d \<notin> d_id ` set (dr_records s)"
  shows "dr_records (dirs_insert (d_id d) d s) = dr_records s @ [d]"
proof -
  have "dr_positions s (d_id d) = None"
    using assms by (auto simp: dirs_invar_def intro: positions_fresh)
  then show ?thesis by (simp add: dirs_insert_def)
qed

lemma files_insert_fresh:
  assumes "files_invar s" "f_id f \<notin> f_id ` set (fr_records s)"
  shows "fr_records (files_insert capacity (f_id f) f s) = fr_records s @ [f]"
proof -
  have "positions_get (fr_positions s) (f_id f) = None"
    using assms by (auto simp: files_invar_def intro: positions_fresh)
  then show ?thesis by (simp add: files_insert_def Let_def)
qed

text \<open>The state between two records: consecutive numbers have been given out.\<close>

definition numbered :: "directory_record list \<Rightarrow> file_record list \<Rightarrow> 's combination \<Rightarrow> bool" where
  "numbered D F c \<longleftrightarrow> dirs_invar (t_directories (cb_tx c)) \<and> files_invar (t_files (cb_tx c))
     \<and> dr_records (t_directories (cb_tx c)) = D \<and> fr_records (t_files (cb_tx c)) = F
     \<and> map d_id D = map word_of_nat [0..<length D] \<and> map f_id F = map (\<lambda>k. word_of_nat k + 1) [0..<length F]
     \<and> cb_next_file c = word_of_nat (length F) + 1"

lemma fresh_number:
  fixes key :: "'r \<Rightarrow> u64"
  assumes "map key rs = map (\<lambda>k. word_of_nat k + b) [0..<length rs]" "length rs < 2 ^ 64"
  shows "word_of_nat (length rs) + b \<notin> key ` set rs"
proof
  assume "word_of_nat (length rs) + b \<in> key ` set rs"
  then obtain k where k: "k < length rs" "key (rs ! k) = word_of_nat (length rs) + b" by (auto simp: in_set_conv_nth)
  have "map key rs ! k = word_of_nat k + b" unfolding assms(1) using k(1) by simp
  then have "(word_of_nat k :: u64) = word_of_nat (length rs)" using k by simp
  then show False using k(1) assms(2) by (simp add: word_of_nat_eq_iff take_bit_nat_eq_self)
qed

lemma numbered_directory:
  assumes "numbered D F c" "d_id d = word_of_nat (length D)" "length D < 2 ^ 64"
  shows "numbered (D @ [d]) F (c\<lparr>cb_tx := upsert_directory d (cb_tx c)\<rparr>)"
proof -
  have "d_id d \<notin> d_id ` set D"
    using fresh_number [of d_id D 0] assms by (simp add: numbered_def)
  then show ?thesis
    using assms dirs_insert_fresh [of "t_directories (cb_tx c)" d] dirs.invar_insert [of "t_directories (cb_tx c)" d]
    by (simp add: numbered_def upsert_directory_def)
qed

lemma numbered_file:
  assumes "numbered D F c" "f_id f = cb_next_file c" "length F < 2 ^ 64"
  shows "numbered D (F @ [f]) (c\<lparr>cb_next_file := cb_next_file c + 1, cb_tx := upsert_file capacity f (cb_tx c)\<rparr>)"
proof -
  have "f_id f \<notin> f_id ` set F"
    using fresh_number [of f_id F 1] assms by (simp add: numbered_def)
  then show ?thesis
    using assms files_insert_fresh [of "t_files (cb_tx c)" f capacity]
      files.invar_insert [of "t_files (cb_tx c)" capacity f]
    by (simp add: numbered_def upsert_file_def ac_simps)
qed

section \<open>One scan\<close>

abbreviation as_is :: "unit file_callback" where "as_is \<equiv> \<lambda>s _ file. (file, s)"

definition moved_files :: "(u64 \<rightharpoonup> u64) \<Rightarrow> nat \<Rightarrow> file_record list \<Rightarrow> file_record list" where
  "moved_files ids m fs =
    map (\<lambda>(k, f). f\<lparr>f_id := word_of_nat k + 1, f_parent_directory_id := the (ids (f_parent_directory_id f))\<rparr>) (enumerate m fs)"

lemma moved_files_simps [simp]:
  "moved_files ids m [] = []"
  "moved_files ids m (f # fs) =
     f\<lparr>f_id := word_of_nat m + 1, f_parent_directory_id := the (ids (f_parent_directory_id f))\<rparr> # moved_files ids (Suc m) fs"
  "length (moved_files ids m fs) = length fs"
  by (simp_all add: moved_files_def)

lemma renumbered_id [simp]: "d_id (renumbered_directory ids d) = the (ids (d_id d))"
  by (simp add: renumbered_directory_def Let_def)

lemma renumbered_path [simp]: "d_full_path (renumbered_directory ids d) = d_full_path d"
  by (simp add: renumbered_directory_def Let_def)

lemma combine_directories_numbered:
  assumes "numbered D F c" "length D + length ds \<le> 2 ^ 64"
    and "\<forall>k<length ds. ids (d_id (ds ! k)) = Some (word_of_nat (length D + k))"
  shows "numbered (D @ map (renumbered_directory ids) ds) F (foldl (combine_directory ids) c ds)
    \<and> cb_next_directory (foldl (combine_directory ids) c ds) = cb_next_directory c"
  using assms(2,3)
proof (induction ds rule: rev_induct)
  case Nil
  then show ?case using assms(1) by simp
next
  case (snoc d ds)
  have "\<forall>k<length ds. ids (d_id (ds ! k)) = Some (word_of_nat (length D + k))"
  proof (intro allI impI)
    fix k assume "k < length ds"
    then show "ids (d_id (ds ! k)) = Some (word_of_nat (length D + k))"
      using spec [OF snoc.prems(2), of k] by (simp add: nth_append)
  qed
  with snoc have IH: "numbered (D @ map (renumbered_directory ids) ds) F (foldl (combine_directory ids) c ds)
    \<and> cb_next_directory (foldl (combine_directory ids) c ds) = cb_next_directory c" by simp
  have "d_id (renumbered_directory ids d) = word_of_nat (length (D @ map (renumbered_directory ids) ds))"
    using spec [OF snoc.prems(2), of "length ds"] by simp
  from numbered_directory [OF conjunct1 [OF IH] this] snoc.prems(1) show ?case
    using IH by (simp add: combine_directory_def [of ids "foldl (combine_directory ids) c ds" d])
qed

lemma unit_callback [simp]: "c\<lparr>cb_callback := ()\<rparr> = c"
  by (cases c) simp

lemma combine_file_numbered:
  assumes "numbered D F c" "length F < 2 ^ 64" "ids (f_parent_directory_id f) = Some p"
  shows "\<exists>c'. combine_file capacity as_is scan ids c f = Inr c' \<and> numbered D (F @ moved_files ids (length F) [f]) c'
    \<and> cb_next_directory c' = cb_next_directory c"
proof -
  let ?c = "c\<lparr>cb_supplemental := (case file_export_metadata_of scan (f_id f) of
      Some value \<Rightarrow> cb_supplemental c @ [(cb_next_file c, value)] | None \<Rightarrow> cb_supplemental c)\<rparr>"
  have "numbered D F ?c" using assms(1) by (simp add: numbered_def)
  from numbered_file [OF this, of "f\<lparr>f_id := cb_next_file c, f_parent_directory_id := p\<rparr>" capacity] assms
  have n: "numbered D (F @ moved_files ids (length F) [f])
      (?c\<lparr>cb_next_file := cb_next_file c + 1,
         cb_tx := upsert_file capacity (f\<lparr>f_id := cb_next_file c, f_parent_directory_id := p\<rparr>) (cb_tx c)\<rparr>)"
    by (simp add: numbered_def)
  show ?thesis
    using assms(3) n by (cases "file_export_metadata_of scan (f_id f)") (simp_all add: combine_file_def Let_def)
qed

lemma combine_files_numbered:
  assumes "numbered D F c" "length F + length fs \<le> 2 ^ 64" "\<forall>f\<in>set fs. ids (f_parent_directory_id f) \<noteq> None"
  shows "\<exists>c'. combine_files capacity as_is scan ids fs c = Inr c' \<and> numbered D (F @ moved_files ids (length F) fs) c'
    \<and> cb_next_directory c' = cb_next_directory c"
  using assms
proof (induction fs arbitrary: c F)
  case (Cons f fs)
  then obtain p where "ids (f_parent_directory_id f) = Some p" by auto
  from combine_file_numbered [OF Cons.prems(1), of ids f p capacity scan] this Cons.prems(2)
  obtain c1 where c1: "combine_file capacity as_is scan ids c f = Inr c1"
    "numbered D (F @ moved_files ids (length F) [f]) c1" "cb_next_directory c1 = cb_next_directory c" by auto
  from Cons.IH [OF c1(2)] Cons.prems(2,3) c1 show ?case by auto
qed simp

lemma combine_files_missing:
  assumes "\<exists>f\<in>set fs. ids (f_parent_directory_id f) = None"
  shows "\<exists>e. combine_files capacity as_is scan ids fs c = Inl e"
  using assms
proof (induction fs arbitrary: c)
  case (Cons f fs)
  show ?case
  proof (cases "ids (f_parent_directory_id f)")
    case None
    then show ?thesis by (simp add: combine_file_def Let_def invalid_def split: option.splits)
  next
    case (Some p)
    then have "combine_file capacity as_is scan ids c f \<noteq> Inl e" for e
      by (simp add: combine_file_def Let_def)
    then obtain c1 where "combine_file capacity as_is scan ids c f = Inr c1"
      by (cases "combine_file capacity as_is scan ids c f") auto
    with Cons Some show ?thesis by auto
  qed
qed simp

section \<open>All scans\<close>

text \<open>A scan is a built tree with unique directory ids; the ids of a built tree's directories are found.\<close>

definition built_scan :: "tree_index \<Rightarrow> bool" where
  "built_scan scan \<longleftrightarrow> distinct (map d_id (tr_directories scan))
     \<and> (\<exists>volumes. tree_of_sorted volumes (tr_directories scan) (tr_files scan) = Some scan)"

definition parents_known :: "tree_index \<Rightarrow> bool" where
  "parents_known scan \<longleftrightarrow> (\<forall>f\<in>set (tr_files scan). f_parent_directory_id f \<in> d_id ` set (tr_directories scan))"

lemma tree_root_mem:
  assumes "built_scan scan" "tree_root scan = Some (root, r)"
  shows "root \<in> set (tr_directories scan)"
proof -
  obtain volumes where "tree_of_sorted volumes (tr_directories scan) (tr_files scan) = Some scan"
    using assms(1) by (auto simp: built_scan_def)
  note flds = tree_of_sorted_fields(4,5) [OF this]
  obtain i where i: "tr_root scan = Some i" "root = tr_directories scan ! i" using assms(2) by (auto simp: tree_root_def)
  then have "i < length (tr_directories scan)"
    using choose_root_bound [of "tr_directories scan" i] flds by simp
  then show ?thesis using i(2) by simp
qed

lemma combine_volumes_numbered:
  "numbered D F c \<Longrightarrow> numbered D F (foldl (combine_volume ids r) c vs)
    \<and> cb_next_directory (foldl (combine_volume ids r) c vs) = cb_next_directory c"
proof (induction vs arbitrary: c)
  case (Cons v vs)
  have "numbered D F (combine_volume ids r c v) \<and> cb_next_directory (combine_volume ids r c v) = cb_next_directory c"
    using Cons.prems by (simp add: combine_volume_def numbered_def upsert_volume_def Let_def)
  with Cons.IH [of "combine_volume ids r c v"] show ?case by simp
qed simp

abbreviation moved_directories :: "nat \<Rightarrow> tree_index \<Rightarrow> directory_record list" where
  "moved_directories n scan \<equiv> map (renumbered_directory (scan_ids n (tr_directories scan))) (tr_directories scan)"

lemma combine_scan_numbered:
  fixes D F scan
  defines "ds \<equiv> tr_directories scan" and "fs \<equiv> tr_files scan"
  assumes "numbered D F c" "cb_next_directory c = word_of_nat (length D)" "built_scan scan" "tree_root scan \<noteq> None"
    and "length D + length ds \<le> 2 ^ 64" "length F + length fs \<le> 2 ^ 64"
  shows "if parents_known scan
     then \<exists>c'. combine_scan capacity as_is scan c = Inr c'
       \<and> numbered (D @ moved_directories (length D) scan) (F @ moved_files (scan_ids (length D) ds) (length F) fs) c'
       \<and> cb_next_directory c' = word_of_nat (length (D @ moved_directories (length D) scan))
     else \<exists>e. combine_scan capacity as_is scan c = Inl e"
proof -
  let ?ids = "scan_ids (length D) ds"
  obtain root r where root: "tree_root scan = Some (root, r)" using assms(6) by auto
  have "root \<in> set ds" using tree_root_mem [OF assms(5) root] by (simp add: ds_def)
  then obtain source where source: "?ids (d_id root) = Some source"
    using scan_ids_None [of "length D" ds "d_id root"] by auto
  let ?c1 = "foldl (combine_volume ?ids source) (c\<lparr>cb_next_directory := word_of_nat (length D + length ds)\<rparr>) (tr_volumes scan)"
  let ?c2 = "foldl (combine_directory ?ids) ?c1 ds"
  have run: "combine_scan capacity as_is scan c = combine_files capacity as_is scan ?ids fs ?c2"
    using assms(4) root source number_directories [of "length D" ds]
    by (simp add: combine_scan_def ds_def fs_def Let_def)
  have "numbered D F (c\<lparr>cb_next_directory := word_of_nat (length D + length ds)\<rparr>)"
    using assms(3) by (simp add: numbered_def)
  from combine_volumes_numbered [OF this, of ?ids source "tr_volumes scan"]
  have c1: "numbered D F ?c1" "cb_next_directory ?c1 = word_of_nat (length D + length ds)" by simp_all
  have "distinct (map d_id ds)" using assms(5) by (simp add: built_scan_def ds_def)
  then have "\<forall>k<length ds. ?ids (d_id (ds ! k)) = Some (word_of_nat (length D + k))" by (simp add: scan_ids_own)
  from combine_directories_numbered [OF c1(1) assms(7) this] c1(2)
  have c2: "numbered (D @ moved_directories (length D) scan) F ?c2"
    "cb_next_directory ?c2 = word_of_nat (length (D @ moved_directories (length D) scan))"
    by (simp_all add: ds_def)
  have known: "parents_known scan \<longleftrightarrow> (\<forall>f\<in>set fs. ?ids (f_parent_directory_id f) \<noteq> None)"
    by (simp add: parents_known_def fs_def ds_def scan_ids_None)
  show ?thesis
  proof (cases "parents_known scan")
    case True
    with combine_files_numbered [OF c2(1) assms(8), of ?ids capacity scan] c2(2) known show ?thesis
      unfolding run by auto
  next
    case False
    with combine_files_missing [of fs ?ids capacity scan ?c2] known show ?thesis unfolding run by auto
  qed
qed

fun scans_directories :: "nat \<Rightarrow> tree_index list \<Rightarrow> directory_record list" where
  "scans_directories n [] = []"
| "scans_directories n (scan # scans) =
    moved_directories n scan @ scans_directories (n + length (tr_directories scan)) scans"

fun scans_files :: "nat \<Rightarrow> nat \<Rightarrow> tree_index list \<Rightarrow> file_record list" where
  "scans_files n m [] = []"
| "scans_files n m (scan # scans) =
    moved_files (scan_ids n (tr_directories scan)) m (tr_files scan)
    @ scans_files (n + length (tr_directories scan)) (m + length (tr_files scan)) scans"

lemma combine_scans_numbered:
  assumes "numbered D F c" "cb_next_directory c = word_of_nat (length D)"
    and "\<forall>scan\<in>set scans. built_scan scan \<and> tree_root scan \<noteq> None"
    and "length D + sum_list (map (\<lambda>scan. length (tr_directories scan)) scans) \<le> 2 ^ 64"
    and "length F + sum_list (map (\<lambda>scan. length (tr_files scan)) scans) \<le> 2 ^ 64"
  shows "if \<forall>scan\<in>set scans. parents_known scan
     then \<exists>c'. combine_scans capacity as_is scans c = Inr c'
       \<and> numbered (D @ scans_directories (length D) scans) (F @ scans_files (length D) (length F) scans) c'
     else \<exists>e. combine_scans capacity as_is scans c = Inl e"
  using assms
proof (induction scans arbitrary: c D F)
  case (Cons scan scans)
  let ?D = "D @ moved_directories (length D) scan"
  let ?F = "F @ moved_files (scan_ids (length D) (tr_directories scan)) (length F) (tr_files scan)"
  have step: "if parents_known scan
     then \<exists>c'. combine_scan capacity as_is scan c = Inr c' \<and> numbered ?D ?F c' \<and> cb_next_directory c' = word_of_nat (length ?D)
     else \<exists>e. combine_scan capacity as_is scan c = Inl e"
    by (rule combine_scan_numbered) (use Cons.prems in simp_all)
  show ?case
  proof (cases "parents_known scan")
    case True
    with step obtain c' where c': "combine_scan capacity as_is scan c = Inr c'" "numbered ?D ?F c'"
      "cb_next_directory c' = word_of_nat (length ?D)" by auto
    from Cons.IH [OF c'(2,3)] Cons.prems True c'(1) show ?thesis
      by (cases "\<forall>scan\<in>set scans. parents_known scan") auto
  next
    case False
    with step show ?thesis by auto
  qed
qed simp

section \<open>Paths\<close>

lemma directory_full_path_of:
  assumes "tree_of_sorted volumes (tr_directories t) (tr_files t) = Some t" "distinct (map d_id (tr_directories t))"
    and "k < length (tr_directories t)"
  shows "directory_full_path t (d_id (tr_directories t ! k)) = Some (d_full_path (tr_directories t ! k))"
proof -
  note flds = tree_of_sorted_fields(4) [OF assms(1)]
  obtain j where j: "directory_lookup_get (tr_lookup t) (d_id (tr_directories t ! k)) = Some j"
    using lookup_of_member [OF assms(3)] flds by auto
  then have "j < length (tr_directories t)" "d_id (tr_directories t ! j) = d_id (tr_directories t ! k)"
    using directory_lookup_bound lookup_key flds by auto
  then have "j = k" using assms(2,3) by (simp add: distinct_conv_nth) blast
  then show ?thesis using j by (simp add: directory_full_path_def)
qed

lemma moved_files_paths:
  assumes "built_scan scan" "built_scan t" "parents_known scan"
    and "tr_directories t = D @ moved_directories (length D) scan @ rest"
    and "map d_id (tr_directories t) = map word_of_nat [0..<length (tr_directories t)]"
    and "set fs \<subseteq> set (tr_files scan)"
  shows "map (\<lambda>f. (file_display_path t f, f_size_bytes f, f_allocation_bytes f))
      (moved_files (scan_ids (length D) (tr_directories scan)) m fs)
    = map (\<lambda>f. (file_display_path scan f, f_size_bytes f, f_allocation_bytes f)) fs"
  using assms(6)
proof (induction fs arbitrary: m)
  case (Cons f fs)
  let ?ds = "tr_directories scan"
  have "f_parent_directory_id f \<in> d_id ` set ?ds" using Cons.prems assms(3) by (simp add: parents_known_def)
  then obtain k where k: "k < length ?ds" "f_parent_directory_id f = d_id (?ds ! k)" by (auto simp: in_set_conv_nth)
  have ids: "scan_ids (length D) ?ds (f_parent_directory_id f) = Some (word_of_nat (length D + k))"
    using assms(1) k by (simp add: built_scan_def scan_ids_own)
  have nth: "tr_directories t ! (length D + k) = renumbered_directory (scan_ids (length D) ?ds) (?ds ! k)"
    "length D + k < length (tr_directories t)"
    using k(1) unfolding assms(4) by (simp_all add: nth_append)
  have "map d_id (tr_directories t) ! (length D + k) = word_of_nat (length D + k)"
    unfolding assms(5) using nth(2) by simp
  then have "d_id (tr_directories t ! (length D + k)) = word_of_nat (length D + k)" using nth(2) by simp
  moreover obtain volumes where "tree_of_sorted volumes (tr_directories t) (tr_files t) = Some t" "distinct (map d_id (tr_directories t))"
    using assms(2) by (auto simp: built_scan_def)
  ultimately have "directory_full_path t (word_of_nat (length D + k)) = Some (d_full_path (?ds ! k))"
    using directory_full_path_of [of volumes t "length D + k"] nth by simp
  moreover obtain volumes' where "tree_of_sorted volumes' ?ds (tr_files scan) = Some scan" "distinct (map d_id ?ds)"
    using assms(1) by (auto simp: built_scan_def)
  then have "directory_full_path scan (f_parent_directory_id f) = Some (d_full_path (?ds ! k))"
    using directory_full_path_of [of volumes' scan k] k by simp
  ultimately have "file_display_path t (f\<lparr>f_id := word_of_nat m + 1, f_parent_directory_id := word_of_nat (length D + k)\<rparr>)
      = file_display_path scan f"
    by (simp add: file_display_path_def)
  then show ?case using Cons ids by simp
qed simp

lemma scans_files_paths:
  assumes "built_scan t" "tr_directories t = D @ scans_directories (length D) scans"
    and "map d_id (tr_directories t) = map word_of_nat [0..<length (tr_directories t)]"
    and "\<forall>scan\<in>set scans. built_scan scan \<and> parents_known scan"
  shows "map (\<lambda>f. (file_display_path t f, f_size_bytes f, f_allocation_bytes f)) (scans_files (length D) m scans)
    = concat (map (\<lambda>scan. map (\<lambda>f. (file_display_path scan f, f_size_bytes f, f_allocation_bytes f)) (tr_files scan)) scans)"
  using assms(2,4)
proof (induction scans arbitrary: D m)
  case (Cons scan scans)
  have "tr_directories t = D @ moved_directories (length D) scan @ scans_directories (length D + length (tr_directories scan)) scans"
    using Cons.prems(1) by simp
  moreover from this Cons.IH [of "D @ moved_directories (length D) scan" "m + length (tr_files scan)"] Cons.prems(2)
  have "map (\<lambda>f. (file_display_path t f, f_size_bytes f, f_allocation_bytes f))
      (scans_files (length D + length (tr_directories scan)) (m + length (tr_files scan)) scans)
    = concat (map (\<lambda>scan. map (\<lambda>f. (file_display_path scan f, f_size_bytes f, f_allocation_bytes f)) (tr_files scan)) scans)"
    by simp
  ultimately show ?case
    using moved_files_paths [OF _ assms(1) _ _ assms(3) order.refl] Cons.prems(2) by simp
qed simp

section \<open>The combination\<close>

lemma check_roots_roots: "check_roots lowercase roots scans = Inr () \<Longrightarrow> \<forall>scan\<in>set scans. tree_root scan \<noteq> None"
  by (induction scans arbitrary: roots) (auto simp: Let_def split: option.splits if_splits)

lemma sorted_records_unique:
  assumes "mset rs = mset xs" "sorted (map key rs)" "sorted (map key xs)" "distinct (map key xs)"
  shows "rs = xs"
proof -
  have "map key rs = map key xs"
    using assms(1-3) by (metis mset_map properties_for_sort)
  moreover have "inj_on key (set rs \<union> set xs)"
    using assms(1,4) mset_eq_setD [OF assms(1)] by (simp add: distinct_map)
  ultimately show ?thesis by (metis map_inj_on)
qed

lemma consecutive_ids:
  fixes b :: u64
  assumes "unat b + n \<le> 2 ^ 64"
  shows "sorted (map (\<lambda>k. word_of_nat k + b) [0..<n])" "distinct (map (\<lambda>k. word_of_nat k + b) [0..<n])"
proof -
  have id: "unat (word_of_nat k + b) = k + unat b" if "k < n" for k
    using that assms by (simp add: unat_word_ariths unat_of_nat)
  show "sorted (map (\<lambda>k. word_of_nat k + b) [0..<n])"
    by (auto simp: sorted_iff_nth_mono word_le_nat_alt id)
  show "distinct (map (\<lambda>k. word_of_nat k + b) [0..<n])"
  proof -
    have "k = l" if "k < n" "l < n" "word_of_nat k + b = word_of_nat l + b" for k l
      using id [OF that(1)] id [OF that(2)] unfolding that(3) by simp
    then show ?thesis unfolding distinct_map by (auto intro!: inj_onI)
  qed
qed

lemma numbered_start: "numbered [multiple_root] [] (combination_start s scans)"
proof -
  have "numbered [] [] ((combination_start s scans)\<lparr>cb_tx := reserve n transaction_default\<rparr>)" for n
    using dirs.invar_empty
    by (simp add: numbered_def combination_start_def reserve_def transaction_default_def files_reserve_def files_default_def
        positions_reserve_def files_invar_def positions_ok_def dirs_with_capacity_def)
  from numbered_directory [OF this, of multiple_root "sum_list (map (\<lambda>scan. length (tr_files scan)) scans)"]
  show ?thesis by (simp add: multiple_root_def combination_start_def)
qed

lemma supplemental_fields:
  fixes extras :: "(u64 \<times> file_export_metadata) list"
  defines "t' t \<equiv> foldl (\<lambda>t (i, value). set_file_export_metadata i value t) t extras"
  shows "tr_directories (t' t) = tr_directories t" "tr_files (t' t) = tr_files t" "tr_lookup (t' t) = tr_lookup t"
  unfolding t'_def by (induction extras arbitrary: t) (auto simp: set_file_export_metadata_def)

lemma scans_directories_paths:
  "map d_full_path (scans_directories n scans) = concat (map (\<lambda>scan. map d_full_path (tr_directories scan)) scans)"
  by (induction scans arbitrary: n) simp_all

lemma scans_lengths:
  "length (scans_directories n scans) = sum_list (map (\<lambda>scan. length (tr_directories scan)) scans)"
  "length (scans_files n m scans) = sum_list (map (\<lambda>scan. length (tr_files scan)) scans)"
  by (induction scans arbitrary: n m) simp_all

lemma numbered_tree:
  assumes "shuffles f" "shuffles g" "numbered D F c" "length D \<le> 2 ^ 64" "length F < 2 ^ 64"
  shows "\<exists>t. tree_build f g (cb_tx c) = Some t \<and> tr_directories t = D \<and> tr_files t = F \<and> built_scan t"
proof -
  obtain volumes where vecs: "into_record_vecs (cb_tx c) = (volumes, D, F)"
    using assms(3) by (simp add: into_record_vecs_def dirs_into_records_def files_into_records_def numbered_def)
  have D: "map d_id D = map (\<lambda>k. word_of_nat k + 0) [0..<length D]" and F: "map f_id F = map (\<lambda>k. word_of_nat k + 1) [0..<length F]"
    using assms(3) by (simp_all add: numbered_def)
  have okD: "sorted (map d_id D)" "distinct (map d_id D)"
    unfolding D by (rule consecutive_ids; use assms(4) in simp)+
  have okF: "sorted (map f_id F)" "distinct (map f_id F)"
    unfolding F by (rule consecutive_ids; use assms(5) in simp)+
  have "sort_records_by_id f d_id D = Some D" "sort_records_by_id g f_id F = Some F"
    using sort_records_by_id_sorts [OF assms(1), of d_id D] sort_records_by_id_sorts [OF assms(2), of f_id F]
      sorted_records_unique okD okF by metis+
  moreover obtain t where t: "tree_of_sorted volumes D F = Some t" using tree_of_sorted_Some [OF assms(5)] by blast
  ultimately have "tree_build f g (cb_tx c) = Some t" using vecs by (simp add: tree_build_def)
  then show ?thesis
    using t okD(2) tree_of_sorted_fields(1,2) [OF t] by (intro exI [of _ t]) (auto simp: built_scan_def)
qed

text \<open>
  C37. Combining scans under the artificial root loses nothing. If their roots exist and neither repeat nor
  contain one another and every file's parent is a directory of its scan, the combination succeeds: its
  directories are the new root and all directories of the scans, with their paths, its files are all files of
  the scans in order, each with the display path and the sizes it had, and all ids are distinct although the
  scans number their records alike. In every other case it is refused with an error.
\<close>

theorem combine_loses_nothing:
  assumes "shuffles (ic_sort_directories ch)" "shuffles (ic_sort_files ch)" "\<forall>scan\<in>set scans. built_scan scan"
    and "1 + sum_list (map (\<lambda>scan. length (tr_directories scan)) scans) \<le> 2 ^ 64"
    and "sum_list (map (\<lambda>scan. length (tr_files scan)) scans) < 2 ^ 64"
  shows "if scans \<noteq> [] \<and> check_roots (ic_lowercase ch) [] scans = Inr () \<and> (\<forall>scan\<in>set scans. parents_known scan)
    then \<exists>t. combine ch scans = Inr t
      \<and> map d_full_path (tr_directories t) =
          multiple_roots_path # concat (map (\<lambda>scan. map d_full_path (tr_directories scan)) scans)
      \<and> map (\<lambda>f. (file_display_path t f, f_size_bytes f, f_allocation_bytes f)) (tr_files t) =
          concat (map (\<lambda>scan. map (\<lambda>f. (file_display_path scan f, f_size_bytes f, f_allocation_bytes f)) (tr_files scan)) scans)
      \<and> distinct (map d_id (tr_directories t)) \<and> distinct (map f_id (tr_files t))
    else \<exists>e. combine ch scans = Inl e"
proof (cases "scans \<noteq> [] \<and> check_roots (ic_lowercase ch) [] scans = Inr ()")
  case False
  then show ?thesis by (cases "check_roots (ic_lowercase ch) [] scans") (auto simp: combine_def combine_with_def)
next
  case True
  let ?c0 = "combination_start () scans"
  have roots: "\<forall>scan\<in>set scans. built_scan scan \<and> tree_root scan \<noteq> None"
    using assms(3) True check_roots_roots by blast
  have run: "if \<forall>scan\<in>set scans. parents_known scan
     then \<exists>c'. combine_scans (ic_capacity ch) as_is scans ?c0 = Inr c'
       \<and> numbered ([multiple_root] @ scans_directories (length [multiple_root]) scans)
           ([] @ scans_files (length [multiple_root]) (length ([] :: file_record list)) scans) c'
     else \<exists>e. combine_scans (ic_capacity ch) as_is scans ?c0 = Inl e"
    by (rule combine_scans_numbered [OF numbered_start _ roots]) (use assms(4,5) in \<open>simp_all add: combination_start_def\<close>)
  show ?thesis
  proof (cases "\<forall>scan\<in>set scans. parents_known scan")
    case False
    with run True show ?thesis by (auto simp: combine_def combine_with_def)
  next
    case known: True
    let ?D = "multiple_root # scans_directories 1 scans" and ?F = "scans_files 1 0 scans"
    from run known obtain c' where c': "combine_scans (ic_capacity ch) as_is scans ?c0 = Inr c'" "numbered ?D ?F c'" by auto
    obtain t where t: "tree_build (ic_sort_directories ch) (ic_sort_files ch) (cb_tx c') = Some t"
      "tr_directories t = ?D" "tr_files t = ?F" "built_scan t"
      using numbered_tree [OF assms(1,2) c'(2)] assms(4,5) by (auto simp: scans_lengths)
    have ids: "map d_id (tr_directories t) = map word_of_nat [0..<length (tr_directories t)]"
      using c'(2) unfolding t(2) by (simp only: numbered_def)
    have paths: "map (\<lambda>f. (file_display_path t f, f_size_bytes f, f_allocation_bytes f)) (tr_files t) =
          concat (map (\<lambda>scan. map (\<lambda>f. (file_display_path scan f, f_size_bytes f, f_allocation_bytes f)) (tr_files scan)) scans)"
      using scans_files_paths [OF t(4) _ ids, of "[multiple_root]" scans 0] t(2,3) assms(3) known by simp
    let ?t = "foldl (\<lambda>t (i, value). set_file_export_metadata i value t) t (cb_supplemental c')"
    have "file_display_path ?t = file_display_path t"
      by (simp add: file_display_path_def directory_full_path_def supplemental_fields fun_eq_iff)
    moreover have "map f_id ?F = map (\<lambda>k. word_of_nat k + 1) [0..<length ?F]"
      using c'(2) by (simp only: numbered_def)
    then have "distinct (map f_id ?F)"
      using consecutive_ids(2) [of 1 "length ?F"] assms(5) by (simp add: scans_lengths)
    moreover have "combine ch scans = Inr ?t"
      using True c'(1) t(1) by (simp add: combine_def combine_with_def)
    ultimately show ?thesis
      using True known t paths by (simp add: supplemental_fields scans_directories_paths built_scan_def multiple_root_def)
  qed
qed

lemma combine_loses_nothing_witness:
  "\<exists>t. combine \<lparr>ic_lowercase = id, ic_order = id, ic_capacity = (\<lambda>_. 0), ic_sort_directories = rev, ic_sort_files = rev\<rparr>
      [sample_tree] = Inr t \<and> length (tr_files t) = 3"
proof -
  let ?ch = "\<lparr>ic_lowercase = id, ic_order = id, ic_capacity = (\<lambda>_. 0), ic_sort_directories = rev, ic_sort_files = rev\<rparr>"
  note flds = tree_of_sorted_fields [OF sample_tree]
  have "built_scan sample_tree"
    using sample_tree flds(1,2) by (auto simp: built_scan_def tree_sample_dir_def)
  moreover have "tree_root sample_tree = Some (tree_sample_dir 5 None ''C:'', tr_rollups sample_tree ! 0)"
    using flds(1,4,5) sample_lookup sample_root by (simp add: tree_root_def)
  then have "check_roots id [] [sample_tree] = Inr ()"
    by (simp add: tree_sample_dir_def trim_end_matches_def multiple_roots_path_def)
  moreover have "parents_known sample_tree"
    using flds(1,2) by (simp add: parents_known_def tree_sample_dir_def tree_sample_file_def)
  moreover have "shuffles (ic_sort_directories ?ch)" "shuffles (ic_sort_files ?ch)" by (simp_all add: shuffles_id)
  moreover have "\<forall>scan\<in>set [sample_tree]. built_scan scan"
    "1 + sum_list (map (\<lambda>scan. length (tr_directories scan)) [sample_tree]) \<le> 2 ^ 64"
    "sum_list (map (\<lambda>scan. length (tr_files scan)) [sample_tree]) < 2 ^ 64"
    using calculation(1) flds(1,2) by simp_all
  ultimately obtain t where "combine ?ch [sample_tree] = Inr t"
    and files: "map (\<lambda>f. (file_display_path t f, f_size_bytes f, f_allocation_bytes f)) (tr_files t) =
      map (\<lambda>f. (file_display_path sample_tree f, f_size_bytes f, f_allocation_bytes f)) (tr_files sample_tree)"
    using combine_loses_nothing [of ?ch "[sample_tree]"] by auto
  then show ?thesis using arg_cong [OF files, of length] flds(2) by auto
qed

end
