(* ===== verification/Tree_Search.thy ===== *)
theory Tree_Search
  imports Import_Rows "HOL-Library.Product_Lexorder"
begin

text \<open>
  The search over the display tree, \<open>WinBlaze.Index/src/tree_search.rs\<close>: filters on size, date, extension and
  text, a total order on the matches, and pages of it. \<open>str::to_lowercase\<close>, the lower-case characters of a
  name and the regular-expression library are parameters.
\<close>

datatype text_mode = Contains | Exact | Prefix | Regex
datatype search_sort = Name | Logical | Allocated | Kind | Modified

record search_options =
  so_pattern :: string
  so_sort :: search_sort
  so_descending :: bool
  so_mode :: text_mode
  so_min_logical :: "u64 option"
  so_max_logical :: "u64 option"
  so_min_allocated :: "u64 option"
  so_max_allocated :: "u64 option"
  so_modified_after :: "i64 option"
  so_modified_before :: "i64 option"
  so_extensions :: "string list"
  so_include_directories :: bool
  so_include_files :: bool
  so_offset :: nat
  so_limit :: nat

definition search_options_default :: search_options where
  "search_options_default =
    \<lparr>so_pattern = [], so_sort = Name, so_descending = False, so_mode = Contains,
     so_min_logical = None, so_max_logical = None, so_min_allocated = None, so_max_allocated = None,
     so_modified_after = None, so_modified_before = None, so_extensions = [],
     so_include_directories = True, so_include_files = True, so_offset = 0, so_limit = 50\<rparr>"

text \<open>What the search takes from libraries, and the choices of the unstable operations.\<close>

record search_texts =
  st_lowercase :: "string \<Rightarrow> string"
  st_lower_chars :: "string \<Rightarrow> nat list"
  st_regex :: "string \<Rightarrow> (string \<Rightarrow> bool) option"
  st_smaller :: "(bool \<times> nat) list \<Rightarrow> (bool \<times> nat) list"
  st_larger :: "(bool \<times> nat) list \<Rightarrow> (bool \<times> nat) list"
  st_sorting :: "(bool \<times> nat) list \<Rightarrow> (bool \<times> nat) list"

record search_result =
  sr_entry :: tree_entry
  sr_path :: string

record search_page =
  sp_total :: nat
  sp_hits :: "search_result list"

section \<open>Entries\<close>

fun entry_name :: "tree_entry \<Rightarrow> string" where
  "entry_name (DirectoryEntry d r) = d_name d"
| "entry_name (FileEntry f) = f_name f"

fun tree_entry_path :: "tree_index \<Rightarrow> tree_entry \<Rightarrow> string" where
  "tree_entry_path t (DirectoryEntry d r) = d_full_path d"
| "tree_entry_path t (FileEntry f) = file_display_path t f"

text \<open>\<open>None\<close> is a panic: no record at the index, or no rollup.\<close>

definition entry_at :: "tree_index \<Rightarrow> bool \<times> nat \<Rightarrow> tree_entry option" where
  "entry_at t key =
    (if fst key then
       if snd key < length (tr_directories t)
       then map_option (DirectoryEntry (tr_directories t ! snd key)) (rollup_for t (d_id (tr_directories t ! snd key)))
       else None
     else if snd key < length (tr_files t) then Some (FileEntry (tr_files t ! snd key)) else None)"

fun entry_logical :: "tree_entry \<Rightarrow> u64" where
  "entry_logical (DirectoryEntry d r) = ru_logical_bytes r"
| "entry_logical (FileEntry f) = f_size_bytes f"

fun entry_modified :: "tree_entry \<Rightarrow> i64 option" where
  "entry_modified (DirectoryEntry d r) = ru_modified_utc_max r"
| "entry_modified (FileEntry f) = f_modified_utc f"

section \<open>Matching\<close>

definition reversed_bounds :: "search_options \<Rightarrow> bool" where
  "reversed_bounds opt \<longleftrightarrow>
    (case (so_min_logical opt, so_max_logical opt) of (Some lo, Some hi) \<Rightarrow> lo > hi | _ \<Rightarrow> False)
    \<or> (case (so_min_allocated opt, so_max_allocated opt) of (Some lo, Some hi) \<Rightarrow> lo > hi | _ \<Rightarrow> False)
    \<or> (case (so_modified_after opt, so_modified_before opt) of (Some lo, Some hi) \<Rightarrow> sint lo \<ge> sint hi | _ \<Rightarrow> False)"

definition search_extensions :: "search_texts \<Rightarrow> search_options \<Rightarrow> string list" where
  "search_extensions st opt =
    filter (\<lambda>value. value \<noteq> [])
      (map (\<lambda>value. st_lowercase st (dropWhile (\<lambda>c. c = CHR ''.'') (trim_start_matches ''*.'' (trim value)))) (so_extensions opt))"

definition search_matches_text :: "search_texts \<Rightarrow> search_options \<Rightarrow> (string \<Rightarrow> bool) option \<Rightarrow> string \<Rightarrow> bool" where
  "search_matches_text st opt regex s =
    (case regex of
       Some is_match \<Rightarrow> is_match s
     | None \<Rightarrow>
         let s = st_lowercase st s; pattern = st_lowercase st (so_pattern opt) in
         case so_mode opt of
           Exact \<Rightarrow> s = pattern
         | Prefix \<Rightarrow> take (length pattern) s = pattern
         | _ \<Rightarrow> find_sub pattern s \<noteq> None)"

definition search_matches ::
  "search_texts \<Rightarrow> search_options \<Rightarrow> (string \<Rightarrow> bool) option \<Rightarrow> tree_index \<Rightarrow> bool \<Rightarrow> tree_entry \<Rightarrow> bool" where
  "search_matches st opt regex t directory item =
    (let logical = entry_logical item; modified = map_option unix_seconds (entry_modified item);
         extensions = search_extensions st opt
     in if (case so_min_logical opt of Some lo \<Rightarrow> logical < lo | None \<Rightarrow> False)
          \<or> (case so_max_logical opt of Some hi \<Rightarrow> logical > hi | None \<Rightarrow> False)
          \<or> (case so_min_allocated opt of Some lo \<Rightarrow> physical_bytes item < lo | None \<Rightarrow> False)
          \<or> (case so_max_allocated opt of Some hi \<Rightarrow> physical_bytes item > hi | None \<Rightarrow> False)
          \<or> (case so_modified_after opt of None \<Rightarrow> False
             | Some lo \<Rightarrow> (case modified of None \<Rightarrow> True | Some value \<Rightarrow> sint value < sint lo))
          \<or> (case so_modified_before opt of None \<Rightarrow> False
             | Some hi \<Rightarrow> (case modified of None \<Rightarrow> True | Some value \<Rightarrow> sint value \<ge> sint hi))
          \<or> (extensions \<noteq> [] \<and> (directory \<or> \<not> (case rsplit_once (CHR ''.'') (entry_name item) of
                 Some (_, ext) \<Rightarrow> st_lowercase st ext \<in> set extensions | None \<Rightarrow> False)))
        then False
        else st_lowercase st (so_pattern opt) = [] \<or> search_matches_text st opt regex (entry_name item)
          \<or> search_matches_text st opt regex (tree_entry_path t item))"

text \<open>The keys of the matching records; \<open>None\<close> when looking an entry up panics.\<close>

fun search_filter ::
  "search_texts \<Rightarrow> search_options \<Rightarrow> (string \<Rightarrow> bool) option \<Rightarrow> tree_index \<Rightarrow> (bool \<times> nat) list \<Rightarrow> (bool \<times> nat) list option" where
  "search_filter st opt regex t [] = Some []"
| "search_filter st opt regex t (key # keys) =
    (if (fst key \<and> \<not> so_include_directories opt) \<or> (\<not> fst key \<and> \<not> so_include_files opt)
     then search_filter st opt regex t keys
     else Option.bind (entry_at t key) (\<lambda>item.
       map_option (\<lambda>rest. if search_matches st opt regex t (fst key) item then key # rest else rest)
         (search_filter st opt regex t keys)))"

section \<open>Ordering\<close>

text \<open>\<open>Option<i64>\<close> is ordered with \<open>None\<close> first.\<close>

fun cmp_times :: "i64 option \<Rightarrow> i64 option \<Rightarrow> ordering" where
  "cmp_times None None = Equal"
| "cmp_times None (Some b) = Less"
| "cmp_times (Some a) None = Greater"
| "cmp_times (Some a) (Some b) = cmp (sint a) (sint b)"

definition cmp_keys :: "bool \<times> nat \<Rightarrow> bool \<times> nat \<Rightarrow> ordering" where
  "cmp_keys left right = then_with (cmp (fst left) (fst right)) (cmp (snd left) (snd right))"

text \<open>The comparison is only used on keys that have an entry.\<close>

definition compare_entries :: "search_texts \<Rightarrow> search_options \<Rightarrow> tree_index \<Rightarrow> bool \<times> nat \<Rightarrow> bool \<times> nat \<Rightarrow> ordering" where
  "compare_entries st opt t left right =
    (let l = the (entry_at t left); r = the (entry_at t right);
         sorted_by = (case so_sort opt of
             Logical \<Rightarrow> cmp (entry_logical l) (entry_logical r)
           | Allocated \<Rightarrow> cmp (physical_bytes l) (physical_bytes r)
           | Kind \<Rightarrow> cmp (fst left) (fst right)
           | Modified \<Rightarrow> cmp_times (entry_modified l) (entry_modified r)
           | Name \<Rightarrow> Equal);
         order = then_with sorted_by
           (then_with (cmp (st_lower_chars st (entry_name l)) (st_lower_chars st (entry_name r))) (cmp_keys left right))
     in if so_descending opt then reverse_ordering order else order)"

section \<open>The search\<close>

definition search_keys :: "tree_index \<Rightarrow> (bool \<times> nat) list" where
  "search_keys t = map (Pair True) [0..<length (tr_directories t)] @ map (Pair False) [0..<length (tr_files t)]"

definition search_regex :: "search_texts \<Rightarrow> search_options \<Rightarrow> io_failure + (string \<Rightarrow> bool) option" where
  "search_regex st opt =
    (if so_mode opt = Regex then
       (case st_regex st (so_pattern opt) of Some is_match \<Rightarrow> Inr (Some is_match) | None \<Rightarrow> Inl (InvalidInput ''regex''))
     else Inr None)"

text \<open>The page of sorted matches; only the matches up to its end are sorted.\<close>

definition search_page_keys ::
  "search_texts \<Rightarrow> search_options \<Rightarrow> tree_index \<Rightarrow> (bool \<times> nat) list \<Rightarrow> (bool \<times> nat) list option" where
  "search_page_keys st opt t matches =
    (let total = length matches; end' = min (min (so_offset opt + so_limit opt) (2 ^ 64 - 1)) total;
         le = (\<lambda>a b. compare_entries st opt t a b \<noteq> Greater)
     in if so_limit opt = 0 \<or> so_offset opt \<ge> total then Some []
        else map_option (\<lambda>matches. take (so_limit opt) (drop (so_offset opt) (sort_unstable_by (st_sorting st) le matches)))
          (if end' < total
           then map_option (take end') (select_nth_unstable_by (st_smaller st) (st_larger st) end' le matches)
           else Some matches))"

definition tree_search :: "search_texts \<Rightarrow> tree_index \<Rightarrow> search_options \<Rightarrow> io_failure + search_page" where
  "tree_search st t opt =
    (if reversed_bounds opt then Inl (InvalidInput ''Reversed search bounds'')
     else rbind (search_regex st opt) (\<lambda>regex.
       case search_filter st opt regex t (search_keys t) of
         None \<Rightarrow> Inl Panics
       | Some matches \<Rightarrow>
           (case search_page_keys st opt t matches of
              None \<Rightarrow> Inl Panics
            | Some keys \<Rightarrow>
                Inr \<lparr>sp_total = length matches,
                  sp_hits = map (\<lambda>key. let entry = the (entry_at t key) in \<lparr>sr_entry = entry, sr_path = tree_entry_path t entry\<rparr>) keys\<rparr>)))"

section \<open>Every record has an entry\<close>

lemma entry_at_some:
  assumes "tree_of_sorted volumes directories files = Some t" "key \<in> set (search_keys t)"
  shows "entry_at t key \<noteq> None"
  using assms(2) lookup_of_member tree_of_sorted_fields(1,2,4) [OF assms(1)]
  by (auto simp: search_keys_def entry_at_def rollup_for_def)

definition wanted :: "search_texts \<Rightarrow> search_options \<Rightarrow> (string \<Rightarrow> bool) option \<Rightarrow> tree_index \<Rightarrow> bool \<times> nat \<Rightarrow> bool" where
  "wanted st opt regex t key \<longleftrightarrow> (if fst key then so_include_directories opt else so_include_files opt)
     \<and> search_matches st opt regex t (fst key) (the (entry_at t key))"

lemma search_filter_eq:
  assumes "\<forall>key\<in>set keys. entry_at t key \<noteq> None"
  shows "search_filter st opt regex t keys = Some (filter (wanted st opt regex t) keys)"
  using assms by (induction keys) (auto simp: wanted_def)

section \<open>The comparison is a total order on the keys\<close>

fun time_rank :: "i64 option \<Rightarrow> int" where
  "time_rank None = - (2 ^ 63) - 1"
| "time_rank (Some time) = sint time"

definition sort_rank :: "search_options \<Rightarrow> tree_index \<Rightarrow> bool \<times> nat \<Rightarrow> int" where
  "sort_rank opt t key =
    (case so_sort opt of
       Logical \<Rightarrow> uint (entry_logical (the (entry_at t key)))
     | Allocated \<Rightarrow> uint (physical_bytes (the (entry_at t key)))
     | Kind \<Rightarrow> of_bool (fst key)
     | Modified \<Rightarrow> time_rank (entry_modified (the (entry_at t key)))
     | Name \<Rightarrow> 0)"

definition key_rank :: "search_texts \<Rightarrow> search_options \<Rightarrow> tree_index \<Rightarrow> bool \<times> nat \<Rightarrow> (int \<times> nat list) \<times> (bool \<times> nat)" where
  "key_rank st opt t key = ((sort_rank opt t key, st_lower_chars st (entry_name (the (entry_at t key)))), key)"

lemma cmp_times_rank: "cmp_times a b = cmp (time_rank a) (time_rank b)"
proof -
  have low: "- (2 ^ 63) - 1 < sint w" for w :: i64 using sint_ge [of w] by simp
  show ?thesis using low [of "the a"] low [of "the b"] by (cases a; cases b) (auto simp: cmp_def)
qed

lemma cmp_pair: "then_with (cmp a c) (cmp b d) = cmp (a, b) (c, d)"
  by (auto simp: cmp_def)

lemma then_with_assoc: "then_with (then_with x y) z = then_with x (then_with y z)"
  by (cases x) auto

lemma cmp_mono: "(\<And>x y. f x < f y \<longleftrightarrow> x < y) \<Longrightarrow> (\<And>x y. f x = f y \<longleftrightarrow> x = y) \<Longrightarrow> cmp (f a) (f b) = cmp a b"
  by (simp add: cmp_def)

lemma compare_entries_rank:
  "compare_entries st opt t left right =
    (let order = cmp (key_rank st opt t left) (key_rank st opt t right)
     in if so_descending opt then reverse_ordering order else order)"
proof -
  have nums: "cmp (uint a) (uint b) = cmp a b" for a b :: u64
    by (rule cmp_mono) (simp_all add: word_less_def word_uint_eq_iff)
  have flag: "cmp (of_bool a :: int) (of_bool b) = cmp a b" for a b
    by (cases a; cases b) (simp_all add: cmp_def)
  have same: "cmp (0 :: int) 0 = Equal" by simp
  show ?thesis
    unfolding key_rank_def cmp_pair [symmetric] then_with_assoc
    by (cases "so_sort opt")
      (simp_all add: compare_entries_def sort_rank_def Let_def nums flag same cmp_times_rank cmp_keys_def cmp_pair)
qed

lemma compare_entries_le:
  "compare_entries st opt t a b \<noteq> Greater \<longleftrightarrow>
    (if so_descending opt then key_rank st opt t b \<le> key_rank st opt t a else key_rank st opt t a \<le> key_rank st opt t b)"
  by (auto simp: compare_entries_rank Let_def reverse_ordering_Greater not_less)

lemma key_rank_inj: "key_rank st opt t a = key_rank st opt t b \<longleftrightarrow> a = b"
  by (auto simp: key_rank_def)

interpretation compare_entries: comparison "\<lambda>a b. compare_entries st opt t a b \<noteq> Greater" UNIV
  for st opt t
proof
  fix a b c :: "bool \<times> nat"
  show "compare_entries st opt t a b \<noteq> Greater \<or> compare_entries st opt t b a \<noteq> Greater"
    unfolding compare_entries_le by auto
  show "compare_entries st opt t a b \<noteq> Greater \<Longrightarrow> compare_entries st opt t b c \<noteq> Greater
      \<Longrightarrow> compare_entries st opt t a c \<noteq> Greater"
    unfolding compare_entries_le by (auto split: if_splits)
  show "compare_entries st opt t a b \<noteq> Greater \<Longrightarrow> compare_entries st opt t b a \<noteq> Greater \<Longrightarrow> a = b"
    unfolding compare_entries_le by (auto split: if_splits simp: key_rank_inj dest: antisym)
qed

lemma search_page_keys_eq:
  assumes "shuffles (st_smaller st)" "shuffles (st_larger st)" "shuffles (st_sorting st)" "length matches < 2 ^ 64"
  shows "search_page_keys st opt t matches = Some (take (so_limit opt) (drop (so_offset opt)
    (sort_by (\<lambda>a b. compare_entries st opt t a b \<noteq> Greater) matches)))"
proof -
  let ?le = "\<lambda>a b. compare_entries st opt t a b \<noteq> Greater" and ?o = "so_offset opt" and ?l = "so_limit opt"
  have end': "min (min (?o + ?l) (2 ^ 64 - 1)) (length matches) = min (?o + ?l) (length matches)"
    using assms(4) by simp
  consider "?l = 0 \<or> ?o \<ge> length matches" | "?l \<noteq> 0" "?o < length matches" "?o + ?l < length matches"
    | "?l \<noteq> 0" "?o < length matches" "length matches \<le> ?o + ?l" by linarith
  then show ?thesis
  proof cases
    case 1
    then show ?thesis by (auto simp: search_page_keys_def Let_def)
  next
    case 2
    have "map_option (sort_unstable_by (st_sorting st) ?le)
        (map_option (take (?o + ?l)) (select_nth_unstable_by (st_smaller st) (st_larger st) (?o + ?l) ?le matches))
      = Some (take (?o + ?l) (sort_by ?le matches))"
      using compare_entries.select_prefix_sort [OF assms(1-3) _ 2(3), of st opt t] by (simp add: option.map_comp comp_def)
    then show ?thesis
      using 2 unfolding search_page_keys_def Let_def end' by (auto simp: take_drop add.commute)
  next
    case 3
    then show ?thesis
      using compare_entries.sort_unstable_by_eq [OF assms(3), of matches st opt t] unfolding search_page_keys_def Let_def end'
      by simp
  qed
qed

section \<open>Pages of one ranking\<close>

fun is_directory_entry :: "tree_entry \<Rightarrow> bool" where
  "is_directory_entry (DirectoryEntry d r) = True"
| "is_directory_entry (FileEntry f) = False"

text \<open>The order of the results without the index that breaks the last ties.\<close>

definition entry_order :: "search_texts \<Rightarrow> search_options \<Rightarrow> tree_entry \<Rightarrow> tree_entry \<Rightarrow> ordering" where
  "entry_order st opt l r =
    then_with
      (case so_sort opt of
         Logical \<Rightarrow> cmp (entry_logical l) (entry_logical r)
       | Allocated \<Rightarrow> cmp (physical_bytes l) (physical_bytes r)
       | Kind \<Rightarrow> cmp (is_directory_entry l) (is_directory_entry r)
       | Modified \<Rightarrow> cmp_times (entry_modified l) (entry_modified r)
       | Name \<Rightarrow> Equal)
      (cmp (st_lower_chars st (entry_name l)) (st_lower_chars st (entry_name r)))"

definition all_directories :: "tree_index \<Rightarrow> tree_entry list" where
  "all_directories t = map (\<lambda>d. DirectoryEntry d (the (rollup_for t (d_id d)))) (tr_directories t)"

definition all_files :: "tree_index \<Rightarrow> tree_entry list" where
  "all_files t = map FileEntry (tr_files t)"

definition result_at :: "tree_index \<Rightarrow> bool \<times> nat \<Rightarrow> search_result" where
  "result_at t key = (let entry = the (entry_at t key) in \<lparr>sr_entry = entry, sr_path = tree_entry_path t entry\<rparr>)"

lemma fst_key_entry: "entry_at t key \<noteq> None \<Longrightarrow> fst key = is_directory_entry (the (entry_at t key))"
  by (auto simp: entry_at_def split: if_splits)

lemma compare_entries_order:
  assumes "entry_at t a \<noteq> None" "entry_at t b \<noteq> None" "compare_entries st opt t a b \<noteq> Greater"
  shows "entry_order st opt (the (entry_at t a)) (the (entry_at t b)) \<noteq> (if so_descending opt then Less else Greater)"
  using assms(3) fst_key_entry [OF assms(1)] fst_key_entry [OF assms(2)]
  unfolding compare_entries_def Let_def entry_order_def
  by (cases "so_sort opt") (auto simp: reverse_ordering_Greater then_with_Less then_with_Greater)

lemma page_fields:
  fixes offset limit opt
  defines "o' \<equiv> opt\<lparr>so_offset := offset, so_limit := limit\<rparr>"
  shows "so_pattern o' = so_pattern opt" "so_sort o' = so_sort opt" "so_descending o' = so_descending opt"
    "so_mode o' = so_mode opt" "so_min_logical o' = so_min_logical opt" "so_max_logical o' = so_max_logical opt"
    "so_min_allocated o' = so_min_allocated opt" "so_max_allocated o' = so_max_allocated opt"
    "so_modified_after o' = so_modified_after opt" "so_modified_before o' = so_modified_before opt"
    "so_extensions o' = so_extensions opt" "so_include_directories o' = so_include_directories opt"
    "so_include_files o' = so_include_files opt"
  by (simp_all add: o'_def)

lemma page_options [simp]:
  fixes offset limit st opt
  defines "o' \<equiv> opt\<lparr>so_offset := offset, so_limit := limit\<rparr>"
  shows "reversed_bounds o' = reversed_bounds opt" "search_regex st o' = search_regex st opt"
    "search_matches st o' = search_matches st opt" "compare_entries st o' = compare_entries st opt"
    "wanted st o' = wanted st opt"
proof -
  have matches: "search_matches_text st o' = search_matches_text st opt" and extensions: "search_extensions st o' = search_extensions st opt"
    unfolding o'_def by (simp_all only: fun_eq_iff search_extensions_def search_matches_text_def page_fields simp_thms)
  from matches extensions show m: "search_matches st o' = search_matches st opt"
    unfolding o'_def by (simp only: fun_eq_iff search_matches_def page_fields simp_thms)
  show "reversed_bounds o' = reversed_bounds opt" "search_regex st o' = search_regex st opt"
    "compare_entries st o' = compare_entries st opt"
    unfolding o'_def
    by (simp_all only: fun_eq_iff reversed_bounds_def search_regex_def compare_entries_def page_fields simp_thms)
  show "wanted st o' = wanted st opt"
    using m unfolding o'_def by (simp only: fun_eq_iff wanted_def page_fields simp_thms)
qed

lemma wanted_entries:
  assumes "tree_of_sorted volumes directories files = Some t"
  shows "map (\<lambda>key. the (entry_at t key)) (filter (wanted st opt regex t) (search_keys t)) =
    filter (search_matches st opt regex t True) (if so_include_directories opt then all_directories t else [])
    @ filter (search_matches st opt regex t False) (if so_include_files opt then all_files t else [])"
proof -
  have look: "rollup_for t (d_id (tr_directories t ! i)) \<noteq> None" if "i < length (tr_directories t)" for i
    using lookup_of_member [of i directories] tree_of_sorted_fields(1,4) [OF assms] that
    by (auto simp: rollup_for_def)
  have d: "map (\<lambda>i. the (entry_at t (True, i))) [0..<length (tr_directories t)] = all_directories t"
    unfolding all_directories_def by (rule nth_equalityI) (use look in \<open>auto simp: entry_at_def option.map_sel\<close>)
  have f: "map (\<lambda>i. the (entry_at t (False, i))) [0..<length (tr_files t)] = all_files t"
    unfolding all_files_def by (rule nth_equalityI) (auto simp: entry_at_def)
  show ?thesis
    unfolding d [symmetric] f [symmetric] search_keys_def wanted_def [abs_def]
    by (simp add: filter_map comp_def)
qed


text \<open>The second page of everything in the sample tree.\<close>

definition plain_texts :: search_texts where
  "plain_texts = \<lparr>st_lowercase = id, st_lower_chars = map of_char, st_regex = (\<lambda>_. None),
     st_smaller = rev, st_larger = rev, st_sorting = rev\<rparr>"


end
