(* ===== verification/Event_Pipeline.thy ===== *)
theory Event_Pipeline
  imports Core_Model
begin

text \<open>
  \<open>WinBlaze.Scanner/src/pipeline.rs\<close>, \<open>delivery.rs\<close> and \<open>performance.rs\<close>: scan events are collected in arenas
  and sent in batches over a channel; the consumer returns the storage of consumed batches to a small pool.
  A vector is its elements and its capacity. \<open>alloc n\<close> is the capacity the allocator grants when room for \<open>n\<close>
  elements is reserved, at least \<open>n\<close>; \<open>room\<close> is the number of events in 64 KiB.
\<close>

section \<open>Performance figures\<close>

record scan_pipeline_config =
  pc_batch_size :: nat
  pc_max_in_flight_events :: nat
  pc_max_in_flight_bytes :: u64

definition scan_pipeline_config_default :: scan_pipeline_config where
  "scan_pipeline_config_default =
    \<lparr>pc_batch_size = 512, pc_max_in_flight_events = 1024, pc_max_in_flight_bytes = 8 * 1024 * 1024\<rparr>"

definition should_apply_backpressure :: "scan_pipeline_config \<Rightarrow> nat \<Rightarrow> u64 \<Rightarrow> bool" where
  "should_apply_backpressure config in_flight_events in_flight_bytes \<longleftrightarrow>
    in_flight_events \<ge> pc_max_in_flight_events config \<or> in_flight_bytes \<ge> pc_max_in_flight_bytes config"

record scan_throughput_sample =
  ts_files_seen :: u64
  ts_bytes_seen :: u64
  ts_elapsed_millis :: u64

definition div_or_zero :: "u64 \<Rightarrow> u64 \<Rightarrow> u64" where
  "div_or_zero a b = (if b = 0 then 0 else a div b)"

definition files_per_second :: "scan_throughput_sample \<Rightarrow> u64" where
  "files_per_second s = div_or_zero (sat_mul (ts_files_seen s) 1000) (ts_elapsed_millis s)"

definition bytes_per_second :: "scan_throughput_sample \<Rightarrow> u64" where
  "bytes_per_second s = div_or_zero (sat_mul (ts_bytes_seen s) 1000) (ts_elapsed_millis s)"

record scan_memory_sample =
  ms_files_seen :: u64
  ms_resident_bytes :: u64
  ms_peak_bytes :: u64

definition resident_bytes_per_file :: "scan_memory_sample \<Rightarrow> u64" where
  "resident_bytes_per_file s = div_or_zero (ms_resident_bytes s) (ms_files_seen s)"

definition peak_bytes_per_file :: "scan_memory_sample \<Rightarrow> u64" where
  "peak_bytes_per_file s = div_or_zero (ms_peak_bytes s) (ms_files_seen s)"

record large_ui_scale_plan =
  lp_files_seen :: u64
  lp_scan_batch_size :: u64
  lp_catalog_load_limit :: u64
  lp_visible_row_limit :: u64
  lp_treemap_tile_limit :: u64

definition div_ceil_u64 :: "u64 \<Rightarrow> u64 \<Rightarrow> u64" where
  "div_ceil_u64 a b = (if a mod b > 0 then a div b + 1 else a div b)"

definition projected_scan_flushes :: "large_ui_scale_plan \<Rightarrow> u64" where
  "projected_scan_flushes p =
    (if lp_files_seen p = 0 then 0 else div_ceil_u64 (lp_files_seen p) (max (lp_scan_batch_size p) 1))"

definition materialized_catalog_rows :: "large_ui_scale_plan \<Rightarrow> u64" where
  "materialized_catalog_rows p = min (lp_files_seen p) (lp_catalog_load_limit p)"

definition visible_tree_rows :: "large_ui_scale_plan \<Rightarrow> u64" where
  "visible_tree_rows p = min (materialized_catalog_rows p) (lp_visible_row_limit p)"

definition visible_treemap_tiles :: "large_ui_scale_plan \<Rightarrow> u64" where
  "visible_treemap_tiles p = min (materialized_catalog_rows p) (lp_treemap_tile_limit p)"

section \<open>The pool of arenas\<close>

text \<open>The pool holds empty vectors, so it is the list of their capacities.\<close>

definition max_pooled_batches :: nat where "max_pooled_batches = 4"

fun position_of :: "('a \<Rightarrow> bool) \<Rightarrow> 'a list \<Rightarrow> nat option" where
  "position_of p [] = None"
| "position_of p (x # xs) = (if p x then Some 0 else map_option Suc (position_of p xs))"

definition pool_take :: "nat \<Rightarrow> nat list \<Rightarrow> nat \<times> nat list" where
  "pool_take minimum pool = (case position_of (\<lambda>capacity. capacity \<ge> minimum) pool of
     Some i \<Rightarrow> (pool ! i, butlast (pool[i := last pool]))
   | None \<Rightarrow> (0, pool))"

text \<open>\<open>min_by_key\<close> gives the first of the minimal elements.\<close>

definition smallest_index :: "nat list \<Rightarrow> nat option" where
  "smallest_index pool = (if pool = [] then None else position_of (\<lambda>c. c = Min (set pool)) pool)"

definition recycle :: "nat \<Rightarrow> nat \<Rightarrow> nat list \<Rightarrow> nat list" where
  "recycle room capacity pool =
    (if capacity = 0 \<or> capacity > room then pool
     else if length pool < max_pooled_batches then pool @ [capacity]
     else case smallest_index pool of
       Some i \<Rightarrow> if pool ! i < capacity then pool[i := capacity] else pool
     | None \<Rightarrow> pool)"

section \<open>The channel\<close>

record arena =
  ar_events :: "scan_event list"
  ar_capacity :: nat

datatype event_batch_sender = Unbounded | Bounded | Recycling

text \<open>The batches that are sent and not received yet, whether the receiver is alive, and the pool.\<close>

record delivery =
  dl_queue :: "arena list"
  dl_connected :: bool
  dl_pool :: "nat list"

definition send_batch :: "arena \<Rightarrow> delivery \<Rightarrow> delivery" where
  "send_batch batch d = (if dl_connected d then d\<lparr>dl_queue := dl_queue d @ [batch]\<rparr> else d)"

definition take_buffer :: "event_batch_sender \<Rightarrow> nat \<Rightarrow> delivery \<Rightarrow> nat \<times> delivery" where
  "take_buffer sender minimum d = (case sender of
     Recycling \<Rightarrow> let (capacity, pool) = pool_take minimum (dl_pool d) in (capacity, d\<lparr>dl_pool := pool\<rparr>)
   | _ \<Rightarrow> (0, d))"

section \<open>The pipeline of a producer\<close>

record event_pipeline =
  ep_sender :: event_batch_sender
  ep_config :: scan_pipeline_config
  ep_buffer :: arena
  ep_buffered_bytes :: u64
  ep_progress :: scan_progress

definition empty_arena :: arena where
  "empty_arena = \<lparr>ar_events = [], ar_capacity = 0\<rparr>"

definition pipeline_new :: "event_batch_sender \<Rightarrow> scan_pipeline_config \<Rightarrow> event_pipeline" where
  "pipeline_new sender config = \<lparr>ep_sender = sender, ep_config = config, ep_buffer = empty_arena, ep_buffered_bytes = 0,
    ep_progress = \<lparr>p_completed_items = 0, p_total_items = 0, p_completed_bytes = 0, p_total_bytes = 0\<rparr>\<rparr>"

type_synonym outlet = "event_pipeline \<times> delivery"

definition pipeline_flush :: "outlet \<Rightarrow> outlet" where
  "pipeline_flush = (\<lambda>(p, d).
    if ar_events (ep_buffer p) = [] then (p, d)
    else (p\<lparr>ep_buffer := empty_arena, ep_buffered_bytes := 0\<rparr>, send_batch (ep_buffer p) d))"

fun forces_flush :: "scan_event \<Rightarrow> bool" where
  "forces_flush (Progress _) = True"
| "forces_flush (Summary _) = True"
| "forces_flush EvCompleted = True"
| "forces_flush EvCancelled = True"
| "forces_flush (EvFailed _) = True"
| "forces_flush _ = False"

definition should_flush :: "event_pipeline \<Rightarrow> bool" where
  "should_flush p \<longleftrightarrow> length (ar_events (ep_buffer p)) \<ge> max (pc_batch_size (ep_config p)) 1
    \<or> should_apply_backpressure (ep_config p) (length (ar_events (ep_buffer p))) (ep_buffered_bytes p)"

definition reserve_buffer :: "(nat \<Rightarrow> nat) \<Rightarrow> bool \<Rightarrow> outlet \<Rightarrow> outlet" where
  "reserve_buffer alloc force = (\<lambda>(p, d).
    if ar_capacity (ep_buffer p) = 0 then
      let minimum = (if force then 1 else max (pc_batch_size (ep_config p)) 1);
          (capacity, d) = take_buffer (ep_sender p) minimum d
      in (p\<lparr>ep_buffer := \<lparr>ar_events = [], ar_capacity = (if capacity < minimum then alloc minimum else capacity)\<rparr>\<rparr>, d)
    else (p, d))"

text \<open>\<open>Vec::push\<close> grows a full vector.\<close>

definition push_event :: "(nat \<Rightarrow> nat) \<Rightarrow> scan_event \<Rightarrow> arena \<Rightarrow> arena" where
  "push_event alloc event a = \<lparr>ar_events = ar_events a @ [event],
    ar_capacity = (if length (ar_events a) < ar_capacity a then ar_capacity a else alloc (ar_capacity a + 1))\<rparr>"

definition enqueue :: "(nat \<Rightarrow> nat) \<Rightarrow> scan_event \<Rightarrow> u64 \<Rightarrow> outlet \<Rightarrow> outlet" where
  "enqueue alloc event estimated_bytes out =
    (let force = forces_flush event;
         (p, d) = reserve_buffer alloc force out;
         p = p\<lparr>ep_buffer := push_event alloc event (ep_buffer p),
               ep_buffered_bytes := sat_add (ep_buffered_bytes p) estimated_bytes\<rparr>
     in if force \<or> should_flush p then pipeline_flush (p, d) else (p, d))"

definition directory_size :: "directory_record \<Rightarrow> u64" where
  "directory_size d = max (sat_add (of_nat (length (d_full_path d))) (of_nat (length (d_name d)))) 64"

definition file_event_size :: "file_record \<Rightarrow> u64" where
  "file_event_size f = sat_add (sat_add (of_nat (length (f_full_path f))) (of_nat (length (f_name f)))) 128"

definition count_file_bytes :: "file_record \<Rightarrow> event_pipeline \<Rightarrow> event_pipeline" where
  "count_file_bytes f p = p\<lparr>ep_progress :=
    (ep_progress p)\<lparr>p_completed_bytes := sat_add (p_completed_bytes (ep_progress p)) (f_size_bytes f)\<rparr>\<rparr>"

definition emit_session_started :: "(nat \<Rightarrow> nat) \<Rightarrow> volume_record \<Rightarrow> outlet \<Rightarrow> outlet" where
  "emit_session_started alloc v = enqueue alloc (SessionStarted v) 128"

definition emit_volume_discovered :: "(nat \<Rightarrow> nat) \<Rightarrow> volume_record \<Rightarrow> outlet \<Rightarrow> outlet" where
  "emit_volume_discovered alloc v = enqueue alloc (VolumeDiscovered v) 128"

definition pipe_directory :: "(nat \<Rightarrow> nat) \<Rightarrow> directory_record \<Rightarrow> outlet \<Rightarrow> outlet" where
  "pipe_directory alloc d = enqueue alloc (DirectoryFound d) (directory_size d)"

definition pipe_file :: "(nat \<Rightarrow> nat) \<Rightarrow> file_record \<Rightarrow> outlet \<Rightarrow> outlet" where
  "pipe_file alloc f = (\<lambda>(p, d). enqueue alloc (FileFound f) (file_event_size f) (count_file_bytes f p, d))"

fun estimated_event_bytes :: "scan_event \<Rightarrow> u64" where
  "estimated_event_bytes (SessionStarted _) = 128"
| "estimated_event_bytes (VolumeDiscovered _) = 128"
| "estimated_event_bytes (DirectoryFound d) = directory_size d"
| "estimated_event_bytes (FileFound f) = file_event_size f"
| "estimated_event_bytes (Issue _) = 96"
| "estimated_event_bytes (Progress _) = 32"
| "estimated_event_bytes (Summary _) = 64"
| "estimated_event_bytes _ = 16"

definition emit_event :: "(nat \<Rightarrow> nat) \<Rightarrow> scan_event \<Rightarrow> outlet \<Rightarrow> outlet" where
  "emit_event alloc event = (\<lambda>(p, d). enqueue alloc event (estimated_event_bytes event)
    (case event of FileFound f \<Rightarrow> count_file_bytes f p | _ \<Rightarrow> p, d))"

definition emit_issue :: "(nat \<Rightarrow> nat) \<Rightarrow> scan_issue_record \<Rightarrow> outlet \<Rightarrow> outlet" where
  "emit_issue alloc issue = enqueue alloc (Issue issue) 96"

definition emit_progress :: "(nat \<Rightarrow> nat) \<Rightarrow> u64 \<Rightarrow> u64 \<Rightarrow> u64 \<Rightarrow> outlet \<Rightarrow> outlet" where
  "emit_progress alloc completed_items total_items total_bytes = (\<lambda>(p, d).
    let progress = (ep_progress p)\<lparr>p_completed_items := completed_items, p_total_items := total_items, p_total_bytes := total_bytes\<rparr>
    in enqueue alloc (Progress progress) 32 (p\<lparr>ep_progress := progress\<rparr>, d))"

definition emit_summary :: "(nat \<Rightarrow> nat) \<Rightarrow> scan_summary \<Rightarrow> outlet \<Rightarrow> outlet" where
  "emit_summary alloc s = enqueue alloc (Summary s) 64"

definition emit_completed :: "(nat \<Rightarrow> nat) \<Rightarrow> outlet \<Rightarrow> outlet" where
  "emit_completed alloc = enqueue alloc EvCompleted 16"

definition emit_cancelled :: "(nat \<Rightarrow> nat) \<Rightarrow> outlet \<Rightarrow> outlet" where
  "emit_cancelled alloc = enqueue alloc EvCancelled 16"

section \<open>The consumer\<close>

text \<open>
  What a receive gives: a batch, the disconnection of every producer, or the deadline. \<open>consume\<close> is the callback
  with its state.
\<close>

datatype receipt = Received arena | Disconnected | Timed_out

text \<open>\<open>None\<close>: more batches are awaited.\<close>

fun for_each_event_until :: "nat \<Rightarrow> ('s \<Rightarrow> scan_event \<Rightarrow> 's) \<Rightarrow> receipt list \<Rightarrow> nat list \<times> 's \<Rightarrow> bool option \<times> nat list \<times> 's" where
  "for_each_event_until room consume [] s = (None, s)"
| "for_each_event_until room consume (Received batch # rs) (pool, s) =
    for_each_event_until room consume rs (recycle room (ar_capacity batch) pool, foldl consume s (ar_events batch))"
| "for_each_event_until room consume (Disconnected # rs) s = (Some True, s)"
| "for_each_event_until room consume (Timed_out # rs) s = (Some False, s)"

section \<open>The pool is bounded\<close>

definition pool_ok :: "nat \<Rightarrow> nat list \<Rightarrow> bool" where
  "pool_ok room pool \<longleftrightarrow> length pool \<le> max_pooled_batches \<and> (\<forall>c\<in>set pool. 0 < c \<and> c \<le> room)"

lemma position_of_Some: "position_of p xs = Some i \<Longrightarrow> i < length xs \<and> p (xs ! i)"
  by (induction xs arbitrary: i) (auto split: if_splits)

lemma set_swap_remove: "i < length xs \<Longrightarrow> set (butlast (xs[i := last xs])) \<subseteq> set xs"
  using set_update_subset_insert [of xs i "last xs"] last_in_set [of xs] by (fastforce dest: in_set_butlastD)

lemma pool_take_ok:
  assumes "pool_ok room pool" "pool_take minimum pool = (capacity, pool')"
  shows "pool_ok room pool'" "capacity = 0 \<or> capacity \<ge> minimum"
proof -
  have "pool_ok room pool' \<and> (capacity = 0 \<or> capacity \<ge> minimum)"
  proof (cases "position_of (\<lambda>c. c \<ge> minimum) pool")
    case None
    then show ?thesis using assms by (simp add: pool_take_def)
  next
    case (Some i)
    with position_of_Some [OF Some] set_swap_remove [of i pool] assms show ?thesis
      by (auto simp: pool_take_def pool_ok_def)
  qed
  then show "pool_ok room pool'" "capacity = 0 \<or> capacity \<ge> minimum" by blast+
qed

lemma recycle_ok:
  assumes "pool_ok room pool"
  shows "pool_ok room (recycle room capacity pool)"
  using assms set_update_subset_insert
  by (fastforce simp: recycle_def pool_ok_def split: option.splits)

section \<open>What a producer sends\<close>

definition pipe_ok :: "scan_pipeline_config \<Rightarrow> event_pipeline \<Rightarrow> bool" where
  "pipe_ok config p \<longleftrightarrow> ep_config p = config \<and> (ep_buffer p = empty_arena
    \<or> 0 < length (ar_events (ep_buffer p)) \<and> length (ar_events (ep_buffer p)) < max (pc_batch_size config) 1
      \<and> max (pc_batch_size config) 1 \<le> ar_capacity (ep_buffer p))"

definition batch_ok :: "scan_pipeline_config \<Rightarrow> arena \<Rightarrow> bool" where
  "batch_ok config b \<longleftrightarrow> 0 < length (ar_events b) \<and> length (ar_events b) \<le> max (pc_batch_size config) 1
    \<and> length (ar_events b) \<le> ar_capacity b"

text \<open>\<open>bs\<close> are the batches a producer sent between two states, and \<open>es\<close> the events it queued.\<close>

definition sends :: "scan_pipeline_config \<Rightarrow> outlet \<Rightarrow> outlet \<Rightarrow> arena list \<Rightarrow> scan_event list \<Rightarrow> bool" where
  "sends config = (\<lambda>(p, d) (p', d') bs es. pipe_ok config p' \<and> list_all (batch_ok config) bs
    \<and> concat (map ar_events bs) @ ar_events (ep_buffer p') = ar_events (ep_buffer p) @ es
    \<and> dl_connected d' = dl_connected d \<and> (dl_connected d \<longrightarrow> dl_queue d' = dl_queue d @ bs)
    \<and> (\<not> dl_connected d \<longrightarrow> dl_queue d' = dl_queue d))"

lemma flush_sends:
  assumes "pipe_ok config p"
  shows "\<exists>bs. sends config (p, d) (pipeline_flush (p, d)) bs []" "dl_pool (snd (pipeline_flush (p, d))) = dl_pool d"
proof -
  show "\<exists>bs. sends config (p, d) (pipeline_flush (p, d)) bs []"
  proof (cases "ar_events (ep_buffer p) = []")
    case True
    then show ?thesis using assms by (intro exI [of _ "[]"]) (simp add: sends_def pipeline_flush_def)
  next
    case False
    then show ?thesis using assms
      by (intro exI [of _ "[ep_buffer p]"])
        (auto simp: sends_def pipeline_flush_def pipe_ok_def batch_ok_def send_batch_def empty_arena_def)
  qed
  show "dl_pool (snd (pipeline_flush (p, d))) = dl_pool d" by (simp add: pipeline_flush_def send_batch_def)
qed

lemma reserve_buffer_ok:
  assumes "pipe_ok config p" "pool_ok room (dl_pool d)" "\<And>n. n \<le> alloc n" "reserve_buffer alloc force (p, d) = (p', d')"
  shows "ar_events (ep_buffer p') = ar_events (ep_buffer p)" "ep_config p' = config"
    "length (ar_events (ep_buffer p')) < ar_capacity (ep_buffer p')"
    "ar_events (ep_buffer p) = [] \<and> force \<or> max (pc_batch_size config) 1 \<le> ar_capacity (ep_buffer p')"
    "length (ar_events (ep_buffer p)) < max (pc_batch_size config) 1"
    "dl_queue d' = dl_queue d" "dl_connected d' = dl_connected d" "pool_ok room (dl_pool d')"
proof -
  have "ar_events (ep_buffer p') = ar_events (ep_buffer p) \<and> ep_config p' = config
    \<and> length (ar_events (ep_buffer p')) < ar_capacity (ep_buffer p')
    \<and> (ar_events (ep_buffer p) = [] \<and> force \<or> max (pc_batch_size config) 1 \<le> ar_capacity (ep_buffer p'))
    \<and> length (ar_events (ep_buffer p)) < max (pc_batch_size config) 1
    \<and> dl_queue d' = dl_queue d \<and> dl_connected d' = dl_connected d \<and> pool_ok room (dl_pool d')"
  proof (cases "ar_capacity (ep_buffer p) = 0")
    case False
    then show ?thesis using assms(1,2,4) by (auto simp: reserve_buffer_def pipe_ok_def empty_arena_def)
  next
    case True
    then have empty: "ep_buffer p = empty_arena" using assms(1) by (auto simp: pipe_ok_def)
    let ?minimum = "if force then 1 else max (pc_batch_size (ep_config p)) 1"
    obtain capacity d1 where take: "take_buffer (ep_sender p) ?minimum d = (capacity, d1)" by (cases "take_buffer (ep_sender p) ?minimum d")
    have d1: "dl_queue d1 = dl_queue d" "dl_connected d1 = dl_connected d" "pool_ok room (dl_pool d1)"
      using take assms(2) pool_take_ok(1) [OF assms(2)]
      by (auto simp: take_buffer_def split: event_batch_sender.splits prod.splits)
    have "?minimum \<le> (if capacity < ?minimum then alloc ?minimum else capacity)" using assms(3) by (simp add: not_less)
    then show ?thesis using assms(1,4) True d1 empty take unfolding reserve_buffer_def
      by (auto simp: pipe_ok_def empty_arena_def Let_def split: if_splits)
  qed
  then show "ar_events (ep_buffer p') = ar_events (ep_buffer p)" "ep_config p' = config"
    "length (ar_events (ep_buffer p')) < ar_capacity (ep_buffer p')"
    "ar_events (ep_buffer p) = [] \<and> force \<or> max (pc_batch_size config) 1 \<le> ar_capacity (ep_buffer p')"
    "length (ar_events (ep_buffer p)) < max (pc_batch_size config) 1"
    "dl_queue d' = dl_queue d" "dl_connected d' = dl_connected d" "pool_ok room (dl_pool d')" by blast+
qed

lemma enqueue_sends:
  assumes "pipe_ok config p" "pool_ok room (dl_pool d)" "\<And>n. n \<le> alloc n"
  shows "\<exists>bs. sends config (p, d) (enqueue alloc event estimate (p, d)) bs [event]"
    and "pool_ok room (dl_pool (snd (enqueue alloc event estimate (p, d))))"
proof -
  obtain p1 d1 where r: "reserve_buffer alloc (forces_flush event) (p, d) = (p1, d1)" by fastforce
  note ok = reserve_buffer_ok [OF assms r]
  let ?p = "p1\<lparr>ep_buffer := push_event alloc event (ep_buffer p1), ep_buffered_bytes := sat_add (ep_buffered_bytes p1) estimate\<rparr>"
  have pushed: "push_event alloc event (ep_buffer p1) = \<lparr>ar_events = ar_events (ep_buffer p) @ [event], ar_capacity = ar_capacity (ep_buffer p1)\<rparr>"
    using ok(1,3) by (simp add: push_event_def)
  have eq: "enqueue alloc event estimate (p, d) =
      (if forces_flush event \<or> should_flush ?p then pipeline_flush (?p, d1) else (?p, d1))"
    by (simp add: enqueue_def r Let_def)
  show "pool_ok room (dl_pool (snd (enqueue alloc event estimate (p, d))))"
    using ok(8) by (auto simp: eq pipeline_flush_def send_batch_def)
  show "\<exists>bs. sends config (p, d) (enqueue alloc event estimate (p, d)) bs [event]"
  proof (cases "forces_flush event \<or> should_flush ?p")
    case True
    have "batch_ok config (ep_buffer ?p)" using ok(1,3,5) by (auto simp: batch_ok_def pushed)
    then show ?thesis using True ok
      by (intro exI [of _ "[ep_buffer ?p]"])
        (auto simp: eq sends_def pipeline_flush_def pushed send_batch_def pipe_ok_def empty_arena_def)
  next
    case False
    then have "pipe_ok config ?p" using ok(2,4) by (auto simp: pipe_ok_def pushed should_flush_def)
    then show ?thesis using False ok by (intro exI [of _ "[]"]) (auto simp: eq sends_def pushed)
  qed
qed

section \<open>One producer on a live channel\<close>

text \<open>Everything a producer emitted that no receive has taken, and the part of it that is not progress.\<close>

definition trace :: "outlet \<Rightarrow> scan_event list" where
  "trace = (\<lambda>(p, d). concat (map ar_events (dl_queue d)) @ ar_events (ep_buffer p))"

fun is_progress :: "scan_event \<Rightarrow> bool" where
  "is_progress (Progress _) = True"
| "is_progress _ = False"

definition result_events :: "outlet \<Rightarrow> scan_event list" where
  "result_events out = filter (\<lambda>e. \<not> is_progress e) (trace out)"

definition outlet_ok :: "outlet \<Rightarrow> bool" where
  "outlet_ok = (\<lambda>(p, d). pipe_ok (ep_config p) p \<and> (\<exists>room. pool_ok room (dl_pool d)) \<and> dl_connected d)"

named_theorems emits \<open>what the emitters add to the trace\<close>

lemma pipe_ok_config: "pipe_ok config p \<Longrightarrow> pipe_ok (ep_config p) p"
  by (simp add: pipe_ok_def)

lemma sends_trace:
  assumes "sends config (p, d) out bs es" "dl_connected d"
  shows "trace out = trace (p, d) @ es"
  using assms by (cases out) (auto simp: sends_def trace_def)

lemma enqueue_trace:
  assumes "outlet_ok out" "\<And>n. n \<le> alloc n"
  shows "outlet_ok (enqueue alloc event estimate out) \<and> trace (enqueue alloc event estimate out) = trace out @ [event]"
proof -
  obtain p d where out: "out = (p, d)" by (cases out)
  from assms(1) obtain room where ok: "pipe_ok (ep_config p) p" "pool_ok room (dl_pool d)" "dl_connected d"
    by (auto simp: out outlet_ok_def)
  obtain bs where bs: "sends (ep_config p) (p, d) (enqueue alloc event estimate (p, d)) bs [event]"
    using enqueue_sends(1) [OF ok(1,2) assms(2)] by blast
  obtain p' d' where r: "enqueue alloc event estimate (p, d) = (p', d')" by fastforce
  have "pool_ok room (dl_pool d')" using enqueue_sends(2) [OF ok(1,2) assms(2), of event estimate] by (simp add: r)
  moreover have "pipe_ok (ep_config p') p'" "dl_connected d'"
    using bs ok(3) pipe_ok_config unfolding r by (auto simp: sends_def)
  ultimately show ?thesis using sends_trace [OF bs ok(3)] by (auto simp: out r outlet_ok_def)
qed

lemma flush_trace [emits]:
  assumes "outlet_ok out"
  shows "outlet_ok (pipeline_flush out)" "trace (pipeline_flush out) = trace out"
  using assms by (auto simp: outlet_ok_def pipeline_flush_def trace_def pipe_ok_def send_batch_def empty_arena_def split: prod.splits if_splits)

lemma count_file_bytes_ok: "outlet_ok (count_file_bytes f p, d) = outlet_ok (p, d)" "trace (count_file_bytes f p, d) = trace (p, d)"
  by (simp_all add: outlet_ok_def count_file_bytes_def pipe_ok_def trace_def)

lemma emitters [emits]:
  assumes "outlet_ok out" "\<And>n. n \<le> alloc n"
  shows "outlet_ok (emit_session_started alloc v out)" "trace (emit_session_started alloc v out) = trace out @ [SessionStarted v]"
    "outlet_ok (pipe_directory alloc d out)" "trace (pipe_directory alloc d out) = trace out @ [DirectoryFound d]"
    "outlet_ok (pipe_file alloc f out)" "trace (pipe_file alloc f out) = trace out @ [FileFound f]"
    "outlet_ok (emit_issue alloc i out)" "trace (emit_issue alloc i out) = trace out @ [Issue i]"
    "outlet_ok (emit_summary alloc u out)" "trace (emit_summary alloc u out) = trace out @ [Summary u]"
    "outlet_ok (emit_completed alloc out)" "trace (emit_completed alloc out) = trace out @ [EvCompleted]"
    "outlet_ok (emit_cancelled alloc out)" "trace (emit_cancelled alloc out) = trace out @ [EvCancelled]"
proof -
  obtain p q where out: "out = (p, q)" by (cases out)
  have "outlet_ok (count_file_bytes f p, q)" using assms(1) by (simp add: out count_file_bytes_ok)
  from enqueue_trace [OF this assms(2)]
  show "outlet_ok (pipe_file alloc f out)" "trace (pipe_file alloc f out) = trace out @ [FileFound f]"
    by (simp_all add: pipe_file_def out count_file_bytes_ok)
qed (use enqueue_trace [OF assms] in \<open>simp_all add: emit_session_started_def pipe_directory_def emit_issue_def
      emit_summary_def emit_completed_def emit_cancelled_def\<close>)

lemma emit_progress_events [emits]:
  assumes "outlet_ok out" "\<And>n. n \<le> alloc n"
  shows "outlet_ok (emit_progress alloc done_items all_items bytes out)" "result_events (emit_progress alloc done_items all_items bytes out) = result_events out"
proof -
  obtain p d where out: "out = (p, d)" by (cases out)
  have same: "outlet_ok (p\<lparr>ep_progress := g\<rparr>, d) = outlet_ok (p, d)" "trace (p\<lparr>ep_progress := g\<rparr>, d) = trace (p, d)" for g
    by (simp_all add: outlet_ok_def pipe_ok_def trace_def)
  show "outlet_ok (emit_progress alloc done_items all_items bytes out)" "result_events (emit_progress alloc done_items all_items bytes out) = result_events out"
    using enqueue_trace [OF _ assms(2), of "(p\<lparr>ep_progress := g\<rparr>, d)" for g] assms(1)
    by (simp_all add: emit_progress_def out same Let_def result_events_def)
qed

section \<open>Several producers and one consumer\<close>

datatype pipeline_action = Enqueue nat scan_event u64 | Flush_pipe nat | Consume | Disconnect

text \<open>\<open>py_history\<close> records which producer sent which batch and \<open>py_consumed\<close> what the callback was given.\<close>

record pipeline_system =
  py_pipes :: "nat \<Rightarrow> event_pipeline"
  py_delivery :: delivery
  py_history :: "(nat \<times> arena) list"
  py_consumed :: "scan_event list"

definition produce :: "nat \<Rightarrow> (outlet \<Rightarrow> outlet) \<Rightarrow> pipeline_system \<Rightarrow> pipeline_system" where
  "produce i f s = (let (p, d) = f (py_pipes s i, py_delivery s)
    in s\<lparr>py_pipes := (py_pipes s)(i := p), py_delivery := d,
         py_history := py_history s @ map (Pair i) (drop (length (dl_queue (py_delivery s))) (dl_queue d))\<rparr>)"

definition consume_batch :: "nat \<Rightarrow> pipeline_system \<Rightarrow> pipeline_system" where
  "consume_batch room s = (case dl_queue (py_delivery s) of
     [] \<Rightarrow> s
   | batch # batches \<Rightarrow>
      let (_, pool, consumed) = for_each_event_until room (\<lambda>es e. es @ [e]) [Received batch] (dl_pool (py_delivery s), py_consumed s)
      in s\<lparr>py_delivery := (py_delivery s)\<lparr>dl_queue := batches, dl_pool := pool\<rparr>, py_consumed := consumed\<rparr>)"

fun pipeline_step :: "(nat \<Rightarrow> nat) \<Rightarrow> nat \<Rightarrow> pipeline_action \<Rightarrow> pipeline_system \<Rightarrow> pipeline_system" where
  "pipeline_step alloc room (Enqueue i event estimate) s = produce i (enqueue alloc event estimate) s"
| "pipeline_step alloc room (Flush_pipe i) s = produce i pipeline_flush s"
| "pipeline_step alloc room Consume s = consume_batch room s"
| "pipeline_step alloc room Disconnect s =
    s\<lparr>py_delivery := (py_delivery s)\<lparr>dl_connected := False, dl_queue := []\<rparr>\<rparr>"

definition pipeline_run :: "(nat \<Rightarrow> nat) \<Rightarrow> nat \<Rightarrow> pipeline_action list \<Rightarrow> pipeline_system \<Rightarrow> pipeline_system" where
  "pipeline_run alloc room = fold (pipeline_step alloc room)"

definition pipeline_start :: "(nat \<Rightarrow> event_batch_sender) \<Rightarrow> scan_pipeline_config \<Rightarrow> pipeline_system" where
  "pipeline_start sender config = \<lparr>py_pipes = \<lambda>i. pipeline_new (sender i) config,
    py_delivery = \<lparr>dl_queue = [], dl_connected = True, dl_pool = []\<rparr>, py_history = [], py_consumed = []\<rparr>"

definition batches_of :: "nat \<Rightarrow> (nat \<times> arena) list \<Rightarrow> scan_event list" where
  "batches_of i history = concat (map (ar_events \<circ> snd) (filter (\<lambda>(j, _). j = i) history))"

fun events_emitted :: "nat \<Rightarrow> pipeline_action list \<Rightarrow> scan_event list" where
  "events_emitted i [] = []"
| "events_emitted i (Enqueue j event _ # actions) = (if j = i then event # events_emitted i actions else events_emitted i actions)"
| "events_emitted i (_ # actions) = events_emitted i actions"

definition delivery_ok :: "scan_pipeline_config \<Rightarrow> nat \<Rightarrow> (nat \<Rightarrow> scan_event list) \<Rightarrow> pipeline_system \<Rightarrow> bool" where
  "delivery_ok config room emitted s \<longleftrightarrow>
    (\<forall>i. pipe_ok config (py_pipes s i)) \<and> pool_ok room (dl_pool (py_delivery s))
    \<and> (\<forall>(i, b)\<in>set (py_history s). batch_ok config b)
    \<and> (\<forall>i. \<exists>rest. batches_of i (py_history s) @ rest = emitted i
         \<and> (dl_connected (py_delivery s) \<longrightarrow> rest = ar_events (ep_buffer (py_pipes s i))))
    \<and> (\<exists>rest. py_consumed s @ rest = concat (map (ar_events \<circ> snd) (py_history s))
         \<and> (dl_connected (py_delivery s) \<longrightarrow> rest = concat (map ar_events (dl_queue (py_delivery s)))))
    \<and> (\<not> dl_connected (py_delivery s) \<longrightarrow> dl_queue (py_delivery s) = [])"

lemma batches_of_append: "batches_of i (h @ map (Pair j) bs) = batches_of i h @ (if i = j then concat (map ar_events bs) else [])"
  by (auto simp: batches_of_def filter_map comp_def)

lemma produce_ok:
  assumes ok: "delivery_ok config room emitted s"
    and sends: "\<exists>bs. sends config (py_pipes s i, py_delivery s) (f (py_pipes s i, py_delivery s)) bs es"
    and pool: "pool_ok room (dl_pool (snd (f (py_pipes s i, py_delivery s))))"
  shows "delivery_ok config room (emitted(i := emitted i @ es)) (produce i f s)"
proof -
  obtain p d where f: "f (py_pipes s i, py_delivery s) = (p, d)" by fastforce
  obtain bs where bs: "sends config (py_pipes s i, py_delivery s) (p, d) bs es" using sends f by auto
  have produce: "produce i f s = s\<lparr>py_pipes := (py_pipes s)(i := p), py_delivery := d,
         py_history := py_history s @ map (Pair i) (drop (length (dl_queue (py_delivery s))) (dl_queue d))\<rparr>"
    by (simp add: produce_def f)
  show ?thesis
  proof (cases "dl_connected (py_delivery s)")
    case True
    then show ?thesis using ok bs pool f
      by (auto simp: delivery_ok_def produce sends_def batches_of_append list_all_iff comp_def)
  next
    case False
    have "\<exists>rest. batches_of j (py_history s) @ rest = (emitted(i := emitted i @ es)) j" for j
    proof -
      have "\<exists>rest. batches_of j (py_history s) @ rest = emitted j" using ok unfolding delivery_ok_def by blast
      then obtain rest where "batches_of j (py_history s) @ rest = emitted j" ..
      then have "batches_of j (py_history s) @ (if j = i then rest @ es else rest) = (emitted(i := emitted i @ es)) j" by auto
      then show ?thesis by blast
    qed
    then show ?thesis using False ok bs pool f by (simp add: delivery_ok_def produce sends_def)
  qed
qed

lemma consume_ok:
  assumes "delivery_ok config room emitted s"
  shows "delivery_ok config room emitted (consume_batch room s)"
proof (cases "dl_queue (py_delivery s)")
  case Nil
  then show ?thesis using assms by (simp add: consume_batch_def)
next
  case (Cons b bs)
  have fold: "foldl (\<lambda>es e. es @ [e]) xs ys = xs @ ys" for xs ys :: "scan_event list" by (induction ys arbitrary: xs) auto
  have "dl_connected (py_delivery s)" using assms Cons by (auto simp: delivery_ok_def)
  then show ?thesis using assms Cons recycle_ok by (auto simp: consume_batch_def delivery_ok_def fold)
qed

lemma pipeline_step_ok:
  assumes "delivery_ok config room emitted s" "\<And>n. n \<le> alloc n"
  shows "delivery_ok config room (\<lambda>i. emitted i @ events_emitted i [a]) (pipeline_step alloc room a s)"
proof -
  have pipes: "pipe_ok config (py_pipes s i)" "pool_ok room (dl_pool (py_delivery s))" for i
    using assms(1) by (simp_all add: delivery_ok_def)
  show ?thesis
  proof (cases a)
    case (Enqueue i event estimate)
    have "emitted(i := emitted i @ [event]) = (\<lambda>j. emitted j @ events_emitted j [a])" by (auto simp: Enqueue)
    then show ?thesis
      using produce_ok [where f = "enqueue alloc event estimate" and i = i, OF assms(1) enqueue_sends(1) [OF pipes assms(2)] enqueue_sends(2) [OF pipes assms(2)]]
      by (simp add: Enqueue)
  next
    case (Flush_pipe i)
    have "emitted(i := emitted i @ []) = (\<lambda>j. emitted j @ events_emitted j [a])" by (auto simp: Flush_pipe)
    moreover have "pool_ok room (dl_pool (snd (pipeline_flush (py_pipes s i, py_delivery s))))"
      using flush_sends(2) [OF pipes(1)] pipes(2) by simp
    ultimately show ?thesis
      using produce_ok [where f = pipeline_flush and i = i, OF assms(1) flush_sends(1) [OF pipes(1)]] by (simp add: Flush_pipe)
  next
    case Consume
    then show ?thesis using consume_ok [OF assms(1)] by simp
  next
    case Disconnect
    then show ?thesis using assms(1) by (auto simp: delivery_ok_def)
  qed
qed

lemma events_emitted_append: "events_emitted i (xs @ ys) = events_emitted i xs @ events_emitted i ys"
  by (induction xs rule: events_emitted.induct) auto

lemma pipeline_run_ok:
  assumes "\<And>n. n \<le> alloc n"
  shows "delivery_ok config room (\<lambda>i. events_emitted i actions) (pipeline_run alloc room actions (pipeline_start sender config))"
proof (induction actions rule: rev_induct)
  case Nil
  show ?case
    by (simp add: pipeline_run_def pipeline_start_def delivery_ok_def pool_ok_def pipe_ok_def pipeline_new_def batches_of_def empty_arena_def)
next
  case (snoc a actions)
  from pipeline_step_ok [OF this assms, of a] show ?case by (simp add: pipeline_run_def events_emitted_append)
qed

text \<open>
  C40. Batched delivery. However emissions and flushes of several producers, receives of the consumer and its
  disconnection interleave: every batch holds between one event and the batch size, each producer's batches
  carry the events it emitted in order and, while the receiver lives, all of them but those still in its
  buffer; the callback gets the batches in the order they were sent, and all but those still queued; a buffer
  with events has spare capacity, so pushing never reallocates; and the pool holds at most four arenas of at
  most 64 KiB.
\<close>

theorem delivery_in_order:
  assumes "\<And>n. n \<le> alloc n"
    and "s = pipeline_run alloc room actions (pipeline_start sender config)"
  shows "(\<exists>rest. batches_of i (py_history s) @ rest = events_emitted i actions
      \<and> (dl_connected (py_delivery s) \<longrightarrow> rest = ar_events (ep_buffer (py_pipes s i))))
    \<and> (\<exists>rest. py_consumed s @ rest = concat (map (ar_events \<circ> snd) (py_history s))
      \<and> (dl_connected (py_delivery s) \<longrightarrow> rest = concat (map ar_events (dl_queue (py_delivery s)))))
    \<and> (\<forall>(j, b)\<in>set (py_history s). 0 < length (ar_events b) \<and> length (ar_events b) \<le> max (pc_batch_size config) 1)
    \<and> (ar_events (ep_buffer (py_pipes s i)) \<noteq> [] \<longrightarrow>
      length (ar_events (ep_buffer (py_pipes s i))) < ar_capacity (ep_buffer (py_pipes s i)))
    \<and> length (dl_pool (py_delivery s)) \<le> 4 \<and> (\<forall>c\<in>set (dl_pool (py_delivery s)). c \<le> room)"
proof -
  have ok: "delivery_ok config room (\<lambda>i. events_emitted i actions) s"
    unfolding assms(2) using assms(1) by (rule pipeline_run_ok)
  have "pipe_ok config (py_pipes s i)" "pool_ok room (dl_pool (py_delivery s))"
    "\<forall>(j, b)\<in>set (py_history s). batch_ok config b"
    using ok by (simp_all add: delivery_ok_def)
  then have "(ar_events (ep_buffer (py_pipes s i)) \<noteq> [] \<longrightarrow>
      length (ar_events (ep_buffer (py_pipes s i))) < ar_capacity (ep_buffer (py_pipes s i)))"
    "length (dl_pool (py_delivery s)) \<le> 4 \<and> (\<forall>c\<in>set (dl_pool (py_delivery s)). c \<le> room)"
    "\<forall>(j, b)\<in>set (py_history s). 0 < length (ar_events b) \<and> length (ar_events b) \<le> max (pc_batch_size config) 1"
    by (auto simp: pipe_ok_def batch_ok_def pool_ok_def empty_arena_def max_pooled_batches_def)
  with ok show ?thesis unfolding delivery_ok_def by blast
qed

lemma delivery_in_order_witness:
  "let s = pipeline_run (\<lambda>n. n) 100 [Enqueue 0 (EvFailed ''a'') 16, Enqueue 1 EvCompleted 16, Consume]
      (pipeline_start (\<lambda>_. Recycling) scan_pipeline_config_default)
    in py_consumed s = [EvFailed ''a''] \<and> batches_of 1 (py_history s) = [EvCompleted] \<and> length (dl_pool (py_delivery s)) \<le> 4"
  using delivery_in_order [OF _ refl, where alloc = "\<lambda>n. n" and room = 100 and i = 1 and sender = "\<lambda>_. Recycling"
      and config = scan_pipeline_config_default and actions = "[Enqueue 0 (EvFailed ''a'') 16, Enqueue 1 EvCompleted 16, Consume]"]
  by (simp add: pipeline_run_def pipeline_start_def pipeline_new_def produce_def enqueue_def reserve_buffer_def
      empty_arena_def take_buffer_def pool_take_def Let_def push_event_def pipeline_flush_def send_batch_def
      consume_batch_def recycle_def max_pooled_batches_def batches_of_def scan_pipeline_config_default_def)

end
