(* ===== verification/Scan_Policy.thy ===== *)
theory Scan_Policy
  imports Core_Model Event_Pipeline Catalog_Export
begin

text \<open>
  What the scanner decides before and while it walks: \<open>WinBlaze.Scanner/src/policy.rs\<close> (reparse points),
  \<open>errors.rs\<close> (kinds of I/O errors), \<open>scheduler.rs\<close>, the rules and the configuration of \<open>types.rs\<close>, and
  \<open>filesystem.rs\<close> (roots and back ends). The path operations of the standard library and the drives of the
  machine are the fields of \<open>host_paths\<close>; a path is the string it was made from.
\<close>

type_synonym os_path = string

section \<open>Reparse points\<close>

datatype reparse_traversal_policy = SkipAll | FollowMountPointsAndJunctions | FollowAll

datatype reparse_target_kind = Junction | Symlink | MountPoint

definition starts_with_str :: "string \<Rightarrow> string \<Rightarrow> bool" where
  "starts_with_str p s \<longleftrightarrow> take (length p) s = p"

definition verbatim :: string where "verbatim = [backslash, backslash, CHR ''?'', backslash]"

definition classify_reparse_target :: "string \<Rightarrow> u32 \<Rightarrow> reparse_target_kind option" where
  "classify_reparse_target path_text attributes =
    (if \<not> is_reparse_point attributes then None
     else if starts_with_str (verbatim @ ''Volume{'') path_text
         \<or> starts_with_str ([backslash, backslash, CHR ''.'', backslash] @ ''Volume'') path_text then Some MountPoint
     else if is_directory attributes then Some Junction
     else Some Symlink)"

definition should_follow_reparse_target :: "reparse_target_kind \<Rightarrow> reparse_traversal_policy \<Rightarrow> bool" where
  "should_follow_reparse_target kind policy = (case policy of
     SkipAll \<Rightarrow> False
   | FollowMountPointsAndJunctions \<Rightarrow> kind \<noteq> Symlink
   | FollowAll \<Rightarrow> True)"

definition should_descend_into_reparse_target :: "string \<Rightarrow> u32 \<Rightarrow> reparse_traversal_policy \<Rightarrow> bool" where
  "should_descend_into_reparse_target path_text attributes policy =
    (case classify_reparse_target path_text attributes of
       Some kind \<Rightarrow> should_follow_reparse_target kind policy | None \<Rightarrow> True)"

section \<open>I/O errors\<close>

datatype host_error_kind = KindPermissionDenied | KindNotFound | KindWouldBlock | KindInterrupted | KindTimedOut | KindBrokenPipe
  | KindConnectionAborted | KindConnectionReset | KindUnexpectedEof | KindWriteZero | KindOther

record host_error =
  io_raw_os_error :: "int option"
  io_kind :: host_error_kind
  io_text :: string

datatype scan_error_kind = ScanPermissionDenied | ScanNotFound | ScanSharingViolation | ScanTransientIo
  | ScanUnsupportedFilesystem | ScanUnknown

definition classify_io_error_kind :: "host_error_kind \<Rightarrow> scan_error_kind" where
  "classify_io_error_kind kind = (case kind of
     KindPermissionDenied \<Rightarrow> ScanPermissionDenied
   | KindNotFound \<Rightarrow> ScanNotFound
   | KindOther \<Rightarrow> ScanUnknown
   | _ \<Rightarrow> ScanTransientIo)"

text \<open>Not ready, missing device, open failed, 116, semaphore timeout, no media, I/O device, not connected, aborted, request aborted.\<close>

definition transient_codes :: "int list" where
  "transient_codes = [21, 55, 110, 116, 121, 1112, 1117, 1167, 995, 1235]"

definition classify_io_error :: "host_error \<Rightarrow> scan_error_kind" where
  "classify_io_error e = (case io_raw_os_error e of
     Some code \<Rightarrow>
       if code = 2 \<or> code = 3 \<or> code = 267 then ScanNotFound
       else if code = 5 then ScanPermissionDenied
       else if code = 32 \<or> code = 33 then ScanSharingViolation
       else if code \<in> set transient_codes then ScanTransientIo
       else classify_io_error_kind (io_kind e)
   | None \<Rightarrow> classify_io_error_kind (io_kind e))"

definition is_permission_failure :: "host_error \<Rightarrow> bool" where
  "is_permission_failure e \<longleftrightarrow> io_kind e = KindPermissionDenied"

definition is_transient_io_error :: "host_error \<Rightarrow> bool" where
  "is_transient_io_error e \<longleftrightarrow> classify_io_error e = ScanTransientIo"

text \<open>\<open>convert_io_error\<close> of \<open>controller.rs\<close>.\<close>

definition convert_io_error :: "host_error \<Rightarrow> string \<Rightarrow> scan_issue_record" where
  "convert_io_error e path = \<lparr>i_kind = (case classify_io_error e of
       ScanPermissionDenied \<Rightarrow> PermissionDenied
     | ScanNotFound \<Rightarrow> NotFound
     | ScanSharingViolation \<Rightarrow> SharingViolation
     | ScanTransientIo \<Rightarrow> TransientIo
     | ScanUnsupportedFilesystem \<Rightarrow> UnsupportedFilesystem
     | ScanUnknown \<Rightarrow> UnknownIssue),
    i_path = Some path, i_message = io_text e\<rparr>"

section \<open>Workers\<close>

definition worker_count_for_work :: "nat \<Rightarrow> nat \<Rightarrow> nat" where
  "worker_count_for_work limit available = min (max limit 1) (max available 1)"

section \<open>Paths of the host\<close>

text \<open>A drive or network share, verbatim or not.\<close>

datatype path_prefix = PrefixDisk char | PrefixUNC string string | PrefixOther

datatype path_component = Prefix path_prefix string | RootDir | CurDir | ParentDir | Normal string

record host_paths =
  hp_components :: "os_path \<Rightarrow> path_component list"
  hp_push :: "os_path \<Rightarrow> string \<Rightarrow> os_path"
  hp_pop :: "os_path \<Rightarrow> os_path"
  hp_lossy :: "os_path \<Rightarrow> string"
  hp_file_name :: "os_path \<Rightarrow> string option"
  hp_strip_prefix :: "os_path \<Rightarrow> os_path \<Rightarrow> os_path option"
  hp_equal :: "os_path \<Rightarrow> os_path \<Rightarrow> bool"
  hp_lowercase :: "string \<Rightarrow> string"

definition push_component :: "host_paths \<Rightarrow> os_path \<Rightarrow> path_component \<Rightarrow> os_path" where
  "push_component h output component = (case component of
     Prefix _ written \<Rightarrow> hp_push h output written
   | RootDir \<Rightarrow> hp_push h output [backslash]
   | CurDir \<Rightarrow> output
   | ParentDir \<Rightarrow> hp_pop h output
   | Normal part \<Rightarrow> hp_push h output part)"

definition normalize_scan_root :: "host_paths \<Rightarrow> os_path \<Rightarrow> os_path" where
  "normalize_scan_root h input = foldl (push_component h) [] (hp_components h input)"

definition is_long_path :: "host_paths \<Rightarrow> os_path \<Rightarrow> bool" where
  "is_long_path h path \<longleftrightarrow> length (hp_lossy h path) \<ge> 260 \<and> \<not> starts_with_str verbatim (hp_lossy h path)"

record volume_root_candidate =
  vc_normalized_path :: os_path
  vc_root_path :: os_path
  vc_drive_letter :: "char option"
  vc_is_unc :: bool
  vc_is_long_path :: bool

definition ascii_upper :: "char \<Rightarrow> char" where
  "ascii_upper c = (let k = of_char c :: nat in if 97 \<le> k \<and> k \<le> 122 then char_of (k - 32) else c)"

definition discover_volume_root :: "host_paths \<Rightarrow> os_path \<Rightarrow> volume_root_candidate option" where
  "discover_volume_root h path =
    (let normalized_path = normalize_scan_root h path in
     case hp_components h normalized_path of
       Prefix (PrefixDisk letter) _ # _ \<Rightarrow> Some
         \<lparr>vc_normalized_path = normalized_path, vc_root_path = [ascii_upper letter, CHR '':'', backslash],
          vc_drive_letter = Some (ascii_upper letter), vc_is_unc = False, vc_is_long_path = is_long_path h path\<rparr>
     | Prefix (PrefixUNC server share) _ # _ \<Rightarrow> Some
         \<lparr>vc_normalized_path = normalized_path,
          vc_root_path = [backslash, backslash] @ hp_lossy h server @ [backslash] @ hp_lossy h share @ [backslash],
          vc_drive_letter = None, vc_is_unc = True, vc_is_long_path = is_long_path h path\<rparr>
     | _ \<Rightarrow> None)"

datatype scan_backend = NtfsMft | DirectoryWalk

definition is_volume_root :: "host_paths \<Rightarrow> volume_root_candidate option \<Rightarrow> bool" where
  "is_volume_root h candidate = (case candidate of
     Some c \<Rightarrow> hp_equal h (vc_normalized_path c) (vc_root_path c) | None \<Rightarrow> False)"

definition select_scan_backend :: "host_paths \<Rightarrow> os_path \<Rightarrow> scan_backend" where
  "select_scan_backend h path = (if is_volume_root h (discover_volume_root h path) then NtfsMft else DirectoryWalk)"

text \<open>\<open>drives\<close> is the answer of \<open>GetLogicalDrives\<close> and \<open>exists\<close> that of the probes.\<close>

definition drive_root :: "nat \<Rightarrow> os_path" where
  "drive_root index = [char_of (65 + index), CHR '':'', backslash]"

definition discover_drive_roots_by_probe :: "(os_path \<Rightarrow> bool) \<Rightarrow> os_path list" where
  "discover_drive_roots_by_probe exists = filter exists (map drive_root [0..<26])"

definition discover_available_drive_roots :: "u32 \<Rightarrow> (os_path \<Rightarrow> bool) \<Rightarrow> os_path list" where
  "discover_available_drive_roots drives exists =
    (if drives \<noteq> 0 then map drive_root (filter (\<lambda>index. drives AND push_bit index 1 \<noteq> 0) [0..<26])
     else discover_drive_roots_by_probe exists)"

record scan_access_plan =
  ap_requested_root :: os_path
  ap_selected_root :: os_path
  ap_root_candidate :: "volume_root_candidate option"
  ap_primary_backend :: scan_backend
  ap_fallback_backend :: scan_backend
  ap_available_drive_roots :: "os_path list"

definition build_scan_access_plan :: "host_paths \<Rightarrow> u32 \<Rightarrow> (os_path \<Rightarrow> bool) \<Rightarrow> os_path \<Rightarrow> scan_backend \<Rightarrow> scan_access_plan" where
  "build_scan_access_plan h drives exists root preferred_backend =
    (let normalized_root = normalize_scan_root h root;
         root_candidate = discover_volume_root h normalized_root;
         roots = discover_available_drive_roots drives exists;
         requested_volume_root = is_volume_root h root_candidate;
         selected_root = (if normalized_root = [] then (case roots of r # _ \<Rightarrow> r | [] \<Rightarrow> drive_root 2)
           else if requested_volume_root then (case root_candidate of Some c \<Rightarrow> vc_root_path c | None \<Rightarrow> normalized_root)
           else normalized_root)
     in \<lparr>ap_requested_root = root, ap_selected_root = selected_root, ap_root_candidate = root_candidate,
         ap_primary_backend = (if preferred_backend = NtfsMft \<and> requested_volume_root then NtfsMft else DirectoryWalk),
         ap_fallback_backend = DirectoryWalk, ap_available_drive_roots = roots\<rparr>)"

section \<open>Rules and configuration\<close>

record scan_rules =
  sr_exclude_paths :: "string list"
  sr_include_files :: "string list"

definition rules_empty :: "scan_rules \<Rightarrow> bool" where
  "rules_empty r \<longleftrightarrow> sr_exclude_paths r = [] \<and> sr_include_files r = []"

definition scan_wildcard :: "string \<Rightarrow> string \<Rightarrow> bool option" where
  "scan_wildcard pattern name = wildcard_loop (\<lambda>c x. c = 63 \<or> c = x) (\<lambda>c. c = 42) (code_points pattern) (code_points name) 0 0 None 0"

definition backslashes :: "string \<Rightarrow> string" where
  "backslashes = map (\<lambda>c. if c = CHR ''/'' then backslash else c)"

definition trim_slashes :: "string \<Rightarrow> string" where
  "trim_slashes s = (let slash = (\<lambda>c. c = CHR ''/'' \<or> c = backslash) in rev (dropWhile slash (rev (dropWhile slash s))))"

definition excluded_by :: "host_paths \<Rightarrow> string \<Rightarrow> string \<Rightarrow> bool" where
  "excluded_by h relative rule =
    (let rule = hp_lowercase h (backslashes (trim_slashes (trim rule)))
     in rule \<noteq> [] \<and> (relative = rule \<or> starts_with_str (rule @ [backslash]) relative))"

definition rules_allow :: "host_paths \<Rightarrow> scan_rules \<Rightarrow> os_path \<Rightarrow> os_path \<Rightarrow> bool \<Rightarrow> bool" where
  "rules_allow h r root path directory =
    (let relative = hp_lowercase h (backslashes (hp_lossy h (case hp_strip_prefix h root path of Some rest \<Rightarrow> rest | None \<Rightarrow> path)))
     in if list_ex (excluded_by h relative) (sr_exclude_paths r) then False
        else directory \<or> sr_include_files r = []
          \<or> list_ex (\<lambda>pattern. scan_wildcard (hp_lowercase h pattern)
               (hp_lowercase h (hp_lossy h (case hp_file_name h path of Some name \<Rightarrow> name | None \<Rightarrow> []))) = Some True)
             (sr_include_files r))"

record scan_runtime_config =
  rc_rules :: scan_rules
  rc_backend :: scan_backend
  rc_max_parallelism :: nat
  rc_directory_walk_max_parallelism :: nat
  rc_emit_partial_results :: bool
  rc_root_path :: os_path
  rc_reparse_policy :: reparse_traversal_policy
  rc_pipeline :: scan_pipeline_config
  rc_fast_enumeration :: bool

text \<open>\<open>parallelism\<close> is the answer of the machine, if it has one.\<close>

definition scan_runtime_config_default :: "nat option \<Rightarrow> scan_runtime_config" where
  "scan_runtime_config_default parallelism =
    \<lparr>rc_rules = \<lparr>sr_exclude_paths = [], sr_include_files = []\<rparr>, rc_backend = NtfsMft,
     rc_max_parallelism = (case parallelism of Some n \<Rightarrow> n | None \<Rightarrow> 4), rc_directory_walk_max_parallelism = 4,
     rc_emit_partial_results = False, rc_root_path = [], rc_reparse_policy = SkipAll,
     rc_pipeline = scan_pipeline_config_default, rc_fast_enumeration = True\<rparr>"

definition directory_walk_worker_count :: "scan_runtime_config \<Rightarrow> nat" where
  "directory_walk_worker_count c = min (max (rc_max_parallelism c) 1) (max (rc_directory_walk_max_parallelism c) 1)"

definition normalized_root_path :: "host_paths \<Rightarrow> scan_runtime_config \<Rightarrow> os_path" where
  "normalized_root_path h c = normalize_scan_root h (rc_root_path c)"

definition backend_hint :: "host_paths \<Rightarrow> scan_runtime_config \<Rightarrow> scan_backend" where
  "backend_hint h c = (case rc_backend c of
     DirectoryWalk \<Rightarrow> DirectoryWalk
   | NtfsMft \<Rightarrow> if rc_root_path c = [] then NtfsMft else select_scan_backend h (rc_root_path c))"

definition config_is_long_path :: "host_paths \<Rightarrow> scan_runtime_config \<Rightarrow> bool" where
  "config_is_long_path h c = is_long_path h (rc_root_path c)"

definition follows_reparse_points :: "scan_runtime_config \<Rightarrow> bool" where
  "follows_reparse_points c \<longleftrightarrow> rc_reparse_policy c \<noteq> SkipAll"

section \<open>What they decide\<close>

lemma should_descend_cases:
  "should_descend_into_reparse_target path attributes policy \<longleftrightarrow>
    \<not> is_reparse_point attributes \<or> policy = FollowAll
    \<or> policy = FollowMountPointsAndJunctions \<and> classify_reparse_target path attributes \<noteq> Some Symlink"
  by (cases policy) (auto simp: should_descend_into_reparse_target_def should_follow_reparse_target_def
      classify_reparse_target_def)

lemma directory_reparse_point_is_no_symlink:
  "is_directory attributes \<Longrightarrow> classify_reparse_target path attributes \<noteq> Some Symlink"
  by (simp add: classify_reparse_target_def)

lemma worker_count_for_work_bounds:
  "1 \<le> worker_count_for_work limit available" "worker_count_for_work limit available \<le> max limit 1"
  "0 < available \<Longrightarrow> worker_count_for_work limit available \<le> available"
  by (auto simp: worker_count_for_work_def)

lemma directory_walk_worker_count_bounds:
  "1 \<le> directory_walk_worker_count c" "directory_walk_worker_count c \<le> max (rc_max_parallelism c) 1"
  by (auto simp: directory_walk_worker_count_def)

lemma volume_root_uses_mft:
  assumes "rc_backend c = NtfsMft" "rc_root_path c \<noteq> []"
  shows "backend_hint h c = NtfsMft \<longleftrightarrow> is_volume_root h (discover_volume_root h (rc_root_path c))"
  using assms by (simp add: backend_hint_def select_scan_backend_def)

end
