(* ===== verification/Allocation_Tracker.thy ===== *)
theory Allocation_Tracker
  imports Wb_Prelude
begin

text \<open>
  \<open>WinBlaze.Scanner/src/allocation.rs\<close>: the physical bytes of a file with several names are counted once per
  volume and file identity. The seen identities of a volume are a hash set that is compacted into a window of
  bits when they cluster. \<open>iter\<close> is the enumeration order of a hash set of \<open>u64\<close>; \<open>None\<close> is a panic of
  \<open>copy_from_slice\<close>.
\<close>

type_synonym u128 = "128 word"

section \<open>The window of bits\<close>

record dense_identities =
  de_first :: u64
  de_words :: "u64 list"
  de_count :: nat

definition window_index :: "u64 \<Rightarrow> u64 list \<Rightarrow> u64 \<Rightarrow> nat option" where
  "window_index first words file =
    Option.bind (checked_sub file first) (\<lambda>offset.
      let index = unat offset div 64 in if index < length words then Some index else None)"

definition window_bit :: "u64 \<Rightarrow> u64 \<Rightarrow> u64" where
  "window_bit first file = push_bit (unat (file - first) mod 64) 1"

definition narrow_compaction_start :: nat where
  "narrow_compaction_start = 4096"

record narrow_identities =
  na_sparse :: "u64 set"
  na_dense :: "dense_identities option"
  na_next_compaction :: nat

definition narrow_default :: narrow_identities where
  "narrow_default = \<lparr>na_sparse = {}, na_dense = None, na_next_compaction = narrow_compaction_start\<rparr>"

section \<open>Compaction\<close>

definition majority_prefix :: "u64 list \<Rightarrow> u64" where
  "majority_prefix files = fst (foldl (\<lambda>(candidate, votes :: nat) file.
     let prefix = drop_bit 32 file
     in if votes = 0 then (prefix, 1) else if prefix = candidate then (candidate, votes + 1) else (candidate, votes - 1))
     (0, 0) files)"

definition prefix_range :: "u64 \<Rightarrow> u64 list \<Rightarrow> u64 \<times> u64 \<times> nat" where
  "prefix_range prefix files = foldl (\<lambda>(first, last, count) file.
     if drop_bit 32 file = prefix then (min first (file AND NOT 63), max last file, count + 1) else (first, last, count))
     (- 1, 0, 0) files"

function power_above :: "nat \<Rightarrow> nat \<Rightarrow> nat" where
  "power_above k n = (if n \<le> k \<or> k = 0 then k else power_above (2 * k) n)"
  by pat_completeness auto
termination by (relation "measure (\<lambda>(k, n). n - k)") auto

declare power_above.simps [simp del]

definition next_power_of_two :: "nat \<Rightarrow> nat" where
  "next_power_of_two n = power_above 1 n"

definition copy_from_slice :: "nat \<Rightarrow> 'a list \<Rightarrow> 'a list \<Rightarrow> 'a list option" where
  "copy_from_slice offset source target =
    (if offset + length source \<le> length target
     then Some (take offset target @ source @ drop (offset + length source) target) else None)"

text \<open>\<open>retain\<close>: a file inside the window moves into it.\<close>

definition retain_file :: "u64 \<Rightarrow> u64 list \<times> nat \<times> u64 set \<Rightarrow> u64 \<Rightarrow> u64 list \<times> nat \<times> u64 set" where
  "retain_file first = (\<lambda>(words, count, sparse) file.
    case window_index first words file of
      Some index \<Rightarrow> (words[index := words ! index OR window_bit first file], count + 1, sparse - {file})
    | None \<Rightarrow> (words, count, sparse))"

definition retry_later :: "narrow_identities \<Rightarrow> narrow_identities" where
  "retry_later n = n\<lparr>na_next_compaction := min (card (na_sparse n) * 2) (2 ^ 64 - 1)\<rparr>"

definition compact_prefix :: "(u64 set \<Rightarrow> u64 list) \<Rightarrow> narrow_identities \<Rightarrow> u64" where
  "compact_prefix iter n = (case na_dense n of
     Some dense \<Rightarrow> drop_bit 32 (de_first dense) | None \<Rightarrow> majority_prefix (iter (na_sparse n)))"

text \<open>The new window: its start, its number of words and the number of known members.\<close>

definition window_plan :: "dense_identities option \<Rightarrow> u64 \<times> u64 \<times> nat \<Rightarrow> u64 \<times> nat \<times> nat" where
  "window_plan dense_option = (\<lambda>(first, last, count).
    let (first, last, count) = (case dense_option of
          Some dense \<Rightarrow> (min first (de_first dense),
            max last (de_first dense + (word_of_nat (length (de_words dense)) * 64 - 1)), count + de_count dense)
        | None \<Rightarrow> (first, last, count))
    in (first, next_power_of_two ((unat last - unat first) div 64 + 1), count))"

definition window_start :: "u64 \<Rightarrow> nat \<Rightarrow> u64" where
  "window_start first words = (if unat first + words * 64 > 2 ^ 64 then word_of_nat (2 ^ 64 - words * 64) else first)"

definition move_into_window :: "(u64 set \<Rightarrow> u64 list) \<Rightarrow> u64 \<Rightarrow> nat \<Rightarrow> narrow_identities \<Rightarrow> narrow_identities option" where
  "move_into_window iter first len n =
    (let words = replicate len 0 in
     map_option (\<lambda>(words, retained).
         let (words, retained, sparse) = foldl (retain_file first) (words, retained, na_sparse n) (iter (na_sparse n))
         in \<lparr>na_sparse = sparse, na_dense = Some \<lparr>de_first = first, de_words = words, de_count = retained\<rparr>,
             na_next_compaction = min (max (card sparse) 1 * 2) (2 ^ 64 - 1)\<rparr>)
       (case na_dense n of
          Some dense \<Rightarrow>
            map_option (\<lambda>words. (words, de_count dense))
              (copy_from_slice (unat (de_first dense - first) div 64) (de_words dense) words)
        | None \<Rightarrow> Some (words, 0)))"

definition compact :: "(u64 set \<Rightarrow> u64 list) \<Rightarrow> narrow_identities \<Rightarrow> narrow_identities option" where
  "compact iter n =
    (let (first, last, count) = prefix_range (compact_prefix iter n) (iter (na_sparse n))
     in if count = 0 \<or> (na_dense n = None \<and> count \<le> card (na_sparse n) div 2) then Some (retry_later n)
        else
          let (first, words, count) = window_plan (na_dense n) (first, last, count)
          in if words > count * 2 \<or> words > 131072 then Some (retry_later n)
             else move_into_window iter (window_start first words) words n)"

definition dense_insert :: "u64 \<Rightarrow> dense_identities \<Rightarrow> (dense_identities \<times> bool) option" where
  "dense_insert file dense =
    map_option (\<lambda>index.
      let word = de_words dense ! index; bit = window_bit (de_first dense) file; first = (word AND bit = 0)
      in (dense\<lparr>de_words := (de_words dense)[index := word OR bit], de_count := de_count dense + (if first then 1 else 0)\<rparr>, first))
      (window_index (de_first dense) (de_words dense) file)"

definition sparse_insert :: "(u64 set \<Rightarrow> u64 list) \<Rightarrow> u64 \<Rightarrow> narrow_identities \<Rightarrow> (narrow_identities \<times> bool) option" where
  "sparse_insert iter file n =
    (let first = (file \<notin> na_sparse n); n = n\<lparr>na_sparse := insert file (na_sparse n)\<rparr>
     in if first \<and> card (na_sparse n) \<ge> na_next_compaction n then map_option (\<lambda>n. (n, first)) (compact iter n)
        else Some (n, first))"

definition narrow_insert :: "(u64 set \<Rightarrow> u64 list) \<Rightarrow> u64 \<Rightarrow> narrow_identities \<Rightarrow> (narrow_identities \<times> bool) option" where
  "narrow_insert iter file n =
    (case Option.bind (na_dense n) (dense_insert file) of
       Some (dense, first) \<Rightarrow> Some (n\<lparr>na_dense := Some dense\<rparr>, first)
     | None \<Rightarrow> sparse_insert iter file n)"

section \<open>Claims\<close>

record volume_identities =
  vi_narrow :: narrow_identities
  vi_wide :: "u128 set"

definition volume_identities_default :: volume_identities where
  "volume_identities_default = \<lparr>vi_narrow = narrow_default, vi_wide = {}\<rparr>"

definition volume_claim :: "(u64 set \<Rightarrow> u64 list) \<Rightarrow> u128 \<Rightarrow> u64 \<Rightarrow> volume_identities \<Rightarrow> (volume_identities \<times> u64) option" where
  "volume_claim iter file bytes v =
    map_option (\<lambda>(v, first). (v, if first then bytes else 0))
      (if unat file \<le> 2 ^ 64 - 1
       then map_option (\<lambda>(n, first). (v\<lparr>vi_narrow := n\<rparr>, first)) (narrow_insert iter (ucast file) (vi_narrow v))
       else Some (v\<lparr>vi_wide := insert file (vi_wide v)\<rparr>, file \<notin> vi_wide v))"

datatype tracked_volumes = Untracked | Single u64 volume_identities | Multiple "u64 \<rightharpoonup> volume_identities"

definition claim_in :: "(u64 set \<Rightarrow> u64 list) \<Rightarrow> u64 \<Rightarrow> u128 \<Rightarrow> u64 \<Rightarrow> (u64 \<rightharpoonup> volume_identities) \<Rightarrow> (tracked_volumes \<times> u64) option" where
  "claim_in iter volume file bytes volumes =
    map_option (\<lambda>(v, claimed). (Multiple (volumes(volume \<mapsto> v)), claimed))
      (volume_claim iter file bytes (case volumes volume of Some v \<Rightarrow> v | None \<Rightarrow> volume_identities_default))"

definition tracker_claim ::
  "(u64 set \<Rightarrow> u64 list) \<Rightarrow> u64 \<times> u128 \<Rightarrow> u64 \<Rightarrow> tracked_volumes \<Rightarrow> (tracked_volumes \<times> u64) option" where
  "tracker_claim iter = (\<lambda>(volume, file) bytes tracker.
    if bytes = 0 then Some (tracker, 0)
    else case tracker of
      Untracked \<Rightarrow> map_option (\<lambda>(v, claimed). (Single volume v, claimed)) (volume_claim iter file bytes volume_identities_default)
    | Single primary v \<Rightarrow>
        if primary = volume then map_option (\<lambda>(v, claimed). (Single primary v, claimed)) (volume_claim iter file bytes v)
        else claim_in iter volume file bytes [primary \<mapsto> v]
    | Multiple volumes \<Rightarrow> claim_in iter volume file bytes volumes)"

text \<open>The concurrent tracker: 64 shards behind locks, so a claim is one step on the shard of its identity.\<close>

definition shard_of :: "u64 \<times> u128 \<Rightarrow> nat" where
  "shard_of = (\<lambda>(volume, file). unat ((ucast file XOR ucast (drop_bit 64 file) XOR volume) AND (63 :: u64)))"

definition concurrent_default :: "tracked_volumes list" where
  "concurrent_default = replicate 64 Untracked"

definition concurrent_claim ::
  "(u64 set \<Rightarrow> u64 list) \<Rightarrow> u64 \<times> u128 \<Rightarrow> u64 \<Rightarrow> tracked_volumes list \<Rightarrow> (tracked_volumes list \<times> u64) option" where
  "concurrent_claim iter identity bytes shards =
    (if bytes = 0 then Some (shards, 0)
     else map_option (\<lambda>(tracker, claimed). (shards[shard_of identity := tracker], claimed))
       (tracker_claim iter identity bytes (shards ! shard_of identity)))"

section \<open>The window as a set\<close>

text \<open>The members of a window, and when a window is in place: aligned, and no address beyond \<open>u64\<close>.\<close>

definition window_has :: "u64 \<Rightarrow> u64 list \<Rightarrow> u64 \<Rightarrow> bool" where
  "window_has first words file \<longleftrightarrow> (case window_index first words file of
     Some index \<Rightarrow> bit (words ! index) (unat (file - first) mod 64) | None \<Rightarrow> False)"

definition window_ok :: "u64 \<Rightarrow> u64 list \<Rightarrow> bool" where
  "window_ok first words \<longleftrightarrow> unat first mod 64 = 0 \<and> unat first + 64 * length words \<le> 2 ^ 64"

lemma unat_diff: "a \<le> b \<Longrightarrow> unat (b - a) = unat b - unat a" for a b :: u64
  by (simp add: word_le_nat_alt unat_sub)

lemma window_index_Some:
  "window_index first words file = Some i \<longleftrightarrow> first \<le> file \<and> i = (unat file - unat first) div 64 \<and> i < length words"
  by (auto simp: window_index_def checked_sub_def Let_def unat_diff not_less split: if_splits)

lemma window_has_iff:
  "window_has first words file \<longleftrightarrow> first \<le> file \<and> (unat file - unat first) div 64 < length words
     \<and> bit (words ! ((unat file - unat first) div 64)) ((unat file - unat first) mod 64)"
proof (cases "first \<le> file \<and> (unat file - unat first) div 64 < length words")
  case True
  then have "window_index first words file = Some ((unat file - unat first) div 64)" by (simp add: window_index_Some)
  then show ?thesis using True by (simp add: window_has_def unat_diff)
next
  case False
  then have "window_index first words file = None" by (cases "window_index first words file") (auto simp: window_index_Some)
  then show ?thesis using False by (auto simp: window_has_def)
qed

lemma window_index_length: "length words = length words' \<Longrightarrow> window_index first words = window_index first words'"
  by (simp add: window_index_def fun_eq_iff)

lemma bit_window_bit: "bit (window_bit first file) k \<longleftrightarrow> k = unat (file - first) mod 64"
  unfolding window_bit_def push_bit_of_1 bit_exp_iff by auto

lemma and_window_bit: "w AND window_bit first file = 0 \<longleftrightarrow> \<not> bit w (unat (file - first) mod 64)"
proof -
  have b: "bit (w AND window_bit first file) k \<longleftrightarrow> bit w k \<and> k = unat (file - first) mod 64" for k
    by (simp only: bit_and_iff bit_window_bit)
  show ?thesis
  proof
    assume "w AND window_bit first file = 0"
    then show "\<not> bit w (unat (file - first) mod 64)" using b [of "unat (file - first) mod 64"] by simp
  next
    assume n: "\<not> bit w (unat (file - first) mod 64)"
    show "w AND window_bit first file = 0" by (rule bit_eqI) (use b n in auto)
  qed
qed

lemma window_set_bit:
  assumes "window_index first words file = Some i"
  shows "window_has first (words[i := words ! i OR window_bit first file]) g \<longleftrightarrow> g = file \<or> window_has first words g"
proof -
  let ?o = "\<lambda>x. unat x - unat first"
  have i: "first \<le> file" "i = ?o file div 64" "i < length words" using assms by (simp_all add: window_index_Some)
  have same: "g = file" if "first \<le> g" "?o g div 64 = ?o file div 64" "?o g mod 64 = ?o file mod 64"
  proof -
    have "?o g = ?o file" using that(2,3) by (metis div_mult_mod_eq)
    then show ?thesis using that(1) i(1) by (simp add: word_le_nat_alt word_unat_eq_iff)
  qed
  have bit_file: "bit (words ! i OR window_bit first file) k \<longleftrightarrow> bit (words ! i) k \<or> k = ?o file mod 64" for k
    unfolding bit_or_iff bit_window_bit unat_diff [OF i(1)] ..
  show ?thesis
  proof (cases "?o g div 64 = i")
    case True
    have upd: "words[i := words ! i OR window_bit first file] ! i = words ! i OR window_bit first file" using i(3) by simp
    have "window_has first (words[i := words ! i OR window_bit first file]) g \<longleftrightarrow>
        first \<le> g \<and> (bit (words ! i) (?o g mod 64) \<or> ?o g mod 64 = ?o file mod 64)"
      by (simp only: window_has_iff True length_list_update i(3) upd bit_file simp_thms)
    moreover have "window_has first words g \<longleftrightarrow> first \<le> g \<and> bit (words ! i) (?o g mod 64)"
      by (simp only: window_has_iff True i(3) simp_thms)
    ultimately show ?thesis using same True i(1,2) by blast
  next
    case False
    then have "words[i := words ! i OR window_bit first file] ! (?o g div 64) = words ! (?o g div 64)" by simp
    then show ?thesis unfolding window_has_iff using False i(2) by auto
  qed
qed

section \<open>Inserting keeps exactly one copy\<close>

definition narrow_ids :: "narrow_identities \<Rightarrow> u64 set" where
  "narrow_ids n = na_sparse n \<union>
    (case na_dense n of Some d \<Rightarrow> {file. window_has (de_first d) (de_words d) file} | None \<Rightarrow> {})"

definition narrow_ok :: "narrow_identities \<Rightarrow> bool" where
  "narrow_ok n \<longleftrightarrow> finite (na_sparse n)
     \<and> (case na_dense n of None \<Rightarrow> True
        | Some d \<Rightarrow> window_ok (de_first d) (de_words d) \<and> de_words d \<noteq> []
            \<and> (\<forall>file\<in>na_sparse n. window_index (de_first d) (de_words d) file = None))"

definition enumerates :: "(u64 set \<Rightarrow> u64 list) \<Rightarrow> bool" where
  "enumerates iter \<longleftrightarrow> (\<forall>S. finite S \<longrightarrow> set (iter S) = S)"

lemma dense_insert_spec:
  assumes "dense_insert file d = Some (d', first)"
  shows "window_index (de_first d) (de_words d) file \<noteq> None" "de_first d' = de_first d"
    "length (de_words d') = length (de_words d)" "first \<longleftrightarrow> \<not> window_has (de_first d) (de_words d) file"
    "window_has (de_first d) (de_words d') g \<longleftrightarrow> g = file \<or> window_has (de_first d) (de_words d) g"
proof -
  obtain i where i: "window_index (de_first d) (de_words d) file = Some i"
    using assms by (cases "window_index (de_first d) (de_words d) file") (simp_all add: dense_insert_def)
  have "(d\<lparr>de_words := (de_words d)[i := de_words d ! i OR window_bit (de_first d) file],
        de_count := de_count d + (if de_words d ! i AND window_bit (de_first d) file = 0 then 1 else 0)\<rparr>,
      de_words d ! i AND window_bit (de_first d) file = 0) = (d', first)"
    using assms unfolding dense_insert_def i option.map Let_def by (rule option.inject [THEN iffD1])
  then have d': "d\<lparr>de_words := (de_words d)[i := de_words d ! i OR window_bit (de_first d) file],
        de_count := de_count d + (if de_words d ! i AND window_bit (de_first d) file = 0 then 1 else 0)\<rparr> = d'"
    and first: "(de_words d ! i AND window_bit (de_first d) file = 0) = first"
    unfolding prod.inject by blast+
  show "window_index (de_first d) (de_words d) file \<noteq> None" "de_first d' = de_first d"
    "length (de_words d') = length (de_words d)" unfolding d' [symmetric] by (simp_all add: i)
  show "first \<longleftrightarrow> \<not> window_has (de_first d) (de_words d) file"
    unfolding first [symmetric] and_window_bit by (simp add: window_has_def i)
  show "window_has (de_first d) (de_words d') g \<longleftrightarrow> g = file \<or> window_has (de_first d) (de_words d) g"
    using window_set_bit [OF i, of g] unfolding d' [symmetric] by simp
qed

lemma retain_files:
  assumes "window_ok first words"
  shows "foldl (retain_file first) (words, n, sparse) files = (words', n', sparse') \<Longrightarrow>
    length words' = length words
    \<and> sparse' = sparse - {file \<in> set files. window_index first words file \<noteq> None}
    \<and> (\<forall>g. window_has first words' g \<longleftrightarrow> g \<in> set files \<and> window_index first words g \<noteq> None \<or> window_has first words g)"
  using assms
proof (induction files arbitrary: words n sparse)
  case (Cons f files)
  show ?case
  proof (cases "window_index first words f")
    case None
    with Cons.prems have "foldl (retain_file first) (words, n, sparse) files = (words', n', sparse')"
      by (simp add: retain_file_def)
    from Cons.IH [OF this Cons.prems(2)] None show ?thesis by auto
  next
    case (Some i)
    let ?w = "words[i := words ! i OR window_bit first f]"
    have "foldl (retain_file first) (?w, n + 1, sparse - {f}) files = (words', n', sparse')"
      using Cons.prems(1) Some by (simp add: retain_file_def)
    moreover have "window_ok first ?w" using Cons.prems(2) by (simp add: window_ok_def)
    moreover have "window_index first ?w = window_index first words" by (rule window_index_length) simp
    ultimately show ?thesis
      using Cons.IH [of ?w "n + 1" "sparse - {f}"] window_set_bit [OF Some] Some by auto
  qed
qed simp

section \<open>Moving the window\<close>

lemma copied_window:
  assumes "window_ok df ws" "unat first mod 64 = 0" "first \<le> df" "(unat df - unat first) div 64 + length ws \<le> len"
    and "copy_from_slice (unat (df - first) div 64) ws (replicate len 0) = Some words"
  shows "length words = len" "window_has first words g \<longleftrightarrow> window_has df ws g"
proof -
  let ?o = "(unat df - unat first) div 64"
  have words: "words = replicate ?o 0 @ ws @ replicate (len - (?o + length ws)) 0"
    using assms(3-5) by (auto simp: copy_from_slice_def unat_diff)
  then show "length words = len" using assms(4) by simp
  have le: "unat first \<le> unat df" using assms(3) by (simp add: word_le_nat_alt)
  have "unat df mod 64 = 0" using assms(1) by (simp add: window_ok_def)
  then have shift: "unat df = unat first + 64 * ?o"
    using le assms(2) by (metis dvd_diff_nat dvd_mult_div_cancel le_add_diff_inverse mod_0_imp_dvd)
  have nth: "k < len \<Longrightarrow> words ! k = (if ?o \<le> k \<and> k < ?o + length ws then ws ! (k - ?o) else 0)" for k
    unfolding words using assms(4) by (auto simp: nth_append not_less intro!: nth_replicate diff_less_mono)
  show "window_has first words g \<longleftrightarrow> window_has df ws g"
  proof
    assume has: "window_has first words g"
    let ?d = "unat g - unat first"
    have g: "first \<le> g" "?d div 64 < len" "bit (words ! (?d div 64)) (?d mod 64)"
      using has \<open>length words = len\<close> unfolding window_has_iff by simp_all
    then have k: "?o \<le> ?d div 64" "?d div 64 < ?o + length ws" "bit (ws ! (?d div 64 - ?o)) (?d mod 64)"
      using nth [of "?d div 64"] by (auto split: if_splits)
    have "64 * ?o \<le> ?d" using k(1) by (simp add: less_eq_div_iff_mult_less_eq mult.commute)
    moreover have "unat first \<le> unat g" using g(1) by (simp add: word_le_nat_alt)
    ultimately have d: "?d = 64 * ?o + (unat g - unat df)" "unat df \<le> unat g" using shift by linarith+
    have "?d div 64 = ?o + (unat g - unat df) div 64" "?d mod 64 = (unat g - unat df) mod 64"
      unfolding d(1) by simp_all
    then show "window_has df ws g" using k d(2) unfolding window_has_iff by (simp add: word_le_nat_alt)
  next
    assume has: "window_has df ws g"
    let ?e = "unat g - unat df"
    have g: "df \<le> g" "?e div 64 < length ws" "bit (ws ! (?e div 64)) (?e mod 64)"
      using has unfolding window_has_iff by simp_all
    then have "unat df \<le> unat g" by (simp add: word_le_nat_alt)
    then have d: "unat g - unat first = 64 * ?o + ?e" using shift by linarith
    have "(unat g - unat first) div 64 = ?o + ?e div 64" "(unat g - unat first) mod 64 = ?e mod 64"
      unfolding d by simp_all
    moreover have "first \<le> g" using assms(3) g(1) by simp
    moreover have "?o + ?e div 64 < len" using g(2) assms(4) by linarith
    ultimately show "window_has first words g"
      using g nth [of "?o + ?e div 64"] \<open>length words = len\<close> unfolding window_has_iff by simp
  qed
qed

lemma window_has_zero: "\<not> window_has first (replicate len 0) g"
  by (simp add: window_has_iff)

lemma move_into_window_spec:
  assumes ok: "narrow_ok n" and iter: "enumerates iter" and window: "unat first mod 64 = 0" "unat first + 64 * len \<le> 2 ^ 64" "0 < len"
    and fits: "\<And>d. na_dense n = Some d \<Longrightarrow> first \<le> de_first d
      \<and> (unat (de_first d) - unat first) div 64 + length (de_words d) \<le> len"
  shows "\<exists>n'. move_into_window iter first len n = Some n' \<and> narrow_ok n' \<and> narrow_ids n' = narrow_ids n"
proof -
  let ?old = "{file. case na_dense n of Some d \<Rightarrow> window_has (de_first d) (de_words d) file | None \<Rightarrow> False}"
  have "\<exists>words retained. (case na_dense n of
        Some dense \<Rightarrow> map_option (\<lambda>words. (words, de_count dense))
          (copy_from_slice (unat (de_first dense - first) div 64) (de_words dense) (replicate len 0))
      | None \<Rightarrow> Some (replicate len 0, 0)) = Some (words, retained)
    \<and> length words = len \<and> (\<forall>g. window_has first words g \<longleftrightarrow> g \<in> ?old)"
  proof (cases "na_dense n")
    case None
    then show ?thesis by (simp add: window_has_zero)
  next
    case (Some d)
    have d: "window_ok (de_first d) (de_words d)" using ok Some by (simp add: narrow_ok_def)
    note f = fits [OF Some]
    then obtain words where w: "copy_from_slice (unat (de_first d - first) div 64) (de_words d) (replicate len 0) = Some words"
      by (simp add: copy_from_slice_def unat_diff)
    have "length words = len" "\<And>g. window_has first words g \<longleftrightarrow> window_has (de_first d) (de_words d) g"
      using copied_window [OF d window(1) conjunct1 [OF f] conjunct2 [OF f] w] by blast+
    then show ?thesis using Some w by simp
  qed
  then obtain words retained where w: "(case na_dense n of
        Some dense \<Rightarrow> map_option (\<lambda>words. (words, de_count dense))
          (copy_from_slice (unat (de_first dense - first) div 64) (de_words dense) (replicate len 0))
      | None \<Rightarrow> Some (replicate len 0, 0)) = Some (words, retained)" "length words = len"
    "\<And>g. window_has first words g \<longleftrightarrow> g \<in> ?old" by blast
  obtain words' retained' sparse' where r: "foldl (retain_file first) (words, retained, na_sparse n) (iter (na_sparse n)) =
      (words', retained', sparse')" by (metis prod_cases3)
  have "window_ok first words" using window w(2) by (simp add: window_ok_def)
  note rf = retain_files [OF this r]
  have finite: "finite (na_sparse n)" using ok by (simp add: narrow_ok_def)
  then have it: "set (iter (na_sparse n)) = na_sparse n" using iter by (simp add: enumerates_def)
  have index: "window_index first words' = window_index first words" using conjunct1 [OF rf] by (rule window_index_length)
  let ?n' = "\<lparr>na_sparse = sparse', na_dense = Some \<lparr>de_first = first, de_words = words', de_count = retained'\<rparr>,
      na_next_compaction = min (max (card sparse') 1 * 2) (2 ^ 64 - 1)\<rparr>"
  have "move_into_window iter first len n = Some ?n'"
    unfolding move_into_window_def Let_def w(1) option.map by (simp add: r)
  moreover have "narrow_ok ?n'"
    using rf finite window w(2) unfolding narrow_ok_def by (auto simp: window_ok_def it index)
  moreover have "narrow_ids ?n' = na_sparse n \<union> ?old"
    using rf w(3) by (auto simp: narrow_ids_def it)
  moreover have "narrow_ids n = na_sparse n \<union> ?old" by (auto simp: narrow_ids_def split: option.splits)
  ultimately show ?thesis by auto
qed

lemma unat_u64_bound: "unat (w :: u64) < 2 ^ 64"
  using unat_less_power [of w] by simp

section \<open>The plan of a compaction\<close>

lemma aligned_and: "unat (w AND NOT 63) mod 64 = 0" for w :: u64
proof -
  have "take_bit 6 (w AND NOT 63) = 0"
  proof (rule bit_eqI)
    fix k
    have "(63 :: u64) = mask 6" by (simp add: mask_eq_exp_minus_1)
    then show "bit (take_bit 6 (w AND NOT 63)) k = bit (0 :: u64) k"
      by (auto simp: bit_take_bit_iff bit_and_iff bit_not_iff bit_mask_iff)
  qed
  then have "take_bit 6 (unat (w AND NOT 63)) = 0" using unsigned_take_bit_eq [of 6 "w AND NOT 63"] by simp
  then show ?thesis by (simp add: take_bit_eq_mod)
qed

lemma aligned_min: "unat a mod 64 = 0 \<Longrightarrow> unat b mod 64 = 0 \<Longrightarrow> unat (min a b) mod 64 = 0" for a b :: u64
  by (simp add: min_def)

lemma prefix_range_aligned:
  assumes "prefix_range prefix files = (first, final, c)" "c \<noteq> 0"
  shows "unat first mod 64 = 0"
proof -
  have "foldl (\<lambda>(first, last, c) file.
     if drop_bit 32 file = prefix then (min first (file AND NOT 63), max last file, c + 1) else (first, last, c))
     (f0, l0, c0) files = (f1, l1, c1) \<Longrightarrow> c0 = 0 \<and> f0 = - 1 \<or> unat f0 mod 64 = 0 \<Longrightarrow>
     c1 = (0 :: nat) \<and> f1 = - 1 \<or> unat f1 mod 64 = 0" for f0 l0 :: u64 and c0 f1 l1 c1
  proof (induction files arbitrary: f0 l0 c0)
    case (Cons f files)
    have top: "min (- 1) (f AND NOT 63) = f AND NOT 63" by (rule min.absorb2) simp
    show ?case
    proof (cases "drop_bit 32 f = prefix")
      case True
      have "unat (min f0 (f AND NOT 63)) mod 64 = 0"
        using Cons.prems(2) aligned_and [of f] aligned_min [of f0 "f AND NOT 63"] top by auto
      then show ?thesis using Cons.IH [of "min f0 (f AND NOT 63)" "max l0 f" "c0 + 1"] Cons.prems(1) True by simp
    next
      case False
      then show ?thesis using Cons by simp
    qed
  qed simp
  from this [of "- 1" 0 0 first final c] assms show ?thesis by (simp add: prefix_range_def)
qed

lemma power_above_ge: "n \<le> power_above k n \<or> k = 0"
  by (induction k n rule: power_above.induct) (subst power_above.simps, auto)

lemma next_power_of_two_ge: "n \<le> next_power_of_two n"
  using power_above_ge [of n 1] by (simp add: next_power_of_two_def)

lemma window_start_ok:
  assumes "unat first mod 64 = 0" "words \<le> 131072"
  shows "unat (window_start first words) mod 64 = 0" "unat (window_start first words) + 64 * words \<le> 2 ^ 64"
    "window_start first words \<le> first" "unat first + 64 * words > 2 ^ 64 \<Longrightarrow> unat (window_start first words) = 2 ^ 64 - 64 * words"
    "unat first + 64 * words \<le> 2 ^ 64 \<Longrightarrow> window_start first words = first"
proof -
  have "unat (window_start first words) mod 64 = 0 \<and> unat (window_start first words) + 64 * words \<le> 2 ^ 64
    \<and> window_start first words \<le> first \<and> (unat first + 64 * words > 2 ^ 64 \<longrightarrow> unat (window_start first words) = 2 ^ 64 - 64 * words)
    \<and> (unat first + 64 * words \<le> 2 ^ 64 \<longrightarrow> window_start first words = first)"
  proof (cases "unat first + words * 64 > 2 ^ 64")
    case True
    then have pos: "0 < words" using unat_u64_bound [of first] by (cases words) simp_all
    then have u: "unat (word_of_nat (2 ^ 64 - words * 64) :: u64) = 64 * (2 ^ 58 - words)"
      unfolding unat_of_nat using assms(2) by simp
    have "window_start first words = word_of_nat (2 ^ 64 - words * 64)" using True by (simp add: window_start_def)
    then have "unat (window_start first words) = 64 * (2 ^ 58 - words)" using u by simp
    moreover have "64 * (2 ^ 58 - words) + 64 * words = 2 ^ 64" using assms(2) by simp
    ultimately show ?thesis using True unfolding word_le_nat_alt by simp
  next
    case False
    then show ?thesis using assms by (simp add: window_start_def)
  qed
  then show "unat (window_start first words) mod 64 = 0" "unat (window_start first words) + 64 * words \<le> 2 ^ 64"
    "window_start first words \<le> first" "unat first + 64 * words > 2 ^ 64 \<Longrightarrow> unat (window_start first words) = 2 ^ 64 - 64 * words"
    "unat first + 64 * words \<le> 2 ^ 64 \<Longrightarrow> window_start first words = first" by blast+
qed

lemma blocks_after:
  fixes a l :: nat
  assumes "0 < l"
  shows "a div 64 + l \<le> (a + (64 * l - 1)) div 64 + 1"
proof -
  obtain k where k: "l = Suc k" using assms by (cases l) auto
  have "(a + 64 * k) div 64 \<le> (a + (64 * l - 1)) div 64" by (rule div_le_mono) (simp add: k)
  then show ?thesis by (simp add: k)
qed

lemma blocks_fit:
  fixes a l w :: nat
  assumes "a + 64 * l \<le> 64 * w"
  shows "a div 64 + l \<le> w"
  using div_le_mono [OF assms, of 64] by simp

lemma compact_spec:
  assumes "narrow_ok n" "enumerates iter"
  shows "\<exists>n'. compact iter n = Some n' \<and> narrow_ok n' \<and> narrow_ids n' = narrow_ids n"
proof -
  have later: "narrow_ok (retry_later n)" "narrow_ids (retry_later n) = narrow_ids n"
    using assms(1) by (auto simp: retry_later_def narrow_ok_def narrow_ids_def split: option.splits)
  obtain first final c where r: "prefix_range (compact_prefix iter n) (iter (na_sparse n)) = (first, final, c)"
    by (metis prod_cases3)
  show ?thesis
  proof (cases "c = 0 \<or> (na_dense n = None \<and> c \<le> card (na_sparse n) div 2)")
    case True
    then show ?thesis using later by (simp add: compact_def r)
  next
    case False
    obtain first' words c' where plan: "window_plan (na_dense n) (first, final, c) = (first', words, c')" by (metis prod_cases3)
    show ?thesis
    proof (cases "words > c' * 2 \<or> words > 131072")
      case True
      then show ?thesis using later False by (simp add: compact_def r plan)
    next
      case small: False
      have al: "unat first mod 64 = 0" using prefix_range_aligned [OF r] False by simp
      have plan_dense: "unat first' mod 64 = 0 \<and> 0 < words \<and> (\<forall>d. na_dense n = Some d \<longrightarrow> first' \<le> de_first d
          \<and> (unat (de_first d) - unat first') div 64 + length (de_words d) \<le> words)"
      proof (cases "na_dense n")
        case None
        then have "first' = first" "words = next_power_of_two ((unat final - unat first) div 64 + 1)"
          using plan by (auto simp: window_plan_def)
        then show ?thesis using al None next_power_of_two_ge [of "(unat final - unat first) div 64 + 1"] by auto
      next
        case (Some d)
        have d: "unat (de_first d) mod 64 = 0" "unat (de_first d) + 64 * length (de_words d) \<le> 2 ^ 64" "de_words d \<noteq> []"
          using assms(1) Some by (simp_all add: narrow_ok_def window_ok_def)
        let ?limit = "de_first d + (word_of_nat (length (de_words d)) * 64 - 1)" and ?l = "length (de_words d)"
        have plan': "first' = min first (de_first d)" "words = next_power_of_two ((unat (max final ?limit) - unat first') div 64 + 1)"
          using plan Some by (auto simp: window_plan_def Let_def)
        have "0 < ?l" using d(3) by simp
        have "1 \<le> 64 * ?l" using \<open>0 < ?l\<close> by linarith
        then have "(word_of_nat (64 * ?l - 1) :: u64) = word_of_nat (64 * ?l) - word_of_nat 1" by (rule of_nat_diff)
        then have len: "(word_of_nat ?l :: u64) * 64 - 1 = word_of_nat (64 * ?l - 1)" by (simp only: of_nat_mult of_nat_numeral of_nat_1 mult.commute)
        have u: "unat (word_of_nat (64 * ?l - 1) :: u64) = 64 * ?l - 1"
          unfolding unat_of_nat using d(2) \<open>0 < ?l\<close> by simp
        have e: "unat ?limit = unat (de_first d) + 64 * ?l - 1"
          unfolding len unat_word_ariths(1) u
        proof -
          have "unat (de_first d) + (64 * ?l - 1) < 2 ^ 64" using d(2) \<open>0 < ?l\<close> by linarith
          then have "(unat (de_first d) + (64 * ?l - 1)) mod 2 ^ LENGTH(64) = unat (de_first d) + (64 * ?l - 1)" by simp
          then show "(unat (de_first d) + (64 * ?l - 1)) mod 2 ^ LENGTH(64) = unat (de_first d) + 64 * ?l - 1"
            using \<open>0 < ?l\<close> by linarith
        qed
        have "unat ?limit \<le> unat (max final ?limit)" by (simp add: max_def word_le_nat_alt)
        moreover have first': "first' \<le> de_first d" "unat first' \<le> unat (de_first d)" using plan'(1) by (simp_all add: word_le_nat_alt [symmetric])
        ultimately have "(unat (de_first d) - unat first') + (64 * ?l - 1) \<le> unat (max final ?limit) - unat first'"
          using e \<open>0 < ?l\<close> by linarith
        then have "((unat (de_first d) - unat first') + (64 * ?l - 1)) div 64 \<le> (unat (max final ?limit) - unat first') div 64"
          by (rule div_le_mono)
        moreover have "((unat (de_first d) - unat first') + (64 * ?l - 1)) div 64 + 1 \<ge> (unat (de_first d) - unat first') div 64 + ?l"
          by (rule blocks_after) (use \<open>0 < ?l\<close> in simp)
        ultimately have "(unat (de_first d) - unat first') div 64 + ?l \<le> words"
          using next_power_of_two_ge [of "(unat (max final ?limit) - unat first') div 64 + 1"] unfolding plan'(2) by linarith
        moreover have "unat first' mod 64 = 0" using aligned_min al d(1) plan'(1) by simp
        moreover have "0 < words" using calculation(1) \<open>0 < ?l\<close> by linarith
        ultimately show ?thesis using Some first' by auto
      qed
      have "words \<le> 131072" using small by simp
      note start = window_start_ok [OF conjunct1 [OF plan_dense] this]
      have "\<exists>n'. move_into_window iter (window_start first' words) words n = Some n' \<and> narrow_ok n' \<and> narrow_ids n' = narrow_ids n"
      proof (rule move_into_window_spec [OF assms start(1,2)])
        show "0 < words" using plan_dense by simp
        fix d assume d: "na_dense n = Some d"
        have w: "first' \<le> de_first d" "(unat (de_first d) - unat first') div 64 + length (de_words d) \<le> words"
          using plan_dense d by auto
        have top: "unat (de_first d) + 64 * length (de_words d) \<le> 2 ^ 64" using assms(1) d by (simp add: narrow_ok_def window_ok_def)
        have "(unat (de_first d) - unat (window_start first' words)) div 64 + length (de_words d) \<le> words"
        proof (cases "unat first' + 64 * words > 2 ^ 64")
          case True
          then have "unat (window_start first' words) = 2 ^ 64 - 64 * words" by (rule start(4))
          moreover have "unat (window_start first' words) \<le> unat (de_first d)"
            using start(3) w(1) by (simp add: word_le_nat_alt)
          ultimately have "unat (de_first d) - unat (window_start first' words) + 64 * length (de_words d) \<le> 64 * words"
            using top \<open>words \<le> 131072\<close> by linarith
          then show ?thesis by (rule blocks_fit)
        next
          case False
          then show ?thesis using start(5) w(2) by simp
        qed
        then show "window_start first' words \<le> de_first d \<and>
            (unat (de_first d) - unat (window_start first' words)) div 64 + length (de_words d) \<le> words"
          using start(3) w(1) by (meson order_trans)
      qed
      moreover have "compact iter n = move_into_window iter (window_start first' words) words n"
        unfolding compact_def r plan Let_def prod.case if_not_P [OF False] if_not_P [OF small] by (rule refl)
      ultimately show ?thesis by simp
    qed
  qed
qed

section \<open>Every layer refines a set of identities\<close>

lemma narrow_default_ok: "narrow_ok narrow_default" "narrow_ids narrow_default = {}"
  by (simp_all add: narrow_ok_def narrow_ids_def narrow_default_def)

lemma sparse_insert_spec:
  assumes "narrow_ok n" "enumerates iter"
    and "\<And>d. na_dense n = Some d \<Longrightarrow> window_index (de_first d) (de_words d) file = None"
  shows "\<exists>n'. sparse_insert iter file n = Some (n', file \<notin> narrow_ids n) \<and> narrow_ok n' \<and> narrow_ids n' = insert file (narrow_ids n)"
proof -
  let ?n = "n\<lparr>na_sparse := insert file (na_sparse n)\<rparr>"
  have ok: "narrow_ok ?n" "narrow_ids ?n = insert file (narrow_ids n)"
    using assms(1,3) by (auto simp: narrow_ok_def narrow_ids_def split: option.splits)
  have "file \<notin> narrow_ids n \<longleftrightarrow> file \<notin> na_sparse n"
    using assms(3) by (auto simp: narrow_ids_def window_has_def split: option.splits)
  with compact_spec [OF ok(1) assms(2)] ok show ?thesis by (auto simp: sparse_insert_def Let_def)
qed

lemma narrow_insert_spec:
  assumes "narrow_ok n" "enumerates iter"
  shows "\<exists>n'. narrow_insert iter file n = Some (n', file \<notin> narrow_ids n) \<and> narrow_ok n' \<and> narrow_ids n' = insert file (narrow_ids n)"
proof (cases "Option.bind (na_dense n) (dense_insert file)")
  case None
  then have "window_index (de_first d) (de_words d) file = None" if "na_dense n = Some d" for d
    using that by (simp add: dense_insert_def)
  with sparse_insert_spec [OF assms] None show ?thesis by (simp add: narrow_insert_def)
next
  case (Some r)
  obtain d' first where r: "r = (d', first)" by (cases r)
  obtain d where d: "na_dense n = Some d" "dense_insert file d = Some (d', first)"
    using Some r by (auto simp: bind_eq_Some_conv)
  note spec = dense_insert_spec [OF d(2)]
  have "file \<notin> na_sparse n" using assms(1) d(1) spec(1) by (auto simp: narrow_ok_def)
  then have "first \<longleftrightarrow> file \<notin> narrow_ids n" using spec(4) d(1) by (simp add: narrow_ids_def)
  moreover have "narrow_ids (n\<lparr>na_dense := Some d'\<rparr>) = insert file (narrow_ids n)"
    using spec(2,5) d(1) by (auto simp: narrow_ids_def)
  moreover have "narrow_ok (n\<lparr>na_dense := Some d'\<rparr>)"
    using assms(1) d(1) spec(2,3) window_index_length [OF spec(3)] unfolding narrow_ok_def by (auto simp: window_ok_def)
  ultimately show ?thesis using Some r by (simp add: narrow_insert_def)
qed

definition volume_ids :: "volume_identities \<Rightarrow> u128 set" where
  "volume_ids v = ucast ` narrow_ids (vi_narrow v) \<union> {file \<in> vi_wide v. unat file > 2 ^ 64 - 1}"

lemma narrow_file_id:
  fixes g :: u128
  assumes "unat g \<le> 2 ^ 64 - 1"
  shows "ucast (ucast g :: u64) = g"
proof -
  have "unat g < 2 ^ 64" using assms by simp
  then have "take_bit 64 (unat g) = unat g" by (simp add: take_bit_nat_eq_self)
  then have "unat (ucast (ucast g :: u64) :: u128) = unat g"
    by (simp add: unsigned_ucast_eq unsigned_take_bit_eq)
  then show ?thesis by (simp add: word_unat_eq_iff)
qed

lemma wide_file_id: "unat (ucast x :: u128) \<le> 2 ^ 64 - 1" "ucast (ucast x :: u128) = x" for x :: u64
proof -
  have "unat (ucast x :: u128) = unat x" using unat_u64_bound [of x] by (simp add: unsigned_ucast_eq unsigned_take_bit_eq take_bit_nat_eq_self)
  then show "unat (ucast x :: u128) \<le> 2 ^ 64 - 1" using unat_u64_bound [of x] by simp
  then have "unat (ucast (ucast x :: u128) :: u64) = unat x"
    using unat_u64_bound [of x] by (simp add: unsigned_ucast_eq unsigned_take_bit_eq take_bit_nat_eq_self)
  then show "ucast (ucast x :: u128) = x" by (simp add: word_unat_eq_iff)
qed

definition claimed_volume_ok :: "volume_identities \<Rightarrow> bool" where
  "claimed_volume_ok v \<longleftrightarrow> narrow_ok (vi_narrow v)"

lemma volume_default_ok: "claimed_volume_ok volume_identities_default" "volume_ids volume_identities_default = {}"
  by (simp_all add: claimed_volume_ok_def volume_ids_def volume_identities_default_def narrow_default_ok)

lemma volume_claim_spec:
  assumes "claimed_volume_ok v" "enumerates iter"
  shows "\<exists>v'. volume_claim iter g bytes v = Some (v', if g \<in> volume_ids v then 0 else bytes)
    \<and> claimed_volume_ok v' \<and> volume_ids v' = insert g (volume_ids v)"
proof (cases "unat g \<le> 2 ^ 64 - 1")
  case True
  obtain n' where n': "narrow_insert iter (ucast g) (vi_narrow v) = Some (n', ucast g \<notin> narrow_ids (vi_narrow v))"
    "narrow_ok n'" "narrow_ids n' = insert (ucast g) (narrow_ids (vi_narrow v))"
    using narrow_insert_spec [OF _ assms(2), of "vi_narrow v" "ucast g"] assms(1) by (auto simp: claimed_volume_ok_def)
  have "g \<in> volume_ids v \<longleftrightarrow> ucast g \<in> narrow_ids (vi_narrow v)"
    using True narrow_file_id [OF True] by (auto simp: volume_ids_def wide_file_id [simplified] intro!: image_eqI [where f = ucast and x = "ucast g"])
  then show ?thesis
    using True n' narrow_file_id [OF True] by (auto simp: volume_claim_def claimed_volume_ok_def volume_ids_def)
next
  case False
  then have "g \<in> volume_ids v \<longleftrightarrow> g \<in> vi_wide v" by (auto simp: volume_ids_def wide_file_id(1) [simplified])
  then show ?thesis using False assms(1) by (auto simp: volume_claim_def claimed_volume_ok_def volume_ids_def)
qed

section \<open>The interface of a claim table\<close>

type_synonym identity = "u64 \<times> u128"

text \<open>What a sequence of claims must return: the bytes for the first claim with bytes of an identity, else 0.\<close>

fun first_claims :: "identity set \<Rightarrow> (identity \<times> u64) list \<Rightarrow> u64 list" where
  "first_claims seen [] = []"
| "first_claims seen ((i, bytes) # claims) =
    (if bytes = 0 \<or> i \<in> seen then 0 else bytes) # first_claims (if bytes = 0 then seen else insert i seen) claims"

fun claims_run :: "(identity \<Rightarrow> u64 \<Rightarrow> 's \<Rightarrow> ('s \<times> u64) option) \<Rightarrow> (identity \<times> u64) list \<Rightarrow> 's \<Rightarrow> ('s \<times> u64 list) option" where
  "claims_run claim [] s = Some (s, [])"
| "claims_run claim ((i, bytes) # claims) s =
    Option.bind (claim i bytes s) (\<lambda>(s, claimed). map_option (\<lambda>(s, rest). (s, claimed # rest)) (claims_run claim claims s))"

locale claim_table =
  fixes claim :: "identity \<Rightarrow> u64 \<Rightarrow> 's \<Rightarrow> ('s \<times> u64) option"
    and ids :: "'s \<Rightarrow> identity set"
    and ok :: "'s \<Rightarrow> bool"
    and start :: 's
  assumes start: "ok start" "ids start = {}"
    and claim: "ok s \<Longrightarrow> \<exists>s'. claim i bytes s = Some (s', if bytes = 0 \<or> i \<in> ids s then 0 else bytes)
      \<and> ok s' \<and> ids s' = (if bytes = 0 then ids s else insert i (ids s))"
begin

lemma run_claims: "ok s \<Longrightarrow> \<exists>s'. claims_run claim claims s = Some (s', first_claims (ids s) claims)"
proof (induction claims arbitrary: s)
  case (Cons c claims)
  obtain i bytes where c: "c = (i, bytes)" by (cases c)
  from claim [OF Cons.prems] obtain s' where s': "claim i bytes s = Some (s', if bytes = 0 \<or> i \<in> ids s then 0 else bytes)"
    "ok s'" "ids s' = (if bytes = 0 then ids s else insert i (ids s))" by blast
  from Cons.IH [OF s'(2)] obtain s'' where "claims_run claim claims s' = Some (s'', first_claims (ids s') claims)" by blast
  then show ?case using s'(1,3) by (simp add: c)
qed simp

lemma run_from_start: "\<exists>s. claims_run claim claims start = Some (s, first_claims {} claims)"
  using run_claims [OF start(1)] start(2) by simp

end

fun tracker_ids :: "tracked_volumes \<Rightarrow> identity set" where
  "tracker_ids Untracked = {}"
| "tracker_ids (Single primary v) = {primary} \<times> volume_ids v"
| "tracker_ids (Multiple volumes) = {(volume, g). \<exists>v. volumes volume = Some v \<and> g \<in> volume_ids v}"

fun tracker_ok :: "tracked_volumes \<Rightarrow> bool" where
  "tracker_ok Untracked = True"
| "tracker_ok (Single primary v) = claimed_volume_ok v"
| "tracker_ok (Multiple volumes) = (\<forall>v\<in>ran volumes. claimed_volume_ok v)"

lemma claim_in_spec:
  assumes "\<forall>v\<in>ran volumes. claimed_volume_ok v" "enumerates iter"
  shows "\<exists>t. claim_in iter volume g bytes volumes = Some (t, if (volume, g) \<in> tracker_ids (Multiple volumes) then 0 else bytes)
    \<and> tracker_ok t \<and> tracker_ids t = insert (volume, g) (tracker_ids (Multiple volumes))"
proof -
  let ?v = "case volumes volume of Some v \<Rightarrow> v | None \<Rightarrow> volume_identities_default"
  have v: "claimed_volume_ok ?v" "g \<in> volume_ids ?v \<longleftrightarrow> (volume, g) \<in> tracker_ids (Multiple volumes)"
    using assms(1) by (auto simp: volume_default_ok ranI split: option.splits)
  from volume_claim_spec [OF v(1) assms(2)] obtain v' where v': "volume_claim iter g bytes ?v = Some (v', if g \<in> volume_ids ?v then 0 else bytes)"
    "claimed_volume_ok v'" "volume_ids v' = insert g (volume_ids ?v)" by blast
  have "tracker_ids (Multiple (volumes(volume \<mapsto> v'))) = insert (volume, g) (tracker_ids (Multiple volumes))"
    using v'(3) by (auto simp: volume_default_ok split: if_splits option.splits)
  moreover have "tracker_ok (Multiple (volumes(volume \<mapsto> v')))" using assms(1) v'(2) by (auto simp: ran_def split: if_splits)
  ultimately show ?thesis using v'(1) v(2) by (simp add: claim_in_def)
qed

lemma tracker_claim_spec:
  assumes "enumerates iter" "tracker_ok t"
  shows "\<exists>t'. tracker_claim iter i bytes t = Some (t', if bytes = 0 \<or> i \<in> tracker_ids t then 0 else bytes)
    \<and> tracker_ok t' \<and> tracker_ids t' = (if bytes = 0 then tracker_ids t else insert i (tracker_ids t))"
proof (cases "bytes = 0")
  case True
  then show ?thesis using assms(2) by (cases i) (simp add: tracker_claim_def)
next
  case False
  obtain volume g where i: "i = (volume, g)" by (cases i)
  show ?thesis
  proof (cases t)
    case Untracked
    then show ?thesis
      using False volume_claim_spec [OF volume_default_ok(1) assms(1), of g bytes] by (auto simp: i tracker_claim_def volume_default_ok)
  next
    case (Multiple volumes)
    then show ?thesis using False claim_in_spec [OF _ assms(1), of volumes volume g bytes] assms(2) by (simp add: i tracker_claim_def)
  next
    case (Single primary v)
    show ?thesis
    proof (cases "primary = volume")
      case True
      then show ?thesis
        using False Single volume_claim_spec [OF _ assms(1), of v g bytes] assms(2) by (auto simp: i tracker_claim_def)
    next
      case other: False
      have "tracker_ids (Multiple [primary \<mapsto> v]) = tracker_ids (Single primary v)" by (auto split: if_splits)
      then show ?thesis
        using False other Single claim_in_spec [OF _ assms(1), of "[primary \<mapsto> v]" volume g bytes] assms(2)
        by (simp add: i tracker_claim_def)
    qed
  qed
qed

section \<open>The two trackers\<close>

definition concurrent_ids :: "tracked_volumes list \<Rightarrow> identity set" where
  "concurrent_ids shards = {i. i \<in> tracker_ids (shards ! shard_of i)}"

definition concurrent_ok :: "tracked_volumes list \<Rightarrow> bool" where
  "concurrent_ok shards \<longleftrightarrow> length shards = 64 \<and> list_all tracker_ok shards"

lemma shard_less: "shard_of i < 64"
proof -
  obtain volume g where i: "i = (volume, g)" by (cases i)
  have "(ucast g XOR ucast (drop_bit 64 g) XOR volume) AND (63 :: u64) \<le> 63" by (rule word_and_le1)
  then show ?thesis by (simp add: i shard_of_def word_le_nat_alt)
qed

lemma concurrent_claim_spec:
  assumes "enumerates iter" "concurrent_ok shards"
  shows "\<exists>s. concurrent_claim iter i bytes shards = Some (s, if bytes = 0 \<or> i \<in> concurrent_ids shards then 0 else bytes)
    \<and> concurrent_ok s \<and> concurrent_ids s = (if bytes = 0 then concurrent_ids shards else insert i (concurrent_ids shards))"
proof (cases "bytes = 0")
  case True
  then show ?thesis using assms(2) by (simp add: concurrent_claim_def)
next
  case False
  have len: "shard_of j < length shards" for j using assms(2) shard_less by (simp add: concurrent_ok_def)
  have "tracker_ok (shards ! shard_of i)" using assms(2) len by (simp add: concurrent_ok_def list_all_length)
  from tracker_claim_spec [OF assms(1) this, of i bytes] obtain t where t:
    "tracker_claim iter i bytes (shards ! shard_of i) = Some (t, if bytes = 0 \<or> i \<in> tracker_ids (shards ! shard_of i) then 0 else bytes)"
    "tracker_ok t" "tracker_ids t = (if bytes = 0 then tracker_ids (shards ! shard_of i) else insert i (tracker_ids (shards ! shard_of i)))"
    by blast
  have "concurrent_ids (shards[shard_of i := t]) = insert i (concurrent_ids shards)"
    using False t(3) len by (auto simp: concurrent_ids_def nth_list_update)
  moreover have "concurrent_ok (shards[shard_of i := t])"
    using assms(2) t(2) set_update_subset_insert [of shards "shard_of i" t] by (auto simp: concurrent_ok_def list_all_iff)
  ultimately show ?thesis using False t(1) by (simp add: concurrent_claim_def concurrent_ids_def)
qed

lemma tracker_table:
  assumes "enumerates iter"
  shows "claim_table (tracker_claim iter) tracker_ids tracker_ok Untracked"
    "claim_table (concurrent_claim iter) concurrent_ids concurrent_ok concurrent_default"
proof -
  show "claim_table (tracker_claim iter) tracker_ids tracker_ok Untracked"
    by unfold_locales (use tracker_claim_spec [OF assms] in simp_all)
  have "concurrent_ids concurrent_default = {}"
    using shard_less by (simp add: concurrent_ids_def concurrent_default_def)
  then show "claim_table (concurrent_claim iter) concurrent_ids concurrent_ok concurrent_default"
    by unfold_locales
      (use concurrent_claim_spec [OF assms] in \<open>simp_all add: concurrent_ok_def concurrent_default_def list_all_iff\<close>)
qed

text \<open>The interface on the two trackers, with the sets enumerated in ascending order.\<close>

definition listed :: "u64 set \<Rightarrow> u64 list" where
  "listed S = sorted_list_of_set S"

lemma enumerates_listed: "enumerates listed"
  by (simp add: enumerates_def listed_def)

interpretation single: claim_table "tracker_claim listed" tracker_ids tracker_ok Untracked
  by (rule tracker_table(1) [OF enumerates_listed])

interpretation sharded: claim_table "concurrent_claim listed" concurrent_ids concurrent_ok concurrent_default
  by (rule tracker_table(2) [OF enumerates_listed])

text \<open>
  C38. Physical bytes are counted once. For every sequence of claims the tracker, and likewise the tracker of
  64 shards, returns the bytes of the first claim that brings any for a volume and file identity and 0 for
  every later one, and never panics: replacing the hash set of a volume by a window of bits over the majority
  of its members, growing and moving that window, and splitting identities over volumes and shards change no
  answer, in whatever order the hash sets enumerate.
\<close>

theorem physical_bytes_once:
  assumes "enumerates iter"
  shows "(\<exists>s. claims_run (tracker_claim iter) claims Untracked = Some (s, first_claims {} claims))
    \<and> (\<exists>s. claims_run (concurrent_claim iter) claims concurrent_default = Some (s, first_claims {} claims))"
  using claim_table.run_from_start [OF tracker_table(1) [OF assms]] claim_table.run_from_start [OF tracker_table(2) [OF assms]]
  by simp

lemma physical_bytes_once_witness:
  "\<exists>s. claims_run (concurrent_claim listed) [((1, 7), 10), ((1, 7), 10), ((2, 7), 5), ((1, 7), 0)] concurrent_default
    = Some (s, [10, 0, 5, 0])"
  using physical_bytes_once [OF enumerates_listed, of "[((1, 7), 10), ((1, 7), 10), ((2, 7), 5), ((1, 7), 0)]"] by simp

end
