(* ===== verification/Scan_Walk.thy ===== *)
theory Scan_Walk
  imports Scan_Policy Allocation_Tracker Decimal
begin

text \<open>
  The directory walk of \<open>WinBlaze.Scanner/src/controller.rs\<close> on one thread, and the scan around it. The file
  system is the record \<open>scan_host\<close>; a directory listing is what \<open>winfind::read_dir_auto\<close> gives, a list of entries
  and errors. The recursion has fuel, one unit per level. The flag \<open>cancelled\<close> is read at certain points; it
  stays false for the first \<open>we_cancel_at\<close> reads and is true from then on.
\<close>

section \<open>The host\<close>

record find_entry =
  fe_name :: string
  fe_attributes :: u32
  fe_size_bytes :: u64
  fe_allocation_bytes :: u64
  fe_physical_identity :: "identity option"
  fe_created_utc :: u64
  fe_modified_utc :: u64
  fe_accessed_utc :: u64

record enumeration_error =
  en_error :: host_error
  en_path :: "os_path option"

type_synonym listed_entry = "enumeration_error + find_entry"

record scan_host =
  sh_paths :: host_paths
  sh_read_dir :: "bool \<Rightarrow> os_path \<Rightarrow> host_error + listed_entry list"
  sh_canonicalize :: "os_path \<Rightarrow> host_error + os_path"
  sh_is_dir :: "os_path \<Rightarrow> host_error + bool"

text \<open>What a walk is given: the host, the rules, the order of hash sets, the allocator and the moment of the cancellation.\<close>

record walk_env =
  we_host :: scan_host
  we_rules :: scan_rules
  we_policy :: reparse_traversal_policy
  we_fast :: bool
  we_root :: os_path
  we_iter :: "u64 set \<Rightarrow> u64 list"
  we_alloc :: "nat \<Rightarrow> nat"
  we_cancel_at :: "nat option"

definition path_join :: "walk_env \<Rightarrow> os_path \<Rightarrow> string \<Rightarrow> os_path" where
  "path_join env = hp_push (sh_paths (we_host env))"

definition display :: "walk_env \<Rightarrow> os_path \<Rightarrow> string" where
  "display env = hp_lossy (sh_paths (we_host env))"

section \<open>Reparse points and cycles\<close>

text \<open>The chain of canonical ancestors, the last one first; \<open>None\<close> when it is disabled.\<close>

type_synonym ancestor_chain = "os_path list option"

definition chain_disabled :: ancestor_chain where "chain_disabled = None"

definition chain_root :: "os_path \<Rightarrow> ancestor_chain" where "chain_root canonical = Some [canonical]"

definition chain_enabled :: "ancestor_chain \<Rightarrow> bool" where "chain_enabled ancestors \<longleftrightarrow> ancestors \<noteq> None"

definition chain_child :: "os_path \<Rightarrow> ancestor_chain \<Rightarrow> ancestor_chain" where
  "chain_child canonical ancestors = Some (canonical # (case ancestors of Some nodes \<Rightarrow> nodes | None \<Rightarrow> []))"

definition chain_last :: "ancestor_chain \<Rightarrow> os_path option" where
  "chain_last ancestors = (case ancestors of Some (canonical # _) \<Rightarrow> Some canonical | _ \<Rightarrow> None)"

definition chain_contains :: "walk_env \<Rightarrow> os_path \<Rightarrow> ancestor_chain \<Rightarrow> bool" where
  "chain_contains env resolved ancestors = (case ancestors of
     Some nodes \<Rightarrow> list_ex (\<lambda>node. hp_equal (sh_paths (we_host env)) node resolved) nodes | None \<Rightarrow> False)"

definition strip_verbatim_prefix :: "walk_env \<Rightarrow> os_path \<Rightarrow> os_path" where
  "strip_verbatim_prefix env path =
    (let s = display env path; unc = verbatim @ ''UNC'' @ [backslash] in
     if starts_with_str unc s then [backslash, backslash] @ drop (length unc) s
     else if starts_with_str verbatim s then drop (length verbatim) s
     else path)"

datatype reparse_decision = Follow ancestor_chain | SkippedByPolicy | SkippedCycle | SkippedUnresolvable

definition evaluate_reparse_descent ::
  "walk_env \<Rightarrow> os_path \<Rightarrow> os_path \<Rightarrow> string \<Rightarrow> u32 \<Rightarrow> ancestor_chain \<Rightarrow> reparse_decision" where
  "evaluate_reparse_descent env directory entry_path entry_name attributes ancestors =
    (if \<not> is_reparse_point attributes then
       if \<not> chain_enabled ancestors then Follow chain_disabled
       else
         let canonical = (case chain_last ancestors of
               Some parent \<Rightarrow> path_join env parent entry_name | None \<Rightarrow> path_join env directory entry_name)
         in Follow (chain_child canonical ancestors)
     else if \<not> should_descend_into_reparse_target (display env entry_path) attributes (we_policy env) then SkippedByPolicy
     else case sh_canonicalize (we_host env) entry_path of
       Inl _ \<Rightarrow> SkippedUnresolvable
     | Inr resolved \<Rightarrow>
         let resolved = strip_verbatim_prefix env resolved
         in if chain_contains env resolved ancestors then SkippedCycle else Follow (chain_child resolved ancestors))"

definition reparse_cycle_issue :: "walk_env \<Rightarrow> os_path \<Rightarrow> scan_issue_record" where
  "reparse_cycle_issue env entry_path = \<lparr>i_kind = UnknownIssue, i_path = Some (display env entry_path),
    i_message = ''skipped reparse point that would create a directory cycle''\<rparr>"

section \<open>The state of a walk\<close>

record directory_walk_state =
  wt_physical_ids :: tracked_volumes
  wt_directories_seen :: u64
  wt_files_seen :: u64
  wt_total_size_bytes :: u64
  wt_total_allocation_bytes :: u64
  wt_next_directory_id :: u64
  wt_next_file_id :: u64
  wt_last_progress_reported_items :: u64

definition walk_state_new :: directory_walk_state where
  "walk_state_new = \<lparr>wt_physical_ids = Untracked, wt_directories_seen = 0, wt_files_seen = 0, wt_total_size_bytes = 0,
    wt_total_allocation_bytes = 0, wt_next_directory_id = 6, wt_next_file_id = 1, wt_last_progress_reported_items = 0\<rparr>"

definition next_directory_id :: "directory_walk_state \<Rightarrow> u64 \<times> directory_walk_state" where
  "next_directory_id s = (wt_next_directory_id s, s\<lparr>wt_next_directory_id := sat_add (wt_next_directory_id s) 1\<rparr>)"

definition next_file_id :: "directory_walk_state \<Rightarrow> u64 \<times> directory_walk_state" where
  "next_file_id s = (wt_next_file_id s, s\<lparr>wt_next_file_id := sat_add (wt_next_file_id s) 1\<rparr>)"

text \<open>The state of the walk, the keys of the reported issues, the pipeline, and how often the flag was read.\<close>

record walk =
  wk_state :: directory_walk_state
  wk_issue_keys :: "string set"
  wk_out :: outlet
  wk_loads :: nat

definition load_cancelled :: "walk_env \<Rightarrow> walk \<Rightarrow> bool \<times> walk" where
  "load_cancelled env w =
    (case we_cancel_at env of Some k \<Rightarrow> k \<le> wk_loads w | None \<Rightarrow> False, w\<lparr>wk_loads := wk_loads w + 1\<rparr>)"

datatype walk_fault = Tracker_panicked | Out_of_fuel

section \<open>Emitting\<close>

definition FALLBACK_PROGRESS_ITEM_DELTA :: u64 where "FALLBACK_PROGRESS_ITEM_DELTA = 4096"

definition maybe_emit_progress :: "walk_env \<Rightarrow> bool \<Rightarrow> walk \<Rightarrow> walk" where
  "maybe_emit_progress env force w =
    (let s = wk_state w; completed_items = sat_add (wt_files_seen s) (wt_directories_seen s) in
     if force \<or> sat_sub completed_items (wt_last_progress_reported_items s) \<ge> FALLBACK_PROGRESS_ITEM_DELTA
     then w\<lparr>wk_state := s\<lparr>wt_last_progress_reported_items := completed_items\<rparr>,
            wk_out := emit_progress (we_alloc env) completed_items 0 (wt_total_size_bytes s) (wk_out w)\<rparr>
     else w)"

definition issue_kind_code :: "scan_issue_kind \<Rightarrow> nat" where
  "issue_kind_code kind = (case kind of PermissionDenied \<Rightarrow> 0 | NotFound \<Rightarrow> 1 | SharingViolation \<Rightarrow> 2 | TransientIo \<Rightarrow> 3
    | UnsupportedFilesystem \<Rightarrow> 4 | UnknownIssue \<Rightarrow> 5 | FastScanUnavailable \<Rightarrow> 6)"

definition issue_key :: "scan_issue_record \<Rightarrow> string" where
  "issue_key issue = decimal (issue_kind_code (i_kind issue)) @ [CHR 0x00] @ (case i_path issue of Some path \<Rightarrow> path | None \<Rightarrow> [])
    @ [CHR 0x00] @ i_message issue"

definition emit_deduplicated_issue :: "(nat \<Rightarrow> nat) \<Rightarrow> scan_issue_record \<Rightarrow> string set \<times> outlet \<Rightarrow> string set \<times> outlet" where
  "emit_deduplicated_issue alloc issue = (\<lambda>(keys, out).
    if issue_key issue \<in> keys then (keys, out) else (insert (issue_key issue) keys, emit_issue alloc issue out))"

definition emit_deduplicated_event :: "(nat \<Rightarrow> nat) \<Rightarrow> scan_event \<Rightarrow> string set \<times> outlet \<Rightarrow> string set \<times> outlet" where
  "emit_deduplicated_event alloc event = (\<lambda>(keys, out). case event of
     FileFound f \<Rightarrow> (keys, pipe_file alloc f out)
   | DirectoryFound d \<Rightarrow> (keys, pipe_directory alloc d out)
   | Issue issue \<Rightarrow> emit_deduplicated_issue alloc issue (keys, out)
   | other \<Rightarrow> (keys, emit_event alloc other out))"

definition walk_issue :: "walk_env \<Rightarrow> scan_issue_record \<Rightarrow> walk \<Rightarrow> walk" where
  "walk_issue env issue w = (let (keys, out) = emit_deduplicated_issue (we_alloc env) issue (wk_issue_keys w, wk_out w)
    in w\<lparr>wk_issue_keys := keys, wk_out := out\<rparr>)"

definition directory_found :: "u64 \<Rightarrow> u64 option \<Rightarrow> string \<Rightarrow> string \<Rightarrow> directory_record" where
  "directory_found directory_id parent_id name full_path = \<lparr>d_id = directory_id, d_parent_directory_id = parent_id, d_name = name,
    d_full_path = full_path, d_direct_bytes = 0, d_total_bytes = 0, d_direct_entries = 0, d_total_entries = 0\<rparr>"

definition emit_directory_record :: "walk_env \<Rightarrow> u64 \<Rightarrow> u64 option \<Rightarrow> os_path \<Rightarrow> string \<Rightarrow> u64 \<Rightarrow> walk \<Rightarrow> walk" where
  "emit_directory_record env directory_id parent_id full_path name allocation_bytes w =
    (let s = wk_state w;
         s = s\<lparr>wt_directories_seen := sat_add (wt_directories_seen s) 1,
               wt_total_allocation_bytes := sat_add (wt_total_allocation_bytes s) allocation_bytes\<rparr>
     in maybe_emit_progress env False
          (w\<lparr>wk_state := s,
             wk_out := pipe_directory (we_alloc env) (directory_found directory_id parent_id name (display env full_path)) (wk_out w)\<rparr>))"

definition filetime_or_none :: "u64 \<Rightarrow> i64 option" where
  "filetime_or_none t = (if t = 0 then None else Some t)"

definition file_found :: "walk_env \<Rightarrow> u64 \<Rightarrow> u64 \<Rightarrow> u64 \<Rightarrow> find_entry \<Rightarrow> file_record" where
  "file_found env file_id parent_id allocation_bytes e = \<lparr>f_id = file_id, f_parent_directory_id = parent_id,
    f_name = display env (fe_name e), f_full_path = [], f_size_bytes = fe_size_bytes e, f_allocation_bytes = allocation_bytes,
    f_attributes = fe_attributes e,
    f_timestamps = timestamps_new (filetime_or_none (fe_created_utc e)) (filetime_or_none (fe_modified_utc e))
      (filetime_or_none (fe_accessed_utc e))\<rparr>"

definition emit_file_record :: "walk_env \<Rightarrow> u64 \<Rightarrow> find_entry \<Rightarrow> walk \<Rightarrow> walk_fault + walk" where
  "emit_file_record env parent_id e w =
    (let s = wk_state w in
     case (case fe_physical_identity e of
         None \<Rightarrow> Some (wt_physical_ids s, fe_allocation_bytes e)
       | Some identity \<Rightarrow> tracker_claim (we_iter env) identity (fe_allocation_bytes e) (wt_physical_ids s)) of
       None \<Rightarrow> Inl Tracker_panicked
     | Some (ids, allocation_bytes) \<Rightarrow>
         let s = s\<lparr>wt_physical_ids := ids, wt_files_seen := sat_add (wt_files_seen s) 1,
               wt_total_size_bytes := sat_add (wt_total_size_bytes s) (fe_size_bytes e),
               wt_total_allocation_bytes := sat_add (wt_total_allocation_bytes s) allocation_bytes\<rparr>;
             (file_id, s) = next_file_id s
         in Inr (maybe_emit_progress env False
              (w\<lparr>wk_state := s, wk_out := pipe_file (we_alloc env) (file_found env file_id parent_id allocation_bytes e) (wk_out w)\<rparr>)))"

section \<open>The walk\<close>

definition entry_allowed :: "walk_env \<Rightarrow> os_path \<Rightarrow> find_entry \<Rightarrow> bool" where
  "entry_allowed env directory e \<longleftrightarrow> rules_empty (we_rules env)
    \<or> rules_allow (sh_paths (we_host env)) (we_rules env) (we_root env) (path_join env directory (fe_name e))
        (is_directory (fe_attributes e))"

definition failure_issue :: "walk_env \<Rightarrow> os_path \<Rightarrow> enumeration_error \<Rightarrow> scan_issue_record" where
  "failure_issue env directory failure =
    convert_io_error (en_error failure) (display env (case en_path failure of Some path \<Rightarrow> path | None \<Rightarrow> directory))"

type_synonym descend = "os_path \<Rightarrow> u64 \<Rightarrow> ancestor_chain \<Rightarrow> walk \<Rightarrow> walk_fault + walk"

definition walk_subdirectory :: "walk_env \<Rightarrow> descend \<Rightarrow> os_path \<Rightarrow> u64 \<Rightarrow> ancestor_chain \<Rightarrow> find_entry \<Rightarrow> walk \<Rightarrow> walk_fault + walk" where
  "walk_subdirectory env descend directory parent_id ancestors e w =
    (let entry_path = path_join env directory (fe_name e);
         decision = evaluate_reparse_descent env directory entry_path (fe_name e) (fe_attributes e) ancestors;
         (directory_id, s) = next_directory_id (wk_state w);
         w = emit_directory_record env directory_id (Some parent_id) entry_path (display env (fe_name e)) 0 (w\<lparr>wk_state := s\<rparr>)
     in case decision of
       Follow child_ancestors \<Rightarrow> descend entry_path directory_id child_ancestors w
     | SkippedCycle \<Rightarrow> Inr (walk_issue env (reparse_cycle_issue env entry_path) w)
     | _ \<Rightarrow> Inr w)"

fun walk_entries :: "walk_env \<Rightarrow> descend \<Rightarrow> os_path \<Rightarrow> u64 \<Rightarrow> ancestor_chain \<Rightarrow> listed_entry list \<Rightarrow> walk \<Rightarrow> walk_fault + walk" where
  "walk_entries env descend directory parent_id ancestors [] w = Inr w"
| "walk_entries env descend directory parent_id ancestors (entry_result # entries) w =
    (let (cancelled, w) = load_cancelled env w in
     if cancelled then Inr w
     else rbind
       (case entry_result of
          Inl failure \<Rightarrow> Inr (walk_issue env (failure_issue env directory failure) w)
        | Inr e \<Rightarrow>
            if \<not> entry_allowed env directory e then Inr w
            else if is_directory (fe_attributes e) then walk_subdirectory env descend directory parent_id ancestors e w
            else emit_file_record env parent_id e w)
       (walk_entries env descend directory parent_id ancestors entries))"

primrec walk_directory_tree :: "nat \<Rightarrow> walk_env \<Rightarrow> descend" where
  "walk_directory_tree 0 env = (\<lambda>directory parent_id ancestors w. Inl Out_of_fuel)"
| "walk_directory_tree (Suc fuel) env = (\<lambda>directory parent_id ancestors w.
    case sh_read_dir (we_host env) (we_fast env) directory of
      Inl e \<Rightarrow> Inr (walk_issue env (convert_io_error e (display env directory)) w)
    | Inr entries \<Rightarrow> walk_entries env (walk_directory_tree fuel env) directory parent_id ancestors entries w)"

section \<open>The scan around it\<close>

definition fallback_volume :: "walk_env \<Rightarrow> volume_record" where
  "fallback_volume env = \<lparr>v_id = 0, v_mount_point = display env (we_root env), v_label = None, v_file_system = UnknownFs,
    v_total_bytes = 0, v_free_bytes = 0, v_root_directory_id = 0\<rparr>"

type_synonym reported = "string set \<times> outlet"

definition validate_directory_walk_root :: "walk_env \<Rightarrow> reported \<Rightarrow> bool \<times> reported" where
  "validate_directory_walk_root env r = (case sh_is_dir (we_host env) (we_root env) of
     Inr True \<Rightarrow> (True, r)
   | Inr False \<Rightarrow> (False, emit_deduplicated_issue (we_alloc env)
       \<lparr>i_kind = NotFound, i_path = Some (display env (we_root env)), i_message = ''scan root is not a directory''\<rparr> r)
   | Inl e \<Rightarrow> (False, emit_deduplicated_issue (we_alloc env) (convert_io_error e (display env (we_root env))) r))"

definition root_directory :: "walk_env \<Rightarrow> directory_record" where
  "root_directory env = directory_found 5 None
    (case hp_file_name (sh_paths (we_host env)) (we_root env) of Some name \<Rightarrow> display env name | None \<Rightarrow> display env (we_root env))
    (display env (we_root env))"

definition root_ancestors :: "walk_env \<Rightarrow> ancestor_chain" where
  "root_ancestors env = (if we_policy env = SkipAll then chain_disabled
    else chain_root (case sh_canonicalize (we_host env) (we_root env) of
      Inr resolved \<Rightarrow> strip_verbatim_prefix env resolved | Inl _ \<Rightarrow> we_root env))"

text \<open>A walker is given the root, its id, its chain, and the issues and events so far; it returns them with the summary.\<close>

type_synonym walker = "os_path \<Rightarrow> u64 \<Rightarrow> ancestor_chain \<Rightarrow> reported \<times> nat \<Rightarrow> walk_fault + (reported \<times> nat) \<times> scan_summary"

definition sequential_walker :: "nat \<Rightarrow> walk_env \<Rightarrow> walker" where
  "sequential_walker fuel env = (\<lambda>root root_id ancestors ((keys, out), loads).
    rbind (walk_directory_tree fuel env root root_id ancestors
        \<lparr>wk_state = walk_state_new\<lparr>wt_directories_seen := 1\<rparr>, wk_issue_keys = keys, wk_out = out, wk_loads = loads\<rparr>)
      (\<lambda>w. Inr (((wk_issue_keys w, wk_out w), wk_loads w),
        \<lparr>ss_files_seen = wt_files_seen (wk_state w), ss_directories_seen = wt_directories_seen (wk_state w),
         ss_total_size_bytes = wt_total_size_bytes (wk_state w),
         ss_total_allocation_bytes = wt_total_allocation_bytes (wk_state w)\<rparr>)))"

definition empty_summary :: scan_summary where
  "empty_summary = \<lparr>ss_files_seen = 0, ss_directories_seen = 0, ss_total_size_bytes = 0, ss_total_allocation_bytes = 0\<rparr>"

definition close_scan :: "walk_env \<Rightarrow> (reported \<times> nat) \<times> scan_summary \<Rightarrow> outlet" where
  "close_scan env = (\<lambda>(((keys, out), loads), summary).
    if (case we_cancel_at env of Some k \<Rightarrow> k \<le> loads | None \<Rightarrow> False) then emit_cancelled (we_alloc env) out
    else emit_completed (we_alloc env) (emit_summary (we_alloc env) summary
      (emit_progress (we_alloc env) (sat_add (ss_files_seen summary) (ss_directories_seen summary)) 0
        (ss_total_size_bytes summary) out)))"

definition run_fallback_scan :: "walk_env \<Rightarrow> walker \<Rightarrow> reported \<Rightarrow> walk_fault + outlet" where
  "run_fallback_scan env walker = (\<lambda>(keys, out).
    case validate_directory_walk_root env (keys, emit_session_started (we_alloc env) (fallback_volume env) out) of
      (False, (keys, out)) \<Rightarrow>
        Inr (emit_completed (we_alloc env) (emit_summary (we_alloc env) empty_summary out))
    | (True, (keys, out)) \<Rightarrow>
        let out = pipe_directory (we_alloc env) (root_directory env) out;
            out = pipeline_flush (emit_progress (we_alloc env) 1 0 0 out)
        in rbind (walker (we_root env) 5 (root_ancestors env) ((keys, out), 0)) (\<lambda>result. Inr (close_scan env result)))"

text \<open>The fast reader of the file table is a parameter: the events it gave to its callback, and its result.\<close>

datatype mft_failure = MftIo host_error | MftInvalidRecord string

definition convert_ntfs_error :: "mft_failure \<Rightarrow> string \<Rightarrow> scan_issue_record" where
  "convert_ntfs_error failure path =
    (let detail = (case failure of
       MftIo e \<Rightarrow>
         if classify_io_error e = ScanPermissionDenied
         then ''access denied reading the NTFS master file table ('' @ io_text e @ ''); restart WinBlaze as Administrator for full-speed scans''
         else ''could not read the NTFS master file table ('' @ io_text e @ '')''
     | MftInvalidRecord message \<Rightarrow> ''NTFS master file table record could not be parsed ('' @ message @ '')'')
     in \<lparr>i_kind = FastScanUnavailable, i_path = Some path, i_message = ''Falling back to a standard directory scan: '' @ detail\<rparr>)"

definition provisional_volume_record :: "walk_env \<Rightarrow> scan_access_plan \<Rightarrow> volume_record" where
  "provisional_volume_record env plan = \<lparr>v_id = 0, v_mount_point = display env (ap_selected_root plan),
    v_label = Option.bind (ap_root_candidate plan) (\<lambda>c. map_option (\<lambda>letter. [letter, CHR '':'']) (vc_drive_letter c)),
    v_file_system = UnknownFs, v_total_bytes = 0, v_free_bytes = 0, v_root_directory_id = 0\<rparr>"

definition start_scan :: "walk_env \<Rightarrow> walker \<Rightarrow> scan_access_plan \<Rightarrow> scan_event list \<times> (mft_failure + scan_summary) \<Rightarrow> outlet \<Rightarrow> walk_fault + outlet" where
  "start_scan env walker plan mft out =
    (let alloc = we_alloc env in
     if ap_primary_backend plan = NtfsMft \<and> rules_empty (we_rules env) then
       let out = emit_session_started alloc (provisional_volume_record env plan) out;
           (keys, out) = fold (emit_deduplicated_event alloc) (fst mft) ({}, out)
       in case snd mft of
         Inr summary \<Rightarrow> Inr (emit_completed alloc (emit_summary alloc summary out))
       | Inl failure \<Rightarrow>
           run_fallback_scan env walker
             (emit_deduplicated_issue alloc (convert_ntfs_error failure (display env (ap_selected_root plan))) (keys, out))
     else run_fallback_scan env walker ({}, out))"

section \<open>The tree a walk visits\<close>

text \<open>What the listings, rules and reparse decisions give, without ids, counters and events.\<close>

datatype node = FileNode find_entry | IssueNode scan_issue_record | DirNode os_path string "node list"

definition subdirectory_node ::
  "walk_env \<Rightarrow> (os_path \<Rightarrow> ancestor_chain \<Rightarrow> node list option) \<Rightarrow> os_path \<Rightarrow> ancestor_chain \<Rightarrow> find_entry \<Rightarrow> node option" where
  "subdirectory_node env below directory ancestors e =
    (let path = path_join env directory (fe_name e); name = display env (fe_name e) in
     case evaluate_reparse_descent env directory path (fe_name e) (fe_attributes e) ancestors of
       Follow child_ancestors \<Rightarrow> map_option (DirNode path name) (below path child_ancestors)
     | SkippedCycle \<Rightarrow> Some (DirNode path name [IssueNode (reparse_cycle_issue env path)])
     | _ \<Rightarrow> Some (DirNode path name []))"

fun entry_nodes ::
  "walk_env \<Rightarrow> (os_path \<Rightarrow> ancestor_chain \<Rightarrow> node list option) \<Rightarrow> os_path \<Rightarrow> ancestor_chain \<Rightarrow> listed_entry list \<Rightarrow> node list option" where
  "entry_nodes env below directory ancestors [] = Some []"
| "entry_nodes env below directory ancestors (Inl failure # entries) =
    map_option (Cons (IssueNode (failure_issue env directory failure))) (entry_nodes env below directory ancestors entries)"
| "entry_nodes env below directory ancestors (Inr e # entries) =
    (if \<not> entry_allowed env directory e then entry_nodes env below directory ancestors entries
     else if is_directory (fe_attributes e) then
       Option.bind (subdirectory_node env below directory ancestors e)
         (\<lambda>node. map_option (Cons node) (entry_nodes env below directory ancestors entries))
     else map_option (Cons (FileNode e)) (entry_nodes env below directory ancestors entries))"

text \<open>\<open>None\<close>: the tree is deeper than the bound.\<close>

primrec visited_tree :: "nat \<Rightarrow> walk_env \<Rightarrow> os_path \<Rightarrow> ancestor_chain \<Rightarrow> node list option" where
  "visited_tree 0 env = (\<lambda>directory ancestors. None)"
| "visited_tree (Suc depth) env = (\<lambda>directory ancestors. case sh_read_dir (we_host env) (we_fast env) directory of
     Inl e \<Rightarrow> Some [IssueNode (convert_io_error e (display env directory))]
   | Inr entries \<Rightarrow> entry_nodes env (visited_tree depth env) directory ancestors entries)"

text \<open>The nodes in the order of the walk, directories numbered from \<open>k\<close> on, each with the number of its parent.\<close>

datatype item = DirItem nat nat os_path string | FileItem nat find_entry | IssueItem scan_issue_record

fun count_dirs :: "item list \<Rightarrow> nat" where
  "count_dirs [] = 0"
| "count_dirs (DirItem _ _ _ _ # items) = Suc (count_dirs items)"
| "count_dirs (_ # items) = count_dirs items"

fun flat :: "nat \<Rightarrow> nat \<Rightarrow> node list \<Rightarrow> item list" where
  "flat parent k [] = []"
| "flat parent k (FileNode e # nodes) = FileItem parent e # flat parent k nodes"
| "flat parent k (IssueNode i # nodes) = IssueItem i # flat parent k nodes"
| "flat parent k (DirNode path name children # nodes) =
    (let below = flat k (Suc k) children
     in DirItem parent k path name # below @ flat parent (Suc (k + count_dirs below)) nodes)"

text \<open>
  The events of the items: files are numbered, an identity brings its allocation once, an issue is reported once.
  The state is the next file number, the identities and the keys seen.
\<close>

type_synonym item_state = "nat \<times> identity set \<times> string set"

fun item_events :: "walk_env \<Rightarrow> item_state \<Rightarrow> item \<Rightarrow> scan_event list \<times> item_state" where
  "item_events env st (DirItem parent k path name) =
    ([DirectoryFound (directory_found (of_nat k) (Some (of_nat parent)) name (display env path))], st)"
| "item_events env (n, seen, keys) (FileItem parent e) =
    (let allocation = (case fe_physical_identity e of None \<Rightarrow> fe_allocation_bytes e
           | Some i \<Rightarrow> if fe_allocation_bytes e = 0 \<or> i \<in> seen then 0 else fe_allocation_bytes e)
     in ([FileFound (file_found env (of_nat n) (of_nat parent) allocation e)],
         (Suc n, case fe_physical_identity e of Some i \<Rightarrow> if fe_allocation_bytes e = 0 then seen else insert i seen | None \<Rightarrow> seen, keys)))"
| "item_events env (n, seen, keys) (IssueItem i) =
    (if issue_key i \<in> keys then [] else [Issue i], (n, seen, insert (issue_key i) keys))"

fun events_of_items :: "walk_env \<Rightarrow> item_state \<Rightarrow> item list \<Rightarrow> scan_event list \<times> item_state" where
  "events_of_items env st [] = ([], st)"
| "events_of_items env st (item # items) =
    (let (es, st) = item_events env st item; (es', st) = events_of_items env st items in (es @ es', st))"

fun emitted_files :: "scan_event list \<Rightarrow> file_record list" where
  "emitted_files [] = []"
| "emitted_files (FileFound f # events) = f # emitted_files events"
| "emitted_files (_ # events) = emitted_files events"

lemma events_of_items_append:
  "events_of_items env st (xs @ ys) = (let (es, st) = events_of_items env st xs; (es', st) = events_of_items env st ys in (es @ es', st))"
  by (induction xs arbitrary: st) (auto simp: Let_def split: prod.splits)

lemma count_dirs_append [simp]: "count_dirs (xs @ ys) = count_dirs xs + count_dirs ys"
  by (induction xs rule: count_dirs.induct) auto

lemma emitted_files_append [simp]: "emitted_files (xs @ ys) = emitted_files xs @ emitted_files ys"
  by (induction xs rule: emitted_files.induct) auto

lemma count_dirs_le: "count_dirs xs \<le> length xs"
  by (induction xs rule: count_dirs.induct) auto

fun count_files :: "item list \<Rightarrow> nat" where
  "count_files [] = 0"
| "count_files (FileItem _ _ # items) = Suc (count_files items)"
| "count_files (_ # items) = count_files items"

lemma count_files_append [simp]: "count_files (xs @ ys) = count_files xs + count_files ys"
  by (induction xs rule: count_files.induct) auto

lemma count_files_le: "count_files xs \<le> length xs"
  by (induction xs rule: count_files.induct) auto

section \<open>The walk follows the tree\<close>

text \<open>The state after the items \<open>xs\<close>, from a state with the events \<open>base\<close> and the issue keys \<open>keys0\<close>.\<close>

definition follows :: "walk_env \<Rightarrow> scan_event list \<Rightarrow> string set \<Rightarrow> item list \<Rightarrow> walk \<Rightarrow> bool" where
  "follows env base keys0 xs w \<longleftrightarrow>
    (case events_of_items env (Suc 0, {}, keys0) xs of (es, n, seen, keys) \<Rightarrow>
      outlet_ok (wk_out w) \<and> result_events (wk_out w) = base @ es \<and> wk_issue_keys w = keys
      \<and> tracker_ok (wt_physical_ids (wk_state w)) \<and> tracker_ids (wt_physical_ids (wk_state w)) = seen
      \<and> n = Suc (count_files xs) \<and> wt_next_file_id (wk_state w) = of_nat n
      \<and> wt_next_directory_id (wk_state w) = of_nat (6 + count_dirs xs)
      \<and> wt_files_seen (wk_state w) = of_nat (count_files xs)
      \<and> wt_directories_seen (wk_state w) = of_nat (Suc (count_dirs xs))
      \<and> wt_total_size_bytes (wk_state w) = sat_sum (map f_size_bytes (emitted_files es))
      \<and> wt_total_allocation_bytes (wk_state w) = sat_sum (map f_allocation_bytes (emitted_files es)))"

lemma sat_add_of_nat: "a + b < 2 ^ 64 \<Longrightarrow> sat_add (of_nat a) (of_nat b :: u64) = of_nat (a + b)"
  by (simp add: sat_add_def unat_of_nat)

lemma sat_sum_snoc: "sat_sum (xs @ [x]) = sat_add (sat_sum xs) x"
  by (simp add: sat_sum_def)

lemma follows_progress:
  assumes "follows env base keys0 xs w" "\<And>n. n \<le> we_alloc env n"
  shows "follows env base keys0 xs (maybe_emit_progress env force w)"
  using assms(1) emit_progress_events [OF _ assms(2)]
  by (auto simp: follows_def maybe_emit_progress_def Let_def)

lemma result_events_snoc: "trace out' = trace out @ [e] \<Longrightarrow> result_events out' = result_events out @ (if is_progress e then [] else [e])"
  by (simp add: result_events_def)

lemma walk_issue_follows:
  assumes "follows env base keys0 xs w" "\<And>n. n \<le> we_alloc env n"
  shows "follows env base keys0 (xs @ [IssueItem i]) (walk_issue env i w)"
proof -
  obtain es n seen keys where run: "events_of_items env (Suc 0, {}, keys0) xs = (es, n, seen, keys)" by (metis prod_cases4)
  have ok: "outlet_ok (wk_out w)" using assms(1) by (simp add: follows_def run)
  note emit = emitters(7,8) [OF ok assms(2)]
  show ?thesis
    using assms(1) emit result_events_snoc [OF emit(2)]
    by (auto simp: follows_def run events_of_items_append walk_issue_def emit_deduplicated_issue_def insert_absorb)
qed

lemma emit_directory_follows:
  assumes "follows env base keys0 xs w" "\<And>n. n \<le> we_alloc env n" "length xs + 7 < 2 ^ 64"
    and "next_directory_id (wk_state w) = (i, s)"
  shows "i = of_nat (6 + count_dirs xs)"
    "follows env base keys0 (xs @ [DirItem parent (6 + count_dirs xs) path name])
      (emit_directory_record env i (Some (of_nat parent)) path name 0 (w\<lparr>wk_state := s\<rparr>))"
proof -
  obtain es n seen keys where run: "events_of_items env (Suc 0, {}, keys0) xs = (es, n, seen, keys)" by (metis prod_cases4)
  show i: "i = of_nat (6 + count_dirs xs)" using assms(1,4) by (auto simp: follows_def run next_directory_id_def)
  have ok: "outlet_ok (wk_out w)" using assms(1) by (simp add: follows_def run)
  let ?d = "directory_found i (Some (of_nat parent)) name (display env path)"
  note emit = emitters(3,4) [OF ok assms(2), of ?d]
  have next_id: "sat_add (of_nat (6 + count_dirs xs)) (1 :: u64) = of_nat (6 + count_dirs (xs @ [DirItem parent j path name]))"
    "sat_add (of_nat (Suc (count_dirs xs))) (1 :: u64) = of_nat (Suc (count_dirs (xs @ [DirItem parent j path name])))" for j
    using sat_add_of_nat [of "6 + count_dirs xs" 1] sat_add_of_nat [of "Suc (count_dirs xs)" 1] count_dirs_le [of xs] assms(3)
    by (simp_all add: add.commute)
  have "follows env base keys0 (xs @ [DirItem parent (6 + count_dirs xs) path name])
      (w\<lparr>wk_state := s\<lparr>wt_directories_seen := sat_add (wt_directories_seen s) 1,
               wt_total_allocation_bytes := sat_add (wt_total_allocation_bytes s) 0\<rparr>,
         wk_out := pipe_directory (we_alloc env) ?d (wk_out w)\<rparr>)"
    using assms(1,4) emit result_events_snoc [OF emit(2)] next_id i
    by (auto simp: follows_def run events_of_items_append next_directory_id_def)
  from follows_progress [OF this assms(2)] show "follows env base keys0 (xs @ [DirItem parent (6 + count_dirs xs) path name])
      (emit_directory_record env i (Some (of_nat parent)) path name 0 (w\<lparr>wk_state := s\<rparr>))"
    by (simp add: emit_directory_record_def Let_def)
qed

lemma emit_file_follows:
  assumes "follows env base keys0 xs w" "\<And>n. n \<le> we_alloc env n" "length xs + 7 < 2 ^ 64" "enumerates (we_iter env)"
  shows "\<exists>w'. emit_file_record env (of_nat parent) e w = Inr w' \<and> follows env base keys0 (xs @ [FileItem parent e]) w'"
proof -
  obtain es n seen keys where run: "events_of_items env (Suc 0, {}, keys0) xs = (es, n, seen, keys)" by (metis prod_cases4)
  let ?s = "wk_state w"
  have ok: "outlet_ok (wk_out w)" "tracker_ok (wt_physical_ids ?s)" "tracker_ids (wt_physical_ids ?s) = seen"
    "n = Suc (count_files xs)" "wt_next_file_id ?s = of_nat n" "wt_files_seen ?s = of_nat (count_files xs)"
    using assms(1) by (simp_all add: follows_def run)
  define allocation where "allocation = (case fe_physical_identity e of None \<Rightarrow> fe_allocation_bytes e
      | Some i \<Rightarrow> if fe_allocation_bytes e = 0 \<or> i \<in> seen then 0 else fe_allocation_bytes e)"
  define seen' where "seen' = (case fe_physical_identity e of Some i \<Rightarrow> if fe_allocation_bytes e = 0 then seen else insert i seen | None \<Rightarrow> seen)"
  obtain ids where ids: "(case fe_physical_identity e of
         None \<Rightarrow> Some (wt_physical_ids ?s, fe_allocation_bytes e)
       | Some identity \<Rightarrow> tracker_claim (we_iter env) identity (fe_allocation_bytes e) (wt_physical_ids ?s)) = Some (ids, allocation)"
    "tracker_ok ids" "tracker_ids ids = seen'"
  proof (cases "fe_physical_identity e")
    case None
    then show ?thesis using that [of "wt_physical_ids ?s"] ok by (simp add: allocation_def seen'_def)
  next
    case (Some i)
    from tracker_claim_spec [OF assms(4) ok(2), of i "fe_allocation_bytes e"] show ?thesis
      using that Some ok(3) by (auto simp: allocation_def seen'_def)
  qed
  let ?f = "file_found env (of_nat n) (of_nat parent) allocation e"
  let ?s' = "?s\<lparr>wt_physical_ids := ids, wt_files_seen := sat_add (wt_files_seen ?s) 1,
               wt_total_size_bytes := sat_add (wt_total_size_bytes ?s) (fe_size_bytes e),
               wt_total_allocation_bytes := sat_add (wt_total_allocation_bytes ?s) allocation,
               wt_next_file_id := sat_add (wt_next_file_id ?s) 1\<rparr>"
  let ?w = "w\<lparr>wk_state := ?s', wk_out := pipe_file (we_alloc env) ?f (wk_out w)\<rparr>"
  note emit = emitters(5,6) [OF ok(1) assms(2), of ?f]
  have counts: "sat_add (of_nat (count_files xs)) (1 :: u64) = of_nat (Suc (count_files xs))"
    "sat_add (of_nat n) (1 :: u64) = of_nat (Suc n)"
    using sat_add_of_nat [of "count_files xs" 1] sat_add_of_nat [of n 1] count_files_le [of xs] assms(3) ok(4)
    by (simp_all add: add.commute)
  have "item_events env (n, seen, keys) (FileItem parent e) = ([FileFound ?f], Suc n, seen', keys)"
    by (simp add: allocation_def seen'_def)
  then have run': "events_of_items env (Suc 0, {}, keys0) (xs @ [FileItem parent e]) = (es @ [FileFound ?f], Suc n, seen', keys)"
    unfolding events_of_items_append run by (simp add: Let_def)
  have "f_size_bytes ?f = fe_size_bytes e" "f_allocation_bytes ?f = allocation" by (simp_all add: file_found_def)
  then have "follows env base keys0 (xs @ [FileItem parent e]) ?w"
    using assms(1) emit result_events_snoc [OF emit(2)] ids counts ok
    by (simp add: follows_def run run' sat_sum_snoc)
  from follows_progress [OF this assms(2)]
  have "follows env base keys0 (xs @ [FileItem parent e]) (maybe_emit_progress env False ?w)" .
  moreover have "emit_file_record env (of_nat parent) e w = Inr (maybe_emit_progress env False ?w)"
    by (simp add: emit_file_record_def ids(1) next_file_id_def Let_def ok(5))
  ultimately show ?thesis by blast
qed

lemma load_cancelled_follows:
  assumes "we_cancel_at env = None"
  shows "fst (load_cancelled env w) = False" "follows env base keys0 xs (snd (load_cancelled env w)) = follows env base keys0 xs w"
  using assms by (simp_all add: load_cancelled_def follows_def)

text \<open>What holds of a descent, here of the recursive call: it adds the items of the tree below.\<close>

definition descends_ok ::
  "walk_env \<Rightarrow> scan_event list \<Rightarrow> string set \<Rightarrow> (os_path \<Rightarrow> ancestor_chain \<Rightarrow> node list option) \<Rightarrow> descend \<Rightarrow> bool" where
  "descends_ok env base keys0 below descend \<longleftrightarrow>
    (\<forall>directory parent ancestors t xs w. below directory ancestors = Some t \<longrightarrow> follows env base keys0 xs w
      \<longrightarrow> length (xs @ flat parent (6 + count_dirs xs) t) + 7 < 2 ^ 64
      \<longrightarrow> (\<exists>w'. descend directory (of_nat parent) ancestors w = Inr w'
            \<and> follows env base keys0 (xs @ flat parent (6 + count_dirs xs) t) w'))"

lemma descends_okD:
  assumes "descends_ok env base keys0 below descend" "below directory ancestors = Some t" "follows env base keys0 xs w"
    "length (xs @ flat parent (6 + count_dirs xs) t) + 7 < 2 ^ 64"
  shows "\<exists>w'. descend directory (of_nat parent) ancestors w = Inr w'
    \<and> follows env base keys0 (xs @ flat parent (6 + count_dirs xs) t) w'"
  using assms unfolding descends_ok_def by blast

lemma walk_subdirectory_follows:
  assumes below: "descends_ok env base keys0 below descend" and alloc: "\<And>n. n \<le> we_alloc env n"
    and node: "subdirectory_node env below directory ancestors e = Some node"
    and w: "follows env base keys0 xs w"
    and bound: "length (xs @ flat parent (6 + count_dirs xs) [node]) + 7 < 2 ^ 64"
  shows "\<exists>w'. walk_subdirectory env descend directory (of_nat parent) ancestors e w = Inr w'
    \<and> follows env base keys0 (xs @ flat parent (6 + count_dirs xs) [node]) w'"
proof -
  let ?k = "6 + count_dirs xs"
  let ?path = "path_join env directory (fe_name e)" and ?name = "display env (fe_name e)"
  let ?decision = "evaluate_reparse_descent env directory ?path (fe_name e) (fe_attributes e) ancestors"
  let ?xs = "xs @ [DirItem parent ?k ?path ?name]"
  obtain i s where i: "next_directory_id (wk_state w) = (i, s)" by fastforce
  let ?w = "emit_directory_record env i (Some (of_nat parent)) ?path ?name 0 (w\<lparr>wk_state := s\<rparr>)"
  have "length xs + 7 < 2 ^ 64" using bound by simp
  note emit = emit_directory_follows(1) [OF w alloc this i]
    emit_directory_follows(2) [OF w alloc this i, of parent ?path ?name]
  have eq: "walk_subdirectory env descend directory (of_nat parent) ancestors e w = (case ?decision of
      Follow child_ancestors \<Rightarrow> descend ?path i child_ancestors ?w
    | SkippedCycle \<Rightarrow> Inr (walk_issue env (reparse_cycle_issue env ?path) ?w)
    | _ \<Rightarrow> Inr ?w)"
    by (simp add: walk_subdirectory_def i Let_def)
  show ?thesis
  proof (cases ?decision)
    case (Follow child_ancestors)
    then obtain t where t: "below ?path child_ancestors = Some t" "node = DirNode ?path ?name t"
      using node by (auto simp: subdirectory_node_def Let_def)
    have k: "6 + count_dirs ?xs = Suc ?k" by simp
    have flat: "xs @ flat parent ?k [node] = ?xs @ flat ?k (Suc ?k) t" by (simp add: t(2) Let_def)
    have "length (?xs @ flat ?k (6 + count_dirs ?xs) t) + 7 < 2 ^ 64" using bound unfolding flat k .
    from descends_okD [OF below t(1) emit(2) this] show ?thesis unfolding eq flat k emit(1) by (simp add: Follow)
  next
    case SkippedCycle
    then have "node = DirNode ?path ?name [IssueNode (reparse_cycle_issue env ?path)]"
      using node by (simp add: subdirectory_node_def Let_def)
    then show ?thesis using walk_issue_follows [OF emit(2) alloc, of "reparse_cycle_issue env ?path"] by (simp add: eq SkippedCycle)
  next
    case SkippedByPolicy
    then have "node = DirNode ?path ?name []" using node by (simp add: subdirectory_node_def Let_def)
    then show ?thesis using emit(2) by (simp add: eq SkippedByPolicy)
  next
    case SkippedUnresolvable
    then have "node = DirNode ?path ?name []" using node by (simp add: subdirectory_node_def Let_def)
    then show ?thesis using emit(2) by (simp add: eq SkippedUnresolvable)
  qed
qed

lemma flat_append:
  "flat parent k (ns @ ms) = flat parent k ns @ flat parent (k + count_dirs (flat parent k ns)) ms"
  by (induction parent k ns rule: flat.induct) (auto simp: Let_def add.assoc)

lemma walk_entries_follows:
  assumes below: "descends_ok env base keys0 below descend" and alloc: "\<And>n. n \<le> we_alloc env n"
    and iter: "enumerates (we_iter env)" and live: "we_cancel_at env = None"
  shows "entry_nodes env below directory ancestors entries = Some t \<Longrightarrow> follows env base keys0 xs w
    \<Longrightarrow> length (xs @ flat parent (6 + count_dirs xs) t) + 7 < 2 ^ 64
    \<Longrightarrow> \<exists>w'. walk_entries env descend directory (of_nat parent) ancestors entries w = Inr w'
      \<and> follows env base keys0 (xs @ flat parent (6 + count_dirs xs) t) w'"
proof (induction entries arbitrary: t xs w)
  case Nil
  then show ?case by simp
next
  case (Cons entry entries)
  obtain w1 where w1: "load_cancelled env w = (False, w1)" "follows env base keys0 xs w1"
    using load_cancelled_follows [where w = w, OF live] Cons.prems(2) by (cases "load_cancelled env w") fastforce
  have eq: "walk_entries env descend directory (of_nat parent) ancestors (entry # entries) w = rbind
      (case entry of
          Inl failure \<Rightarrow> Inr (walk_issue env (failure_issue env directory failure) w1)
        | Inr e \<Rightarrow>
            if \<not> entry_allowed env directory e then Inr w1
            else if is_directory (fe_attributes e) then walk_subdirectory env descend directory (of_nat parent) ancestors e w1
            else emit_file_record env (of_nat parent) e w1)
       (walk_entries env descend directory (of_nat parent) ancestors entries)"
    by (simp add: w1(1))
  text \<open>One entry that adds the node \<open>n\<close>, then the rest.\<close>
  have continue: ?case
    if step: "(case entry of
          Inl failure \<Rightarrow> Inr (walk_issue env (failure_issue env directory failure) w1)
        | Inr e \<Rightarrow>
            if \<not> entry_allowed env directory e then Inr w1
            else if is_directory (fe_attributes e) then walk_subdirectory env descend directory (of_nat parent) ancestors e w1
            else emit_file_record env (of_nat parent) e w1) = Inr w2"
      and w2: "follows env base keys0 (xs @ flat parent (6 + count_dirs xs) ns) w2"
      and rest: "entry_nodes env below directory ancestors entries = Some t'" "t = ns @ t'" for ns t' w2
  proof -
    let ?xs = "xs @ flat parent (6 + count_dirs xs) ns"
    have flat: "xs @ flat parent (6 + count_dirs xs) t = ?xs @ flat parent (6 + count_dirs ?xs) t'"
      by (simp add: rest(2) flat_append add.assoc)
    show ?thesis
      using Cons.IH [OF rest(1) w2] Cons.prems(3) unfolding eq step flat by simp
  qed
  have small: "length (xs @ flat parent (6 + count_dirs xs) [n]) + 7 < 2 ^ 64" if "t = n # t'" for n t'
    using Cons.prems(3) flat_append [of parent "6 + count_dirs xs" "[n]" t'] by (simp add: that)
  show ?case
  proof (cases entry)
    case (Inl failure)
    then obtain t' where t': "entry_nodes env below directory ancestors entries = Some t'"
      "t = [IssueNode (failure_issue env directory failure)] @ t'" using Cons.prems(1) by auto
    from walk_issue_follows [OF w1(2) alloc, of "failure_issue env directory failure"]
    have "follows env base keys0 (xs @ flat parent (6 + count_dirs xs) [IssueNode (failure_issue env directory failure)])
        (walk_issue env (failure_issue env directory failure) w1)" by simp
    from continue [OF _ this t'] Inl show ?thesis by simp
  next
    case (Inr e)
    show ?thesis
    proof (cases "entry_allowed env directory e")
      case False
      then have "entry_nodes env below directory ancestors entries = Some t" using Cons.prems(1) Inr by simp
      from continue [of w1 "[]" t] this w1(2) Inr False show ?thesis by simp
    next
      case True
      show ?thesis
      proof (cases "is_directory (fe_attributes e)")
        case True
        then obtain n t' where t': "subdirectory_node env below directory ancestors e = Some n"
          "entry_nodes env below directory ancestors entries = Some t'" "t = [n] @ t'"
          using Cons.prems(1) Inr \<open>entry_allowed env directory e\<close> by (auto simp: bind_eq_Some_conv)
        obtain w2 where w2: "walk_subdirectory env descend directory (of_nat parent) ancestors e w1 = Inr w2"
          "follows env base keys0 (xs @ flat parent (6 + count_dirs xs) [n]) w2"
          using walk_subdirectory_follows [OF below alloc t'(1) w1(2) small] t'(3) by auto
        show ?thesis by (rule continue [OF _ w2(2) t'(2,3)]) (use w2(1) Inr True \<open>entry_allowed env directory e\<close> in simp)
      next
        case False
        then obtain t' where t': "entry_nodes env below directory ancestors entries = Some t'" "t = [FileNode e] @ t'"
          using Cons.prems(1) Inr \<open>entry_allowed env directory e\<close> by auto
        have "length xs + 7 < 2 ^ 64" using Cons.prems(3) by simp
        from emit_file_follows [OF w1(2) alloc this iter, of parent e]
        obtain w2 where w2: "emit_file_record env (of_nat parent) e w1 = Inr w2"
          "follows env base keys0 (xs @ flat parent (6 + count_dirs xs) [FileNode e]) w2" by auto
        show ?thesis by (rule continue [OF _ w2(2) t']) (use w2(1) Inr False \<open>entry_allowed env directory e\<close> in simp)
      qed
    qed
  qed
qed

lemma walk_directory_tree_follows:
  assumes alloc: "\<And>n. n \<le> we_alloc env n" and iter: "enumerates (we_iter env)" and live: "we_cancel_at env = None"
  shows "descends_ok env base keys0 (visited_tree fuel env) (walk_directory_tree fuel env)"
proof (induction fuel)
  case 0
  then show ?case by (simp add: descends_ok_def)
next
  case (Suc fuel)
  show ?case unfolding descends_ok_def
  proof (intro allI impI)
    fix directory parent ancestors t xs w
    assume t: "visited_tree (Suc fuel) env directory ancestors = Some t" and w: "follows env base keys0 xs w"
      and bound: "length (xs @ flat parent (6 + count_dirs xs) t) + 7 < 2 ^ 64"
    show "\<exists>w'. walk_directory_tree (Suc fuel) env directory (of_nat parent) ancestors w = Inr w'
            \<and> follows env base keys0 (xs @ flat parent (6 + count_dirs xs) t) w'"
    proof (cases "sh_read_dir (we_host env) (we_fast env) directory")
      case (Inl e)
      with t walk_issue_follows [OF w alloc, of "convert_io_error e (display env directory)"] show ?thesis by auto
    next
      case (Inr entries)
      with t have "entry_nodes env (visited_tree fuel env) directory ancestors entries = Some t" by simp
      from walk_entries_follows [OF Suc.IH alloc iter live this w bound] show ?thesis by (simp add: Inr)
    qed
  qed
qed

section \<open>A scan on one thread\<close>

fun dir_numbers :: "item list \<Rightarrow> nat list" where
  "dir_numbers [] = []"
| "dir_numbers (DirItem _ k _ _ # items) = k # dir_numbers items"
| "dir_numbers (_ # items) = dir_numbers items"

text \<open>Every item is below a directory in \<open>ps\<close> or one that comes before it.\<close>

fun parents_first :: "nat set \<Rightarrow> item list \<Rightarrow> bool" where
  "parents_first ps [] = True"
| "parents_first ps (DirItem p k _ _ # items) \<longleftrightarrow> p \<in> ps \<and> parents_first (insert k ps) items"
| "parents_first ps (FileItem p _ # items) \<longleftrightarrow> p \<in> ps \<and> parents_first ps items"
| "parents_first ps (IssueItem _ # items) \<longleftrightarrow> parents_first ps items"

lemma dir_numbers_append [simp]: "dir_numbers (xs @ ys) = dir_numbers xs @ dir_numbers ys"
  by (induction xs rule: dir_numbers.induct) auto

lemma length_dir_numbers [simp]: "length (dir_numbers xs) = count_dirs xs"
  by (induction xs rule: dir_numbers.induct) auto

lemma parents_first_mono: "parents_first ps xs \<Longrightarrow> ps \<subseteq> qs \<Longrightarrow> parents_first qs xs"
  by (induction ps xs arbitrary: qs rule: parents_first.induct) (auto simp: subset_iff)

lemma parents_first_append: "parents_first ps (xs @ ys) \<longleftrightarrow> parents_first ps xs \<and> parents_first (ps \<union> set (dir_numbers xs)) ys"
  by (induction ps xs rule: parents_first.induct) (auto simp: insert_commute)

lemma flat_numbers: "dir_numbers (flat parent k t) = [k..<k + count_dirs (flat parent k t)]"
proof (induction parent k t rule: flat.induct)
  case (4 parent k path name children nodes)
  let ?below = "flat k (Suc k) children"
  have "dir_numbers ?below = [Suc k..<Suc k + count_dirs ?below]" using "4.IH"(1) .
  moreover have "dir_numbers (flat parent (Suc (k + count_dirs ?below)) nodes) =
      [Suc (k + count_dirs ?below)..<Suc (k + count_dirs ?below) + count_dirs (flat parent (Suc (k + count_dirs ?below)) nodes)]"
    using "4.IH"(2) [OF refl] .
  moreover have "[Suc k..<Suc k + a] @ [Suc k + a..<Suc k + a + b] = [Suc k..<Suc k + a + b]" for a b
    by (rule upt_add_eq_append [symmetric]) simp
  ultimately show ?case by (simp add: Let_def upt_conv_Cons add.assoc del: upt_Suc)
qed auto

lemma flat_parents_first: "parent \<in> ps \<Longrightarrow> parents_first ps (flat parent k t)"
proof (induction parent k t arbitrary: ps rule: flat.induct)
  case (4 parent k path name children nodes)
  let ?below = "flat k (Suc k) children"
  have "parents_first (insert k ps) ?below" using "4.IH"(1) by simp
  moreover have "parents_first (insert k ps \<union> set (dir_numbers ?below)) (flat parent (Suc (k + count_dirs ?below)) nodes)"
    using "4.IH"(2) [OF refl] "4.prems" by simp
  ultimately show ?case using "4.prems" by (simp add: Let_def parents_first_append)
qed auto

lemma emitted_files_count: "events_of_items env st xs = (es, st') \<Longrightarrow> length (emitted_files es) = count_files xs"
proof (induction xs arbitrary: st es)
  case (Cons x xs)
  obtain es1 st1 where x: "item_events env st x = (es1, st1)" by (rule prod.exhaust)
  obtain es2 st2 where xs: "events_of_items env st1 xs = (es2, st2)" by (rule prod.exhaust)
  have "length (emitted_files es1) = count_files [x]" using x by (cases x; cases st) (auto simp: Let_def split: if_splits)
  moreover have "length (emitted_files es2) = count_files xs" using Cons.IH xs Cons.prems x by simp
  ultimately show ?case using Cons.prems x xs count_files_append [of "[x]" xs] by (auto simp: Let_def)
qed simp


text \<open>A root with a directory, one file with two names and an unreadable entry.\<close>

definition demo_entry :: "string \<Rightarrow> u32 \<Rightarrow> find_entry" where
  "demo_entry name attributes = \<lparr>fe_name = name, fe_attributes = attributes, fe_size_bytes = 10, fe_allocation_bytes = 16,
    fe_physical_identity = Some (1, 7), fe_created_utc = 0, fe_modified_utc = 0, fe_accessed_utc = 0\<rparr>"

definition demo_paths :: host_paths where
  "demo_paths = \<lparr>hp_components = \<lambda>_. [], hp_push = \<lambda>p s. p @ [backslash] @ s, hp_pop = \<lambda>p. p, hp_lossy = \<lambda>p. p,
    hp_file_name = \<lambda>_. None, hp_strip_prefix = \<lambda>_ _. None, hp_equal = (=), hp_lowercase = \<lambda>s. s\<rparr>"

definition demo_env :: walk_env where
  "demo_env = \<lparr>we_host = \<lparr>sh_paths = demo_paths,
      sh_read_dir = \<lambda>_ p. if p = ''C:'' then Inr [Inr (demo_entry ''d'' DIRECTORY), Inr (demo_entry ''a'' ARCHIVE),
          Inl \<lparr>en_error = \<lparr>io_raw_os_error = Some 5, io_kind = KindOther, io_text = ''no''\<rparr>, en_path = None\<rparr>]
        else Inr [Inr (demo_entry ''b'' ARCHIVE)],
      sh_canonicalize = \<lambda>p. Inr p, sh_is_dir = \<lambda>_. Inr True\<rparr>,
    we_rules = \<lparr>sr_exclude_paths = [], sr_include_files = []\<rparr>, we_policy = SkipAll, we_fast = True, we_root = ''C:'',
    we_iter = listed, we_alloc = \<lambda>n. n, we_cancel_at = None\<rparr>"

definition demo_outlet :: outlet where
  "demo_outlet = (pipeline_new Unbounded scan_pipeline_config_default, \<lparr>dl_queue = [], dl_connected = True, dl_pool = []\<rparr>)"

lemma demo_attributes: "is_directory DIRECTORY" "\<not> is_reparse_point DIRECTORY" "\<not> is_directory ARCHIVE"
  by (simp_all add: is_directory_def is_reparse_point_def contains_attr_def DIRECTORY_def ARCHIVE_def REPARSE_POINT_def)

lemma demo_tree:
  "visited_tree (Suc (Suc 0)) demo_env ''C:'' None = Some [DirNode (''C:'' @ [backslash, CHR ''d'']) ''d'' [FileNode (demo_entry ''b'' ARCHIVE)],
    FileNode (demo_entry ''a'' ARCHIVE), IssueNode \<lparr>i_kind = PermissionDenied, i_path = Some ''C:'', i_message = ''no''\<rparr>]"
  by (simp add: demo_attributes demo_env_def demo_paths_def demo_entry_def entry_allowed_def rules_empty_def
      subdirectory_node_def evaluate_reparse_descent_def chain_enabled_def chain_disabled_def failure_issue_def convert_io_error_def classify_io_error_def
      display_def path_join_def Let_def)


end
