(* ===== verification/Spec2Isabelle.thy ===== *)
theory Spec2Isabelle
  imports Tree_Paths Volume_Scan Aggregation Index_Store Search_Query Record_Sort Path_Remap
    Export_Roundtrip Import_Dates Multiple_Roots Tree_Search Scan_Walk
begin

text \<open>
  A verification library for the core of WinBlaze, a Windows disk-usage scanner written in Rust.

  The program has four layers. \<^bold>\<open>WinBlaze.Core\<close> defines the records of volumes, directories and
  files, their aggregation over the directory tree and the difference of two scans. \<^bold>\<open>WinBlaze.Scanner\<close>
  produces such records; its fast path reads the NTFS master file table from the raw volume.
  \<^bold>\<open>WinBlaze.Index\<close> stores a scan, saves and loads it, applies later scans and answers queries.
  \<^bold>\<open>WinBlaze.Native\<close> exports all of this to a user interface. The library models the first three.

  \<^bold>\<open>Theories.\<close>
  \<^item> \<open>Wb_Prelude\<close>: machine integers (\<open>u64\<close>, \<open>i64\<close>, saturating and checked arithmetic), little-endian
    encoding, the error monad \<open>rbind\<close> on sums, hash maps as lists of pairs. \<open>Wb_Text\<close>: strings as UTF-8 bytes,
    case folding and comparison of text.
  \<^item> \<open>Core_Model\<close>: records, enums and operations of \<open>Core/src/model.rs\<close> and \<open>scan.rs\<close>, with the classification
    of changes between two scans. \<open>Aggregation\<close>: \<open>aggregate_directory_records\<close>; the climb to the ancestors is a
    loop that need not end, so it is a partial function into options and \<open>None\<close> means that it does not return.
  \<^item> \<open>Record_Stores\<close>: the file table of \<open>Index/src/file_records.rs\<close> (an arena of records with a dense or sparse
    index of positions) and the directory table, as refinements of finite maps.
  \<^item> \<open>Snapshot_Codec\<close>, \<open>Snapshot_Format\<close>, \<open>Index_Transaction\<close>, \<open>Snapshot_State\<close>: the binary snapshot of
    \<open>Index/src/store.rs\<close>, readers over a byte list with the errors of the code, and the transaction it stores.
  \<^item> \<open>Index_Store\<close>: opening, saving, the backup protocol and the operations of the repository, over a file
    system whose every call may fail or crash the machine. \<open>Path_Remap\<close>: carrying ids over a rescan.
  \<^item> \<open>Comparison_Sorts\<close>, \<open>Search_Query\<close>, \<open>Record_Sort\<close>: the library sorts as interfaces (locales), the
    search of \<open>Index/src/query.rs\<close> and the in-place sort of \<open>Index/src/tree.rs\<close>.
  \<^item> \<open>Ntfs_Layout\<close>, \<open>Ntfs_Extents\<close>, \<open>Ntfs_Volume\<close>, \<open>Ntfs_Sparse\<close>, \<open>Ntfs_Reader\<close>: \<open>Scanner/src/ntfs.rs\<close> up to the
    byte stream of the file table: checked reads, update-sequence fixups, data runs, boot sector, the extents of
    the table, the bitmap and the extents a sparse read keeps, and the buffered reader.
  \<^item> \<open>Ntfs_Records\<close>, \<open>Ntfs_Entries\<close>: file records to entries, the fan-out over workers, extension sizes, path
    resolution and the resulting enumeration.
  \<^item> \<open>Ntfs_Stream\<close>, \<open>Ntfs_Pipeline\<close>: the streaming scan, its emit state and its three stages.
    \<open>Stream_Paths\<close>, \<open>Scan_Agreement\<close>, \<open>Volume_Scan\<close>: what it promises about directories and files, its agreement
    with the batch parser, and the scan of a volume from the extents to the summary.

  \<^bold>\<open>Conventions.\<close> A Rust struct is a record with the field prefix of its type, an enum a datatype. An \<open>Err\<close> is
  the left of a sum, a panic is a value of the error type (\<open>Panicked\<close>) or \<open>None\<close> where nothing else can
  fail. Hash maps are association lists whose enumeration order is arbitrary; where the code enumerates
  one, the order is a parameter constrained only to be a permutation. Strings are lists of characters read as
  the bytes of their UTF-8 form. The volume is a partial map from positions to bytes; an unreadable position is
  \<open>None\<close>. Paths of the host, Unicode tables, sorting algorithms of the standard library and the file extension
  of a path are parameters with their documented laws.

  \<^bold>\<open>What the lemmas show.\<close> For the tables, refinement of maps and an invariant kept by every operation. For
  the snapshot, round trip, canonical form and rejection of every truncation. For the repository, that a crash at
  any point of a save leaves the old or the new index loadable, with the one window where it does not. For
  searches, equality with a filter-sort-truncate reference. For aggregation, the sums and when the loop ends.
  For the file table, that sparse and buffered reading lose no record in use, that fixups and data runs invert
  their encodings, that the parser panics on exactly one shape of record, and that workers change nothing.

  \<^bold>\<open>Bounds and fuel.\<close> Widths are those of the code; offsets into buffers are naturals, since their sums stay
  far below 64 bits. Loops with a bound terminate by a measure. \<open>read_blocks\<close> has fuel, one unit per block;
  \<open>reader_delivers_stream\<close> shows that one more block than the stream fills is enough.

  \<^bold>\<open>Not modelled.\<close> Calls into the Windows API and its handles (\<open>winfind.rs\<close>, privileges and the
  metadata-file fallback of \<open>ntfs.rs\<close>), threads and channels beyond the order of their messages, timing
  statistics and profilers, the foreign-function layer of \<open>WinBlaze.Native\<close>, the user interface in other
  languages, and the code listed as such in the manifest.
\<close>

end
